(* ===== verification/Go_Prelude.thy ===== *)
theory Go_Prelude
  imports
    Main
    "HOL-Library.Word"
    "HOL-Library.AList"
    "HOL-Library.List_Lexorder"
begin

section \<open>The fragment of Go the program is written in\<close>

text \<open>
  What every component of hexalog uses of the language and its standard library:
  slices that can be nil, \<open>bytes.Compare\<close>, maps, buffered channels, big-endian
  integers, and calls that can return, panic or block. A slice of Go is nil or a
  sequence; nil and an empty slice have the same contents, but the code tells them
  apart with \<open>== nil\<close>, so a slice is an \<open>option\<close> here.
\<close>

named_theorems go_simps \<open>equations of the operations of Go\<close>
named_theorems ensures_intro \<open>rules for what a call ensures of the state\<close>

subsection \<open>Slices and bytes\<close>

type_synonym byte = "8 word"
type_synonym 'a slice = "'a list option"
type_synonym bytes = "byte slice"

text \<open>The elements of a slice; \<open>string(key)\<close> is \<open>els key\<close>, \<open>len(s)\<close> is \<open>length (els s)\<close>.\<close>

fun els :: "'a slice \<Rightarrow> 'a list" where
  "els None = []"
| "els (Some xs) = xs"

text \<open>\<open>bytes.Compare\<close>: the lexicographic order as -1, 0 or 1; a nil argument is an empty slice.\<close>

fun byte_compare :: "byte list \<Rightarrow> byte list \<Rightarrow> int" where
  "byte_compare [] [] = 0"
| "byte_compare [] (y # ys) = -1"
| "byte_compare (x # xs) [] = 1"
| "byte_compare (x # xs) (y # ys) =
     (if x < y then -1 else if y < x then 1 else byte_compare xs ys)"

definition bytes_Compare :: "bytes \<Rightarrow> bytes \<Rightarrow> int" where
  "bytes_Compare a b = byte_compare (els a) (els b)"

lemma byte_compare_eq_0 [simp]: "byte_compare xs ys = 0 \<longleftrightarrow> xs = ys"
  by (induction xs ys rule: byte_compare.induct) auto

lemma bytes_Compare_eq_0 [simp]: "bytes_Compare a b = 0 \<longleftrightarrow> els a = els b"
  by (simp add: bytes_Compare_def)

text \<open>\<open>make([]byte, n)\<close>: a non-nil slice of zero bytes.\<close>

definition make_bytes :: "nat \<Rightarrow> bytes" where
  "make_bytes n = Some (replicate n 0)"

lemma els_make_bytes [simp]: "els (make_bytes n) = replicate n 0"
  by (simp add: make_bytes_def)

lemma make_bytes_not_nil [simp]: "make_bytes n \<noteq> None"
  by (simp add: make_bytes_def)

subsection \<open>Big-endian integers (encoding/binary)\<close>

text \<open>\<open>binary.Write(w, binary.BigEndian, x)\<close> writes the \<open>n\<close> bytes of \<open>x\<close>, the highest first.\<close>

definition big_endian :: "nat \<Rightarrow> 'w::len word \<Rightarrow> byte list" where
  "big_endian n w = rev (map (\<lambda>i. ucast (drop_bit (8 * i) w)) [0..<n])"

definition of_big_endian :: "byte list \<Rightarrow> nat" where
  "of_big_endian bs = foldl (\<lambda>a b. a * 256 + unat b) 0 bs"

lemma length_big_endian [simp]: "length (big_endian n w) = n"
  by (simp add: big_endian_def)

lemma big_endian_Suc:
  "big_endian (Suc n) w = ucast (drop_bit (8 * n) w) # big_endian n w"
  by (simp add: big_endian_def)

lemma of_big_endian_Cons:
  "of_big_endian (b # bs) = unat b * 256 ^ length bs + of_big_endian bs"
proof -
  have "foldl (\<lambda>a b. a * 256 + unat b) k bs
      = k * 256 ^ length bs + foldl (\<lambda>a b. a * 256 + unat b) 0 bs" for k and bs :: "byte list"
  proof (induction bs arbitrary: k rule: rev_induct)
    case Nil
    show ?case by simp
  next
    case (snoc x xs)
    have "foldl (\<lambda>a b. a * 256 + unat b) k (xs @ [x])
        = (k * 256 ^ length xs + foldl (\<lambda>a b. a * 256 + unat b) 0 xs) * 256 + unat x"
      using snoc.IH [of k] by simp
    then show ?case by (simp add: distrib_right)
  qed
  from this [of "unat b"] show ?thesis by (simp add: of_big_endian_def)
qed

lemma of_big_endian_big_endian: "of_big_endian (big_endian n w) = unat w mod 256 ^ n"
proof (induction n)
  case 0
  show ?case by (simp add: big_endian_def of_big_endian_def)
next
  case (Suc n)
  have top: "unat (ucast (drop_bit (8 * n) w) :: byte) = unat w div 256 ^ n mod 256"
  proof -
    have "unat (drop_bit (8 * n) w) = unat w div 256 ^ n"
      by (simp only: unat_drop_bit_eq drop_bit_eq_div [of "8 * n" "unat w"] power_mult) simp
    then show ?thesis
      by (simp only: unsigned_ucast_eq take_bit_eq_mod) simp
  qed
  have "unat w mod 256 ^ Suc n
      = 256 ^ n * (unat w div 256 ^ n mod 256) + unat w mod 256 ^ n"
    by (metis mod_mult2_eq power_Suc2)
  then show ?case
    by (simp add: big_endian_Suc of_big_endian_Cons Suc.IH top)
qed

lemma big_endian_inject:
  fixes v w :: "'w::len word"
  assumes "LENGTH('w) \<le> 8 * n" and "big_endian n v = big_endian n w"
  shows "v = w"
proof -
  have bound: "unat x < 256 ^ n" for x :: "'w word"
  proof -
    have "unat x < 2 ^ LENGTH('w)" by (rule unsigned_less)
    also have "\<dots> \<le> (2::nat) ^ (8 * n)" using assms(1) by (simp add: power_increasing)
    finally show ?thesis by (simp add: power_mult)
  qed
  have "unat v mod 256 ^ n = unat w mod 256 ^ n"
    using assms(2) by (metis of_big_endian_big_endian)
  then show ?thesis using bound by (simp add: word_unat_eq_iff)
qed

subsection \<open>Maps\<close>

text \<open>
  A map of Go as the list of its bindings, without repeated keys. Reading, writing and
  deleting are \<open>map_of\<close>, \<open>AList.update\<close> and \<open>AList.delete\<close>; \<open>len(m)\<close> is the
  length. The order in the list is not the program's: no operation depends on it.
\<close>

type_synonym ('k, 'v) gomap = "('k \<times> 'v) list"

definition map_ok :: "('k, 'v) gomap \<Rightarrow> bool" where
  "map_ok m \<longleftrightarrow> distinct (map fst m)"

lemma map_ok_empty [simp]: "map_ok []"
  by (simp add: map_ok_def)

lemma map_ok_update [simp]: "map_ok m \<Longrightarrow> map_ok (AList.update k v m)"
  by (simp add: map_ok_def distinct_update)

lemma map_ok_delete [simp]: "map_ok m \<Longrightarrow> map_ok (AList.delete k m)"
  by (simp add: map_ok_def distinct_delete)

lemma map_of_update [simp]: "map_of (AList.update k v m) = (map_of m)(k \<mapsto> v)"
  by (simp add: update_conv' fun_eq_iff)

lemma map_of_delete [simp]: "map_of (AList.delete k m) = (map_of m)(k := None)"
  by (simp add: delete_conv' fun_eq_iff)

lemma length_update_new: "map_of m k = None \<Longrightarrow> length (AList.update k v m) = Suc (length m)"
  by (induction m) (auto split: if_splits)

lemma length_update_old: "map_of m k \<noteq> None \<Longrightarrow> length (AList.update k v m) = length m"
  by (induction m) (auto split: if_splits)

lemma map_ok_in_set_iff: "map_ok m \<Longrightarrow> (k, v) \<in> set m \<longleftrightarrow> map_of m k = Some v"
  by (auto simp: map_ok_def)

lemma length_map_ok: "map_ok m \<Longrightarrow> length m = card (dom (map_of m))"
  unfolding map_ok_def
  by (metis distinct_card dom_map_of_conv_image_fst length_map set_map)

subsection \<open>Loops with an early exit\<close>

text \<open>
  The iterators of the program take a callback and stop at its first error. Iterating
  is a loop over the visited elements; the callback works on a state.
\<close>

fun for_each :: "('x \<Rightarrow> 's \<Rightarrow> 'e option \<times> 's) \<Rightarrow> 'x list \<Rightarrow> 's \<Rightarrow> 'e option \<times> 's" where
  "for_each cb [] s = (None, s)"
| "for_each cb (x # xs) s =
     (case cb x s of
        (Some e, s') \<Rightarrow> (Some e, s')
      | (None, s') \<Rightarrow> for_each cb xs s')"

lemma for_each_append:
  "for_each cb (xs @ ys) s =
     (case for_each cb xs s of
        (Some e, s') \<Rightarrow> (Some e, s')
      | (None, s') \<Rightarrow> for_each cb ys s')"
  by (induction xs arbitrary: s) (auto split: prod.splits option.splits)

lemma for_each_never_fails:
  assumes "\<And>x s. fst (cb x s) = None"
  shows "for_each cb xs s = (None, fold (\<lambda>x s. snd (cb x s)) xs s)"
proof (induction xs arbitrary: s)
  case Nil
  show ?case by simp
next
  case (Cons x xs)
  from assms [of x s] obtain s' where "cb x s = (None, s')" by (cases "cb x s") simp
  with Cons.IH show ?case by simp
qed

lemma for_each_invariant:
  assumes "I s" and "\<And>x s. x \<in> set xs \<Longrightarrow> I s \<Longrightarrow> I (snd (cb x s))"
  shows "I (snd (for_each cb xs s))"
  using assms
proof (induction xs arbitrary: s)
  case Nil
  then show ?case by simp
next
  case (Cons x xs)
  have step: "I (snd (cb x s))" using Cons.prems by simp
  show ?case
  proof (cases "cb x s")
    case (Pair r s')
    with step have "I s'" by simp
    then show ?thesis using Pair Cons.IH [of s'] Cons.prems(2)
      by (cases r) auto
  qed
qed

end
