(* ===== verification/Go_Calls.thy ===== *)
theory Go_Calls
  imports Go_Prelude
begin

section \<open>Calls that return, panic or block; channels\<close>

text \<open>
  A call of Go that works on shared state either returns a value, panics (an index out
  of range, a nil pointer, a send on a closed channel) or blocks (a send on a full
  channel, a receive on an empty one). All three carry the state the call has reached.
  Calls compose by \<open>bind\<close>, which runs the rest only after a return; \<open>zoom\<close> runs a
  call of a part of the state inside the whole.
\<close>

datatype ('s, 'a) outcome =
    Ret 'a (after: 's)
  | Panic (after: 's)
  | Block (after: 's)

type_synonym ('s, 'a) call = "'s \<Rightarrow> ('s, 'a) outcome"

definition bind :: "('s, 'a) call \<Rightarrow> ('a \<Rightarrow> ('s, 'b) call) \<Rightarrow> ('s, 'b) call" where
  "bind m f s =
     (case m s of
        Ret a t \<Rightarrow> f a t
      | Panic t \<Rightarrow> Panic t
      | Block t \<Rightarrow> Block t)"

definition zoom :: "('s \<Rightarrow> 't) \<Rightarrow> ('t \<Rightarrow> 's \<Rightarrow> 's) \<Rightarrow> ('t, 'a) call \<Rightarrow> ('s, 'a) call" where
  "zoom get put m s =
     (case m (get s) of
        Ret a t \<Rightarrow> Ret a (put t s)
      | Panic t \<Rightarrow> Panic (put t s)
      | Block t \<Rightarrow> Block (put t s))"

text \<open>A loop over the elements of a slice whose body is a call.\<close>

fun each :: "('x \<Rightarrow> ('s, unit) call) \<Rightarrow> 'x list \<Rightarrow> ('s, unit) call" where
  "each f [] = Ret ()"
| "each f (x # xs) = bind (f x) (\<lambda>_. each f xs)"

fun returned :: "('s, 'a) outcome \<Rightarrow> 'a option" where
  "returned (Ret a _) = Some a"
| "returned (Panic _) = None"
| "returned (Block _) = None"

fun panics :: "('s, 'a) outcome \<Rightarrow> bool" where
  "panics (Panic _) = True"
| "panics _ = False"

fun blocks :: "('s, 'a) outcome \<Rightarrow> bool" where
  "blocks (Block _) = True"
| "blocks _ = False"

lemma bind_Ret [simp]: "m s = Ret a t \<Longrightarrow> bind m f s = f a t"
  by (simp add: bind_def)

lemma bind_Panic [simp]: "m s = Panic t \<Longrightarrow> bind m f s = Panic t"
  by (simp add: bind_def)

lemma bind_Block [simp]: "m s = Block t \<Longrightarrow> bind m f s = Block t"
  by (simp add: bind_def)

lemma bind_eq_Ret_iff:
  "bind m f s = Ret b u \<longleftrightarrow> (\<exists>a t. m s = Ret a t \<and> f a t = Ret b u)"
  by (cases "m s") (auto simp: bind_def)

lemma zoom_eq_Ret_iff:
  "zoom get put m s = Ret a u \<longleftrightarrow> (\<exists>t. m (get s) = Ret a t \<and> u = put t s)"
  by (cases "m (get s)") (auto simp: zoom_def)

lemma zoom_Ret [simp]: "m (get s) = Ret a t \<Longrightarrow> zoom get put m s = Ret a (put t s)"
  by (simp add: zoom_def)

lemma zoom_Panic [simp]: "m (get s) = Panic t \<Longrightarrow> zoom get put m s = Panic (put t s)"
  by (simp add: zoom_def)

lemma zoom_Block [simp]: "m (get s) = Block t \<Longrightarrow> zoom get put m s = Block (put t s)"
  by (simp add: zoom_def)

lemma after_zoom: "after (zoom get put m s) = put (after (m (get s))) s"
  by (cases "m (get s)") (simp_all add: zoom_def)

lemma returned_zoom [simp]: "returned (zoom get put m s) = returned (m (get s))"
  by (cases "m (get s)") (simp_all add: zoom_def)

lemma returned_eq_Some_iff: "returned o1 = Some a \<longleftrightarrow> o1 = Ret a (after o1)"
  by (cases o1) auto

subsection \<open>What a call ensures\<close>

text \<open>
  From a state with \<open>P\<close> a call that returns \<open>a\<close> ends in a state with \<open>Q a\<close>, and one that
  blocks has reached a state with \<open>R\<close>. Nothing is said of a panic, which ends the process.
\<close>

definition ensures ::
  "('s \<Rightarrow> bool) \<Rightarrow> ('s, 'a) call \<Rightarrow> ('a \<Rightarrow> 's \<Rightarrow> bool) \<Rightarrow> ('s \<Rightarrow> bool) \<Rightarrow> bool" where
  "ensures P m Q R \<longleftrightarrow>
     (\<forall>s. P s \<longrightarrow> (case m s of Ret a t \<Rightarrow> Q a t | Panic t \<Rightarrow> True | Block t \<Rightarrow> R t))"

lemma ensuresI:
  "(\<And>s. P s \<Longrightarrow> case m s of Ret a t \<Rightarrow> Q a t | Panic t \<Rightarrow> True | Block t \<Rightarrow> R t) \<Longrightarrow> ensures P m Q R"
  by (simp add: ensures_def)

lemma ensuresD:
  "ensures P m Q R \<Longrightarrow> P s \<Longrightarrow> case m s of Ret a t \<Rightarrow> Q a t | Panic t \<Rightarrow> True | Block t \<Rightarrow> R t"
  by (simp add: ensures_def)

lemma ensures_Ret: "ensures P m Q R \<Longrightarrow> P s \<Longrightarrow> m s = Ret a t \<Longrightarrow> Q a t"
  by (auto simp: ensures_def)

lemma ensures_Block: "ensures P m Q R \<Longrightarrow> P s \<Longrightarrow> m s = Block t \<Longrightarrow> R t"
  by (auto simp: ensures_def)

lemma ensures_bind [ensures_intro]:
  assumes "ensures P m Q R" and "\<And>a. ensures (Q a) (f a) S R"
  shows "ensures P (bind m f) S R"
  unfolding ensures_def
proof (intro allI impI)
  fix s assume "P s"
  with assms show "case bind m f s of Ret a t \<Rightarrow> S a t | Panic t \<Rightarrow> True | Block t \<Rightarrow> R t"
    by (cases "m s") (auto simp: ensures_def)
qed

lemma ensures_return [ensures_intro]: "(\<And>s. P s \<Longrightarrow> Q a s) \<Longrightarrow> ensures P (Ret a) Q R"
  by (simp add: ensures_def)

lemma ensures_panic [ensures_intro]: "ensures P Panic Q R"
  by (simp add: ensures_def)

lemma ensures_if:
  "(c \<Longrightarrow> ensures P m Q R) \<Longrightarrow> (\<not> c \<Longrightarrow> ensures P m' Q R) \<Longrightarrow> ensures P (if c then m else m') Q R"
  by simp

lemma ensures_weaken:
  assumes "ensures P m Q R" and "\<And>s. P' s \<Longrightarrow> P s" and "\<And>a s. Q a s \<Longrightarrow> Q' a s" and "\<And>s. R s \<Longrightarrow> R' s"
  shows "ensures P' m Q' R'"
proof (rule ensuresI)
  fix s assume "P' s"
  then have "case m s of Ret a t \<Rightarrow> Q a t | Panic t \<Rightarrow> True | Block t \<Rightarrow> R t"
    using assms(1,2) by (simp add: ensures_def)
  then show "case m s of Ret a t \<Rightarrow> Q' a t | Panic t \<Rightarrow> True | Block t \<Rightarrow> R' t"
    using assms(3,4) by (cases "m s") simp_all
qed

text \<open>A call whose definition looks at the state it starts in.\<close>

lemma ensures_from:
  "(\<And>s. P s \<Longrightarrow> \<exists>m' P'. m s = m' s \<and> P' s \<and> ensures P' m' Q R) \<Longrightarrow> ensures P m Q R"
  unfolding ensures_def by metis

lemma ensures_each:
  assumes "\<And>x. ensures I (f x) (\<lambda>_. I) R"
  shows "ensures I (each f xs) (\<lambda>_. I) R"
  by (induction xs) (auto intro!: ensures_intro assms)

subsection \<open>Buffered channels\<close>

text \<open>
  A channel is its buffer, its capacity and whether it was closed. Sending on a closed
  channel panics; sending on a full one blocks; receiving from an empty one blocks, or
  yields nothing once the channel is closed (the end of a \<open>range\<close> loop).
\<close>

record 'a chan =
  buf :: "'a list"
  cap :: nat
  is_closed :: bool

definition make_chan :: "nat \<Rightarrow> 'a chan" where
  "make_chan n = \<lparr>buf = [], cap = n, is_closed = False\<rparr>"

definition chan_send :: "'a \<Rightarrow> ('a chan, unit) call" where
  "chan_send x c =
     (if is_closed c then Panic c
      else if length (buf c) < cap c then Ret () (c\<lparr>buf := buf c @ [x]\<rparr>)
      else Block c)"

definition chan_recv :: "('a chan, 'a option) call" where
  "chan_recv c =
     (case buf c of
        x # xs \<Rightarrow> Ret (Some x) (c\<lparr>buf := xs\<rparr>)
      | [] \<Rightarrow> if is_closed c then Ret None c else Block c)"

definition chan_close :: "('a chan, unit) call" where
  "chan_close c = (if is_closed c then Panic c else Ret () (c\<lparr>is_closed := True\<rparr>))"

definition chan_ok :: "'a chan \<Rightarrow> bool" where
  "chan_ok c \<longleftrightarrow> length (buf c) \<le> cap c"

definition has_room :: "'a chan \<Rightarrow> bool" where
  "has_room c \<longleftrightarrow> \<not> is_closed c \<and> length (buf c) < cap c"

lemma chan_send_room [simp]: "has_room c \<Longrightarrow> chan_send x c = Ret () (c\<lparr>buf := buf c @ [x]\<rparr>)"
  by (simp add: has_room_def chan_send_def)

lemma chan_send_eq_Ret_iff:
  "chan_send x c = Ret u c' \<longleftrightarrow> has_room c \<and> c' = c\<lparr>buf := buf c @ [x]\<rparr>"
  by (auto simp: chan_send_def has_room_def)

lemma make_chan_simps [simp]:
  "buf (make_chan n) = []" "cap (make_chan n) = n" "\<not> is_closed (make_chan n)"
  "chan_ok (make_chan n)" "has_room (make_chan n) \<longleftrightarrow> 0 < n"
  by (simp_all add: make_chan_def chan_ok_def has_room_def)

lemma chan_ok_calls:
  "chan_ok c \<Longrightarrow> chan_ok (after (chan_send x c))" "chan_ok c \<Longrightarrow> chan_ok (after (chan_recv c))"
  "chan_ok c \<Longrightarrow> chan_ok (after (chan_close c))"
  by (auto simp: chan_ok_def chan_send_def chan_recv_def chan_close_def split: list.splits)

text \<open>A channel is a queue: what was sent first is received first.\<close>

lemma chan_send_recv:
  assumes "chan_send x c = Ret () c'" and "buf c = []"
  shows "chan_recv c' = Ret (Some x) c"
  using assms by (cases c) (auto simp: chan_send_eq_Ret_iff chan_recv_def)

lemma chan_recv_after_send:
  assumes "buf c = y # ys" and "chan_send x c = Ret () c'"
  shows "chan_recv c' = Ret (Some y) (c\<lparr>buf := ys @ [x]\<rparr>)"
  using assms by (cases c) (auto simp: chan_send_eq_Ret_iff chan_recv_def)

end
