(* ===== verification/Hexa_Types.thy ===== *)
theory Hexa_Types
  imports Go_Calls
begin

section \<open>Errors, messages and configuration\<close>

text \<open>
  The values the components exchange: the errors they compare by identity, the protocol
  buffer messages of \<open>rpc.proto\<close> (Go structs in \<open>rpc.pb.go\<close>), the helpers of
  \<open>request_options.go\<close>, the configuration of \<open>config.go\<close>, and what is used of
  \<open>hash.Hash\<close>, \<open>encoding/hex\<close> and \<open>encoding/json\<close>.
\<close>

subsection \<open>Errors\<close>

text \<open>
  A sentinel error is a constructor, since the code compares errors by identity. The
  first group is declared by the package hexatype; only their names are known here, and
  their texts are a parameter of \<open>Error_text\<close>. \<open>Errorf\<close> values are fresh errors
  made by \<open>fmt.Errorf\<close>, with the arguments of the format. The last two stand for errors
  made by the application's FSM and by gRPC. No error is \<open>None\<close>.
\<close>

datatype error =
    ErrKeyExists | ErrKeyNotFound | ErrEntryNotFound | ErrPreviousHash | ErrKeyDegraded
  | ErrInsufficientPeers | ErrKeyInvalid
  | errBallotTimedOut | errBallotClosed | errBallotAlreadyClosed | errBallotNotFound
  | errNotEnoughProposals | errVoterAlreadyVoted | errInvalidVoteID
  | errNotLastEntry | errTimedOut
  | Errorf_not_in_peer_set string
  | Errorf_not_in_PeerSet string
  | Errorf_no_max_height
  | Errorf_transport_shutdown
  | Errorf_merged error error
  | AppError string
  | RPCError string

fun Error_text :: "(error \<Rightarrow> string) \<Rightarrow> error \<Rightarrow> string" where
  "Error_text ext errBallotTimedOut = ''ballot timed out''"
| "Error_text ext errBallotClosed = ''ballot closed''"
| "Error_text ext errBallotAlreadyClosed = ''ballot already closed''"
| "Error_text ext errBallotNotFound = ''ballot not found''"
| "Error_text ext errNotEnoughProposals = ''not enough proposals''"
| "Error_text ext errVoterAlreadyVoted = ''voter already voted''"
| "Error_text ext errInvalidVoteID = ''invalid vote id''"
| "Error_text ext errNotLastEntry = ''not last entry''"
| "Error_text ext errTimedOut = ''timed out''"
| "Error_text ext (Errorf_not_in_peer_set h) = h @ '' not in peer set''"
| "Error_text ext (Errorf_not_in_PeerSet h) = h @ '' not in PeerSet''"
| "Error_text ext Errorf_no_max_height = ''unable to find max height''"
| "Error_text ext Errorf_transport_shutdown = ''transport is shutdown''"
| "Error_text ext (Errorf_merged e1 e2) = Error_text ext e1 @ ''; '' @ Error_text ext e2"
| "Error_text ext (AppError t) = t"
| "Error_text ext (RPCError t) = t"
| "Error_text ext e = ext e"

definition mergeErrors :: "error option \<Rightarrow> error option \<Rightarrow> error option" where
  "mergeErrors e1 e2 =
     (case (e1, e2) of
        (Some a, Some b) \<Rightarrow> Some (Errorf_merged a b)
      | (Some a, None) \<Rightarrow> Some a
      | (None, _) \<Rightarrow> e2)"

lemma mergeErrors_simps [simp]:
  "mergeErrors None e = e"
  "mergeErrors e None = e"
  "mergeErrors (Some a) (Some b) = Some (Errorf_merged a b)"
  by (simp_all add: mergeErrors_def split: option.splits)

lemma mergeErrors_eq_None_iff [simp]: "mergeErrors e1 e2 = None \<longleftrightarrow> e1 = None \<and> e2 = None"
  by (simp add: mergeErrors_def split: option.splits)

subsection \<open>Messages (rpc.proto)\<close>

record Entry =
  Key :: bytes
  Previous :: bytes
  Height :: "32 word"
  Timestamp :: "64 word"
  LTime :: "64 word"
  Data :: bytes

record Participant =
  part_ID :: bytes
  Host :: string
  Priority :: int
  part_Index :: int

text \<open>
  \<open>SourceIndex\<close> is an \<open>int32\<close> that only ever holds an index of the peer set or a
  negative number, so it is an integer here.
\<close>

record RequestOptions =
  SourceIndex :: int
  PeerSet :: "Participant slice"
  WaitBallot :: bool
  WaitApply :: bool
  WaitApplyTimeout :: int

record ReqResp =
  rr_ID :: bytes
  rr_Entry :: "Entry option"
  rr_Options :: "RequestOptions option"
  BallotTime :: int
  ApplyTime :: int

record KeySeed =
  seed_Key :: bytes
  seed_Height :: "32 word"
  seed_Marker :: bytes
  seed_LTime :: "64 word"

text \<open>The zero value of each struct (\<open>&Entry{}\<close> and so on).\<close>

definition zero_Entry :: Entry where
  "zero_Entry = \<lparr>Key = None, Previous = None, Height = 0, Timestamp = 0, LTime = 0, Data = None\<rparr>"

definition zero_RequestOptions :: RequestOptions where
  "zero_RequestOptions = \<lparr>SourceIndex = 0, PeerSet = None, WaitBallot = False,
     WaitApply = False, WaitApplyTimeout = 0\<rparr>"

definition zero_ReqResp :: ReqResp where
  "zero_ReqResp = \<lparr>rr_ID = None, rr_Entry = None, rr_Options = None,
     BallotTime = 0, ApplyTime = 0\<rparr>"

subsection \<open>Request options (request\_options.go)\<close>

abbreviation peers :: "RequestOptions \<Rightarrow> Participant list" where
  "peers opts \<equiv> els (PeerSet opts)"

definition DefaultRequestOptions :: RequestOptions where
  "DefaultRequestOptions = zero_RequestOptions\<lparr>WaitApplyTimeout := 2000\<rparr>"

text \<open>
  The clone has a peer set of its own, with the same participants, and only the source
  index set: the wait flags of the original are dropped.
\<close>

definition CloneWithSourceIndex :: "RequestOptions \<Rightarrow> int \<Rightarrow> RequestOptions" where
  "CloneWithSourceIndex o1 idx =
     zero_RequestOptions\<lparr>SourceIndex := idx, PeerSet := Some (peers o1)\<rparr>"

text \<open>\<open>SourcePeer\<close> indexes the peer set: None is the panic of an index out of range.\<close>

definition SourcePeer :: "RequestOptions \<Rightarrow> Participant option" where
  "SourcePeer o1 =
     (if 0 \<le> SourceIndex o1 \<and> SourceIndex o1 < int (length (peers o1))
      then Some (peers o1 ! nat (SourceIndex o1)) else None)"

lemma CloneWithSourceIndex_simps [simp]:
  "SourceIndex (CloneWithSourceIndex o1 i) = i"
  "peers (CloneWithSourceIndex o1 i) = peers o1"
  "PeerSet (CloneWithSourceIndex o1 i) = Some (peers o1)"
  "\<not> WaitBallot (CloneWithSourceIndex o1 i)"
  "\<not> WaitApply (CloneWithSourceIndex o1 i)"
  by (simp_all add: CloneWithSourceIndex_def zero_RequestOptions_def)

lemma SourcePeer_nth [simp]:
  "i < length (peers o1) \<Longrightarrow> SourceIndex o1 = int i \<Longrightarrow> SourcePeer o1 = Some (peers o1 ! i)"
  by (simp add: SourcePeer_def)

subsection \<open>Hash functions and the configuration (config.go)\<close>

text \<open>
  \<open>Hasher\<close> makes a fresh \<open>hash.Hash\<close>: \<open>digest\<close> maps all the bytes written to it to
  what \<open>Sum(nil)\<close> appends, and \<open>Size\<close> is the number of bytes it reports.
\<close>

record hash_fn =
  digest :: "byte list \<Rightarrow> byte list"
  Size :: nat

text \<open>What \<open>hash.Hash\<close> documents: \<open>Sum\<close> returns \<open>Size\<close> bytes, at least one.\<close>

definition hash_fn_ok :: "hash_fn \<Rightarrow> bool" where
  "hash_fn_ok h \<longleftrightarrow> 0 < Size h \<and> (\<forall>bs. length (digest h bs) = Size h)"

record 'c Config =
  AdvertiseHost :: string
  HealBufSize :: nat
  BroadcastBufSize :: nat
  BallotReapInterval :: int
  TTL :: int
  Votes :: int
  LamportClock :: 'c
  Hasher :: hash_fn
  hashSize :: nat

text \<open>Durations are in nanoseconds. The default hash function and the zero clock are passed in.\<close>

definition DefaultConfig :: "hash_fn \<Rightarrow> 'c \<Rightarrow> string \<Rightarrow> 'c Config" where
  "DefaultConfig sha1 clock0 advHost =
     \<lparr>AdvertiseHost = advHost, HealBufSize = 32, BroadcastBufSize = 32,
      BallotReapInterval = 30 * 1000000000, TTL = 3 * 1000000000, Votes = 3,
      LamportClock = clock0, Hasher = sha1, hashSize = 0\<rparr>"

subsection \<open>Hexadecimal strings and JSON values\<close>

definition hex_digit :: "nat \<Rightarrow> char" where
  "hex_digit d = ''0123456789abcdef'' ! d"

fun hex_EncodeToString :: "byte list \<Rightarrow> string" where
  "hex_EncodeToString [] = []"
| "hex_EncodeToString (b # bs) =
     hex_digit (unat b div 16) # hex_digit (unat b mod 16) # hex_EncodeToString bs"

text \<open>
  The tree a value has before \<open>json.Marshal\<close> prints it; \<open>[]byte\<close> fields are printed
  in base64, nil as \<open>null\<close>.
\<close>

datatype json =
    JNull
  | JString string
  | JBase64 "byte list"
  | JNumber int
  | JArray "json list"
  | JObject "(string \<times> json) list"

fun json_bytes :: "bytes \<Rightarrow> json" where
  "json_bytes None = JNull"
| "json_bytes (Some bs) = JBase64 bs"

text \<open>\<open>string(b)\<close> as the argument of a printer: the bytes as characters.\<close>

definition string_of_bytes :: "byte list \<Rightarrow> string" where
  "string_of_bytes bs = map (\<lambda>b. char_of (unat b)) bs"

lemma length_hex_EncodeToString: "length (hex_EncodeToString bs) = 2 * length bs"
  by (induction bs) auto

lemma hex_digit_inject: "hex_digit a = hex_digit b \<Longrightarrow> a < 16 \<Longrightarrow> b < 16 \<Longrightarrow> a = b"
proof -
  assume a: "hex_digit a = hex_digit b" "a < 16" "b < 16"
  have "distinct ''0123456789abcdef''" by simp
  then show "a = b"
    using a nth_eq_iff_index_eq [of "''0123456789abcdef''" a b] by (simp add: hex_digit_def)
qed

lemma hex_EncodeToString_inject: "hex_EncodeToString xs = hex_EncodeToString ys \<Longrightarrow> xs = ys"
proof (induction xs arbitrary: ys)
  case Nil
  then show ?case by (cases ys) auto
next
  case (Cons x xs)
  then obtain y ys' where ys: "ys = y # ys'" by (cases ys) auto
  have lt: "unat b div 16 < 16" "unat b mod 16 < 16" for b :: byte
    using unsigned_less [of b, where ?'a = nat] by auto
  from Cons.prems ys have "unat x div 16 = unat y div 16" "unat x mod 16 = unat y mod 16"
    by (auto intro!: hex_digit_inject lt)
  then have "unat x = unat y" by (metis div_mult_mod_eq)
  then show ?case using Cons ys by (simp add: word_unat_eq_iff)
qed

definition Participant_MarshalJSON :: "Participant \<Rightarrow> json" where
  "Participant_MarshalJSON part =
     JObject
      [(''ID'', JString (hex_EncodeToString (els (part_ID part)))),
       (''Host'', JString (Host part)),
       (''Priority'', JNumber (Priority part)),
       (''Index'', JNumber (part_Index part))]"

end
