(* ===== verification/Entry_Hash.thy ===== *)
theory Entry_Hash
  imports Hexa_Types
begin

section \<open>Entries and their hash ids (entry.go)\<close>

text \<open>
  An entry is identified by the hash of its fields. The hash covers the id of the
  previous entry, so the ids of a log form a chain. This theory models \<open>Clone\<close>,
  \<open>MarshalJSON\<close> and \<open>Hash\<close>, the latter as the sequence of its writes to the
  \<open>hash.Hash\<close>, and shows which fields the hashed bytes determine.
\<close>

definition Entry_Clone :: "Entry \<Rightarrow> Entry" where
  "Entry_Clone entry =
     \<lparr>Key = Key entry, Previous = Previous entry, Height = Height entry,
      Timestamp = Timestamp entry, LTime = LTime entry, Data = Data entry\<rparr>"

definition Entry_MarshalJSON :: "Entry \<Rightarrow> json" where
  "Entry_MarshalJSON entry =
     JObject
      [(''Key'', json_bytes (Key entry)),
       (''Previous'', JString (hex_EncodeToString (els (Previous entry)))),
       (''Height'', JNumber (uint (Height entry))),
       (''Timestamp'', JNumber (uint (Timestamp entry))),
       (''LTime'', JNumber (uint (LTime entry))),
       (''Data'', json_bytes (Data entry))]"

text \<open>The writes of \<open>Hash\<close>, in their order, to a hash that has consumed \<open>w\<close>.\<close>

definition Entry_writes :: "byte list \<Rightarrow> Entry \<Rightarrow> byte list" where
  "Entry_writes w entry =
     (let w = w @ els (Previous entry);
          w = w @ big_endian 8 (Timestamp entry);
          w = w @ big_endian 8 (LTime entry);
          w = w @ big_endian 4 (Height entry);
          w = w @ els (Key entry);
          w = w @ els (Data entry)
      in w)"

text \<open>\<open>Sum(nil)\<close> appends the digest to a nil slice, which stays nil when it is empty.\<close>

definition hash_Sum_nil :: "hash_fn \<Rightarrow> byte list \<Rightarrow> bytes" where
  "hash_Sum_nil h w = (if digest h w = [] then None else Some (digest h w))"

text \<open>\<open>entry.Hash(hasher())\<close>: every caller passes a fresh hash.\<close>

definition Entry_Hash :: "hash_fn \<Rightarrow> Entry \<Rightarrow> bytes" where
  "Entry_Hash h entry = hash_Sum_nil h (Entry_writes [] entry)"

subsection \<open>What the hashed bytes determine\<close>

abbreviation preimage :: "Entry \<Rightarrow> byte list" where
  "preimage entry \<equiv> Entry_writes [] entry"

lemma preimage_eq:
  "preimage e = els (Previous e) @ big_endian 8 (Timestamp e) @ big_endian 8 (LTime e)
     @ big_endian 4 (Height e) @ els (Key e) @ els (Data e)"
  by (simp add: Entry_writes_def Let_def)

lemma Entry_writes_append: "Entry_writes w e = w @ preimage e"
  by (simp add: Entry_writes_def Let_def)

lemma els_Entry_Hash: "els (Entry_Hash h e) = digest h (preimage e)"
  by (simp add: Entry_Hash_def hash_Sum_nil_def)

lemma Entry_Hash_not_nil: "hash_fn_ok h \<Longrightarrow> Entry_Hash h e = Some (digest h (preimage e))"
  unfolding Entry_Hash_def hash_Sum_nil_def hash_fn_ok_def by (metis list.size(3) less_irrefl)

lemma Entry_Hash_eq_not_nil: "hash_fn_ok h \<Longrightarrow> Entry_Hash h e = x \<Longrightarrow> x \<noteq> None"
  by (auto simp: Entry_Hash_not_nil)

lemma length_Entry_Hash: "hash_fn_ok h \<Longrightarrow> length (els (Entry_Hash h e)) = Size h"
  by (simp add: els_Entry_Hash hash_fn_ok_def)

lemma Entry_Hash_eq_iff_els:
  "hash_fn_ok h \<Longrightarrow> els (Entry_Hash h e) = els (Entry_Hash h e') \<longleftrightarrow> Entry_Hash h e = Entry_Hash h e'"
  by (simp add: Entry_Hash_not_nil)

text \<open>
  C39: With previous ids of one length, as all digests of one hash function have, two
  entries write the same bytes exactly when they agree on previous id, times, height and
  on the concatenation of key and data. The hashed bytes say where the previous id ends
  and where the integers end, but not where the key ends and the data begins.
\<close>

theorem preimage_determines:
  assumes "length (els (Previous e)) = length (els (Previous e'))"
  shows "preimage e = preimage e' \<longleftrightarrow>
    els (Previous e) = els (Previous e') \<and> Timestamp e = Timestamp e' \<and> LTime e = LTime e' \<and>
    Height e = Height e' \<and> els (Key e) @ els (Data e) = els (Key e') @ els (Data e')"
  using assms
  by (auto simp: preimage_eq dest: big_endian_inject [rotated])

theorem preimage_determines_witness:
  "preimage (zero_Entry\<lparr>Previous := Some [1], Height := 1\<rparr>)
     \<noteq> preimage (zero_Entry\<lparr>Previous := Some [1], Height := 2\<rparr>)"
proof -
  let ?a = "zero_Entry\<lparr>Previous := Some [1], Height := 1\<rparr>"
  let ?b = "zero_Entry\<lparr>Previous := Some [1], Height := 2\<rparr>"
  have "length (els (Previous ?a)) = length (els (Previous ?b))" by simp
  from preimage_determines [OF this] show ?thesis by simp
qed

text \<open>A clone has every field of its entry, and so the same id.\<close>

lemma Entry_Clone_id [simp]: "Entry_Clone e = e"
  by (simp add: Entry_Clone_def)

end
