(* ===== verification/Keylog_Index.thy ===== *)
theory Keylog_Index
  imports Entry_Hash
begin

section \<open>The index of a keylog (ukeylogindex.go)\<close>

text \<open>
  The index of a key is the list of the ids of its entries, oldest first, with the height
  of the log, the Lamport time of its last write and an optional marker, the id of an
  entry the log is known to miss. The operations are methods on a pointer; here each takes
  the index and returns its new value. Locks guard single operations and are not modelled.
\<close>

record UnsafeKeylogIndex =
  idx_Key :: bytes
  idx_Height :: "32 word"
  idx_Marker :: bytes
  idx_LTime :: "64 word"
  idx_Entries :: "bytes list"

definition NewUnsafeKeylogIndex :: "bytes \<Rightarrow> UnsafeKeylogIndex" where
  "NewUnsafeKeylogIndex key =
     \<lparr>idx_Key = key, idx_Height = 0, idx_Marker = None, idx_LTime = 0, idx_Entries = []\<rparr>"

fun isZeroList :: "byte list \<Rightarrow> bool" where
  "isZeroList [] = True"
| "isZeroList (v # vs) = (if v \<noteq> 0 then False else isZeroList vs)"

definition isZeroBytes :: "bytes \<Rightarrow> bool" where
  "isZeroBytes b = isZeroList (els b)"

definition idx_Last :: "UnsafeKeylogIndex \<Rightarrow> bytes" where
  "idx_Last idx =
     (let l = length (idx_Entries idx)
      in if l = 0 then None else idx_Entries idx ! (l - 1))"

fun contains_id :: "bytes list \<Rightarrow> bytes \<Rightarrow> bool" where
  "contains_id [] eid = False"
| "contains_id (ent # ents) eid =
     (if bytes_Compare ent eid = 0 then True else contains_id ents eid)"

definition idx_Contains :: "UnsafeKeylogIndex \<Rightarrow> bytes \<Rightarrow> bool" where
  "idx_Contains idx eid = contains_id (idx_Entries idx) eid"

definition idx_Append ::
  "bytes \<Rightarrow> bytes \<Rightarrow> 64 word \<Rightarrow> UnsafeKeylogIndex \<Rightarrow> error option \<times> UnsafeKeylogIndex" where
  "idx_Append eid prev ltime idx =
     (let last = idx_Last idx
      in if last = None \<and> \<not> isZeroBytes prev then (Some ErrPreviousHash, idx)
         else if last \<noteq> None \<and> bytes_Compare last prev \<noteq> 0 then (Some ErrPreviousHash, idx)
         else
           (let idx = idx\<lparr>idx_Entries := idx_Entries idx @ [eid],
                          idx_Height := idx_Height idx + 1,
                          idx_LTime := ltime\<rparr>
            in (None,
                if idx_Marker idx \<noteq> None \<and> bytes_Compare (idx_Marker idx) eid = 0
                then idx\<lparr>idx_Marker := None\<rparr> else idx)))"

definition idx_SetMarker :: "bytes \<Rightarrow> UnsafeKeylogIndex \<Rightarrow> bool \<times> UnsafeKeylogIndex" where
  "idx_SetMarker marker idx =
     (if \<not> idx_Contains idx marker then (True, idx\<lparr>idx_Marker := marker\<rparr>) else (False, idx))"

definition idx_Rollback :: "64 word \<Rightarrow> UnsafeKeylogIndex \<Rightarrow> (int \<times> bool) \<times> UnsafeKeylogIndex" where
  "idx_Rollback ltime idx =
     (let l = length (idx_Entries idx)
      in if 0 < l then
           (let idx' = idx\<lparr>idx_Entries := take (l - 1) (idx_Entries idx),
                           idx_Height := idx_Height idx - 1\<rparr>
            in ((int (l - 1), True),
                if 0 < ltime \<and> ltime < idx_LTime idx then idx'\<lparr>idx_LTime := ltime\<rparr> else idx'))
         else ((int l, False), idx))"

definition idx_Count :: "UnsafeKeylogIndex \<Rightarrow> int" where
  "idx_Count idx = int (length (idx_Entries idx))"

text \<open>
  \<open>Iter\<close> calls back on every id from the seek position on. The search for the position
  and the list of the ids to visit come first, the loop over them is \<open>for_each\<close>.
\<close>

fun seek_from :: "bytes \<Rightarrow> bytes list \<Rightarrow> bytes list option" where
  "seek_from seek [] = None"
| "seek_from seek (e # es) = (if bytes_Compare seek e = 0 then Some (e # es) else seek_from seek es)"

definition idx_visits :: "bytes \<Rightarrow> UnsafeKeylogIndex \<Rightarrow> error + bytes list" where
  "idx_visits seek idx =
     (if seek \<noteq> None then
        (case seek_from seek (idx_Entries idx) of
           None \<Rightarrow> Inl ErrEntryNotFound
         | Some ids \<Rightarrow> Inr ids)
      else Inr (idx_Entries idx))"

definition idx_Iter ::
  "bytes \<Rightarrow> (bytes \<Rightarrow> 's \<Rightarrow> error option \<times> 's) \<Rightarrow> UnsafeKeylogIndex \<Rightarrow> 's \<Rightarrow> error option \<times> 's" where
  "idx_Iter seek cb idx s =
     (case idx_visits seek idx of
        Inl e \<Rightarrow> (Some e, s)
      | Inr ids \<Rightarrow> for_each cb ids s)"

definition idx_MarshalJSON :: "UnsafeKeylogIndex \<Rightarrow> json" where
  "idx_MarshalJSON idx =
     JObject
      ([(''Key'', JString (string_of_bytes (els (idx_Key idx)))),
        (''Height'', JNumber (uint (idx_Height idx)))]
       @ (let marker = hex_EncodeToString (els (idx_Marker idx))
          in if marker = '''' then [] else [(''Marker'', JString marker)])
       @ [(''LTime'', JNumber (uint (idx_LTime idx))),
          (''Entries'', JArray (map (\<lambda>e. JString (hex_EncodeToString (els e))) (idx_Entries idx)))])"

subsection \<open>Basic facts\<close>

lemma isZeroList_iff: "isZeroList vs \<longleftrightarrow> vs = replicate (length vs) 0"
  by (induction vs) auto

lemma isZeroBytes_make [simp]: "isZeroBytes (make_bytes n)"
  by (induction n) (simp_all add: isZeroBytes_def make_bytes_def)

lemma isZeroBytes_None [simp]: "isZeroBytes None"
  by (simp add: isZeroBytes_def)

lemma idx_Last_conv: "idx_Last idx = (if idx_Entries idx = [] then None else last (idx_Entries idx))"
  by (simp add: idx_Last_def last_conv_nth)

lemma contains_id_iff: "contains_id ents eid \<longleftrightarrow> (\<exists>ent\<in>set ents. els ent = els eid)"
  by (induction ents) auto

lemma idx_Contains_iff: "idx_Contains idx eid \<longleftrightarrow> els eid \<in> els ` set (idx_Entries idx)"
  by (auto simp: idx_Contains_def contains_id_iff image_iff eq_commute)

lemma New_simps [simp]:
  "idx_Key (NewUnsafeKeylogIndex k) = k" "idx_Height (NewUnsafeKeylogIndex k) = 0"
  "idx_Marker (NewUnsafeKeylogIndex k) = None" "idx_LTime (NewUnsafeKeylogIndex k) = 0"
  "idx_Entries (NewUnsafeKeylogIndex k) = []"
  by (simp_all add: NewUnsafeKeylogIndex_def)

text \<open>When an id may follow the ids of a log: the test both append and verification make.\<close>

definition follows :: "bytes \<Rightarrow> UnsafeKeylogIndex \<Rightarrow> bool" where
  "follows prev idx \<longleftrightarrow>
     (if idx_Last idx = None then isZeroBytes prev else els (idx_Last idx) = els prev)"

lemma idx_Append_cases:
  "idx_Append eid prev ltime idx =
     (if follows prev idx
      then (None, idx\<lparr>idx_Entries := idx_Entries idx @ [eid], idx_Height := idx_Height idx + 1,
              idx_LTime := ltime,
              idx_Marker := if els (idx_Marker idx) = els eid then None else idx_Marker idx\<rparr>)
      else (Some ErrPreviousHash, idx))"
  by (cases "idx_Marker idx") (auto simp: idx_Append_def follows_def Let_def)

lemma idx_Append_ok_iff: "fst (idx_Append eid prev ltime idx) = None \<longleftrightarrow> follows prev idx"
  by (simp add: idx_Append_cases)

lemma idx_Append_key [simp]: "idx_Key (snd (idx_Append eid prev ltime idx)) = idx_Key idx"
  by (simp add: idx_Append_cases)

lemma idx_Rollback_cases:
  "idx_Rollback ltime idx =
     (if idx_Entries idx = [] then ((0, False), idx)
      else ((idx_Count idx - 1, True),
            idx\<lparr>idx_Entries := butlast (idx_Entries idx), idx_Height := idx_Height idx - 1,
                idx_LTime := if 0 < ltime \<and> ltime < idx_LTime idx then ltime else idx_LTime idx\<rparr>))"
  by (auto simp: idx_Rollback_def Let_def idx_Count_def butlast_conv_take of_nat_diff Suc_leI)

lemma idx_Rollback_key [simp]: "idx_Key (snd (idx_Rollback ltime idx)) = idx_Key idx"
  by (simp add: idx_Rollback_cases)

lemma idx_SetMarker_key [simp]: "idx_Key (snd (idx_SetMarker m idx)) = idx_Key idx"
  by (simp add: idx_SetMarker_def)

subsection \<open>The invariant of an index\<close>

text \<open>
  The height, a 32-bit counter, is the number of ids modulo \<open>2^32\<close>, and a marker is
  never one of the ids. Every operation keeps this, from either constructor.
\<close>

definition idx_ok :: "UnsafeKeylogIndex \<Rightarrow> bool" where
  "idx_ok idx \<longleftrightarrow> idx_Height idx = of_nat (length (idx_Entries idx)) \<and>
     (idx_Marker idx \<noteq> None \<longrightarrow> \<not> idx_Contains idx (idx_Marker idx))"

lemma idx_ok_New [simp]: "idx_ok (NewUnsafeKeylogIndex key)"
  by (simp add: idx_ok_def)

lemma idx_ok_New_marker [simp]: "idx_ok (NewUnsafeKeylogIndex key\<lparr>idx_Marker := marker\<rparr>)"
  by (simp add: idx_ok_def idx_Contains_iff)

lemma idx_ok_Append [simp]: "idx_ok idx \<Longrightarrow> idx_ok (snd (idx_Append eid prev ltime idx))"
  by (auto simp: idx_ok_def idx_Append_cases idx_Contains_iff)

lemma idx_ok_Rollback [simp]: "idx_ok idx \<Longrightarrow> idx_ok (snd (idx_Rollback ltime idx))"
  by (cases "idx_Entries idx" rule: rev_cases)
    (auto simp: idx_ok_def idx_Rollback_cases idx_Contains_iff)

lemma idx_ok_SetMarker [simp]: "idx_ok idx \<Longrightarrow> idx_ok (snd (idx_SetMarker marker idx))"
  by (auto simp: idx_ok_def idx_SetMarker_def idx_Contains_iff)

datatype idx_op = OpAppend bytes bytes "64 word" | OpRollback "64 word" | OpSetMarker bytes

fun idx_apply :: "idx_op \<Rightarrow> UnsafeKeylogIndex \<Rightarrow> UnsafeKeylogIndex" where
  "idx_apply (OpAppend eid prev ltime) idx = snd (idx_Append eid prev ltime idx)"
| "idx_apply (OpRollback ltime) idx = snd (idx_Rollback ltime idx)"
| "idx_apply (OpSetMarker marker) idx = snd (idx_SetMarker marker idx)"

definition idx_run :: "bytes \<Rightarrow> bytes \<Rightarrow> idx_op list \<Rightarrow> UnsafeKeylogIndex" where
  "idx_run key marker ops = fold idx_apply ops (NewUnsafeKeylogIndex key\<lparr>idx_Marker := marker\<rparr>)"

lemma idx_ok_apply: "idx_ok idx \<Longrightarrow> idx_ok (idx_apply op1 idx)"
  by (cases op1) simp_all

lemma idx_ok_run: "idx_ok (idx_run key marker ops)"
proof -
  have "idx_ok (fold idx_apply ops i)" if "idx_ok i" for i
    using that by (induction ops arbitrary: i) (simp_all add: idx_ok_apply)
  then show ?thesis by (simp add: idx_run_def)
qed

text \<open>
  C38: After any sequence of appends, rollbacks and marker changes on a new index, whether
  they succeed or not, the height is the number of entries modulo \<open>2^32\<close> and the marker,
  when set, is the id of an entry the index does not have.
\<close>

theorem index_height_and_marker:
  "unat (idx_Height (idx_run key marker ops)) = length (idx_Entries (idx_run key marker ops)) mod 2 ^ 32 \<and>
   (idx_Marker (idx_run key marker ops) = None \<or>
    idx_Contains (idx_run key marker ops) (idx_Marker (idx_run key marker ops)) = False)"
  using idx_ok_run [of key marker ops] by (auto simp: idx_ok_def unat_of_nat)

text \<open>
  Appending an id to an index and rolling it back with the Lamport time of the entry
  before it gives the ids and the height back. The Lamport time too, when it was that
  time and lower than the appended entry's; a marker for the appended id stays removed.
\<close>

theorem index_append_rollback:
  assumes "idx_Append eid prev ltime idx = (None, idx')"
  shows "idx_Rollback old idx' =
    ((idx_Count idx, True),
     idx\<lparr>idx_LTime := if 0 < old \<and> old < ltime then old else ltime,
         idx_Marker := if els (idx_Marker idx) = els eid then None else idx_Marker idx\<rparr>)"
  using assms
  by (auto simp: idx_Append_cases idx_Rollback_cases idx_Count_def split: if_splits)

theorem index_append_rollback_witness:
  "snd (idx_Rollback 3 (snd (idx_Append (Some [7]) (make_bytes 4) 9 (NewUnsafeKeylogIndex (Some [1])))))
     = NewUnsafeKeylogIndex (Some [1])\<lparr>idx_LTime := 3\<rparr>"
proof -
  let ?i = "NewUnsafeKeylogIndex (Some [1])"
  have "idx_Append (Some [7]) (make_bytes 4) 9 ?i
      = (None, snd (idx_Append (Some [7]) (make_bytes 4) 9 ?i))"
    by (simp add: idx_Append_cases follows_def idx_Last_conv)
  from index_append_rollback [OF this, of 3] show ?thesis by simp
qed

subsection \<open>Iteration\<close>

lemma seek_from_eq_None_iff: "seek_from seek es = None \<longleftrightarrow> els seek \<notin> els ` set es"
  by (induction es) auto

lemma seek_from_eq_dropWhile:
  "els seek \<in> els ` set es \<Longrightarrow> seek_from seek es = Some (dropWhile (\<lambda>e. els e \<noteq> els seek) es)"
  by (induction es) auto

lemma idx_visits_Nil [simp]: "idx_visits None idx = Inr (idx_Entries idx)"
  by (simp add: idx_visits_def)

text \<open>
  Iterating calls back on the ids from the first occurrence of the seek id on, the seek
  id included, oldest first; on every id when seek is nil; and on none, with
  \<open>ErrEntryNotFound\<close>, when the index does not have the seek id.
\<close>

theorem index_iter_visits:
  "idx_Iter seek cb idx s =
    (if seek = None then for_each cb (idx_Entries idx) s
     else if idx_Contains idx seek
     then for_each cb (dropWhile (\<lambda>e. els e \<noteq> els seek) (idx_Entries idx)) s
     else (Some ErrEntryNotFound, s))"
proof (cases "els seek \<in> els ` set (idx_Entries idx)")
  case True
  then show ?thesis
    by (simp add: idx_Iter_def idx_visits_def seek_from_eq_dropWhile idx_Contains_iff)
next
  case False
  then have "seek_from seek (idx_Entries idx) = None" by (simp add: seek_from_eq_None_iff)
  with False show ?thesis by (simp add: idx_Iter_def idx_visits_def idx_Contains_iff)
qed

end
