(* ===== verification/Store_Interfaces.thy ===== *)
theory Store_Interfaces
  imports Keylog_Index
begin

section \<open>The interfaces of the stores (store.go, keylogindex.go, fsm.go)\<close>

text \<open>
  A value of an interface type of Go is a table of methods. Each interface is a record of
  operations on a store state, and the clients, keylogs and the log store, take the table
  as an argument. What the clients rely on is stated beside it as a locale: the abstract
  contents of a store and the effect each operation has on them. The providers of
  \<open>In_Memory_Stores\<close> interpret the locales.
\<close>

subsection \<open>Tables of methods\<close>

record 'e EntryStore =
  ES_Get :: "bytes \<Rightarrow> 'e \<Rightarrow> error + Entry"
  ES_Set :: "bytes \<Rightarrow> Entry \<Rightarrow> 'e \<Rightarrow> error option \<times> 'e"
  ES_Delete :: "bytes \<Rightarrow> 'e \<Rightarrow> error option \<times> 'e"
  ES_Count :: "'e \<Rightarrow> int"

text \<open>
  The methods of a keylog index take the reference of the index in its store. \<open>KI_visits\<close>
  is what \<open>Iter\<close> calls back on, \<open>KI_Index\<close> the copy \<open>Index\<close> returns.
\<close>

record ('i, 'h) KeylogIndex =
  KI_Key :: "'h \<Rightarrow> 'i \<Rightarrow> bytes"
  KI_SetMarker :: "'h \<Rightarrow> bytes \<Rightarrow> 'i \<Rightarrow> (bool \<times> error option) \<times> 'i"
  KI_Marker :: "'h \<Rightarrow> 'i \<Rightarrow> bytes"
  KI_Append :: "'h \<Rightarrow> bytes \<Rightarrow> bytes \<Rightarrow> 64 word \<Rightarrow> 'i \<Rightarrow> error option \<times> 'i"
  KI_Rollback :: "'h \<Rightarrow> 64 word \<Rightarrow> 'i \<Rightarrow> (int \<times> bool) \<times> 'i"
  KI_Last :: "'h \<Rightarrow> 'i \<Rightarrow> bytes"
  KI_Contains :: "'h \<Rightarrow> bytes \<Rightarrow> 'i \<Rightarrow> bool"
  KI_visits :: "'h \<Rightarrow> bytes \<Rightarrow> 'i \<Rightarrow> error + bytes list"
  KI_Count :: "'h \<Rightarrow> 'i \<Rightarrow> int"
  KI_Height :: "'h \<Rightarrow> 'i \<Rightarrow> 32 word"
  KI_Index :: "'h \<Rightarrow> 'i \<Rightarrow> UnsafeKeylogIndex"
  KI_Close :: "'h \<Rightarrow> 'i \<Rightarrow> error option \<times> 'i"

record ('i, 'h) IndexStore =
  IS_NewKey :: "bytes \<Rightarrow> 'i \<Rightarrow> (error + 'h) \<times> 'i"
  IS_GetKey :: "bytes \<Rightarrow> 'i \<Rightarrow> error + 'h"
  IS_MarkKey :: "bytes \<Rightarrow> bytes \<Rightarrow> 'i \<Rightarrow> (error + 'h) \<times> 'i"
  IS_RemoveKey :: "bytes \<Rightarrow> 'i \<Rightarrow> error option \<times> 'i"
  IS_visits :: "'i \<Rightarrow> (bytes \<times> 'h) list"
  IS_Count :: "'i \<Rightarrow> int"

record 's StableStore =
  SS_Open :: "'s \<Rightarrow> error option \<times> 's"
  SS_Get :: "bytes \<Rightarrow> 's \<Rightarrow> error + bytes"
  SS_Set :: "bytes \<Rightarrow> bytes \<Rightarrow> ('s, error option) call"

subsection \<open>What the interfaces promise\<close>

locale entry_store =
  fixes ES :: "'e EntryStore"
    and contents :: "'e \<Rightarrow> byte list \<rightharpoonup> Entry"
    and es_ok :: "'e \<Rightarrow> bool"
  assumes Get: "es_ok e \<Longrightarrow> ES_Get ES eid e =
      (case contents e (els eid) of None \<Rightarrow> Inl ErrEntryNotFound | Some v \<Rightarrow> Inr v)"
    and Set_err: "es_ok e \<Longrightarrow> fst (ES_Set ES eid v e) = None"
    and Set_contents: "es_ok e \<Longrightarrow> contents (snd (ES_Set ES eid v e)) = (contents e)(els eid \<mapsto> v)"
    and Set_ok: "es_ok e \<Longrightarrow> es_ok (snd (ES_Set ES eid v e))"
    and Delete_err: "es_ok e \<Longrightarrow> fst (ES_Delete ES eid e) =
      (if contents e (els eid) = None then Some ErrEntryNotFound else None)"
    and Delete_contents: "es_ok e \<Longrightarrow>
      contents (snd (ES_Delete ES eid e)) = (contents e)(els eid := None)"
    and Delete_ok: "es_ok e \<Longrightarrow> es_ok (snd (ES_Delete ES eid e))"
    and Count: "es_ok e \<Longrightarrow> ES_Count ES e = int (card (dom (contents e)))"
begin

lemmas es_laws = Get Set_err Set_contents Set_ok Delete_err Delete_contents Delete_ok

lemma Get_Set: "es_ok e \<Longrightarrow> ES_Get ES eid (snd (ES_Set ES eid v e)) = Inr v"
  by (simp add: es_laws)

lemma Get_Delete: "es_ok e \<Longrightarrow> ES_Get ES eid (snd (ES_Delete ES eid e)) = Inl ErrEntryNotFound"
  by (simp add: es_laws)

lemma Get_Set_other:
  "es_ok e \<Longrightarrow> els eid \<noteq> els eid' \<Longrightarrow> ES_Get ES eid (snd (ES_Set ES eid' v e)) = ES_Get ES eid e"
  by (simp add: es_laws)

lemma Set_Delete_other:
  "es_ok e \<Longrightarrow> els eid \<noteq> els eid' \<Longrightarrow> ES_Get ES eid (snd (ES_Delete ES eid' e)) = ES_Get ES eid e"
  by (simp add: es_laws)

end

text \<open>The abstract view of an index store: the index of each key.\<close>

definition index_view ::
  "('i \<Rightarrow> byte list \<rightharpoonup> 'h) \<Rightarrow> ('i \<Rightarrow> 'h \<Rightarrow> UnsafeKeylogIndex) \<Rightarrow> 'i \<Rightarrow> byte list \<rightharpoonup> UnsafeKeylogIndex" where
  "index_view lookup deref i = (\<lambda>k. map_option (deref i) (lookup i k))"

lemma index_view_Some [simp]: "lookup i k = Some h \<Longrightarrow> index_view lookup deref i k = Some (deref i h)"
  by (simp add: index_view_def)

lemma index_view_NoneI [simp]: "lookup i k = None \<Longrightarrow> index_view lookup deref i k = None"
  by (simp add: index_view_def)

lemma index_view_None [simp]: "index_view lookup deref i k = None \<longleftrightarrow> lookup i k = None"
  by (simp add: index_view_def)

text \<open>
  An index store maps keys to references. A reference taken from the store stays valid
  when its key is removed, and what is written through it is seen by every holder. The
  laws speak of \<open>lookup\<close>, the references of the keys, \<open>deref\<close>, the index at a
  reference, and \<open>live\<close>, the references made so far.
\<close>

locale index_store =
  fixes IS :: "('i, 'h) IndexStore"
    and KI :: "('i, 'h) KeylogIndex"
    and lookup :: "'i \<Rightarrow> byte list \<rightharpoonup> 'h"
    and deref :: "'i \<Rightarrow> 'h \<Rightarrow> UnsafeKeylogIndex"
    and live :: "'i \<Rightarrow> 'h set"
    and is_ok :: "'i \<Rightarrow> bool"
  assumes lookup_live: "is_ok i \<Longrightarrow> lookup i k = Some h \<Longrightarrow> h \<in> live i"
    and lookup_inj: "is_ok i \<Longrightarrow> lookup i k = Some h \<Longrightarrow> lookup i k' = Some h \<Longrightarrow> k = k'"
    and GetKey: "is_ok i \<Longrightarrow> IS_GetKey IS key i =
      (case lookup i (els key) of None \<Rightarrow> Inl ErrKeyNotFound | Some h \<Rightarrow> Inr h)"
    and NewKey_exists: "is_ok i \<Longrightarrow> lookup i (els key) \<noteq> None \<Longrightarrow>
      IS_NewKey IS key i = (Inl ErrKeyExists, i)"
    and NewKey_new: "is_ok i \<Longrightarrow> lookup i (els key) = None \<Longrightarrow>
      \<exists>h i'. IS_NewKey IS key i = (Inr h, i') \<and> is_ok i' \<and> h \<notin> live i \<and> live i' = insert h (live i) \<and>
        lookup i' = (lookup i)(els key \<mapsto> h) \<and> deref i' = (deref i)(h := NewUnsafeKeylogIndex key)"
    and MarkKey_exists: "is_ok i \<Longrightarrow> lookup i (els key) = Some h \<Longrightarrow>
      IS_MarkKey IS key marker i = (Inr h, snd (KI_SetMarker KI h marker i))"
    and MarkKey_new: "is_ok i \<Longrightarrow> lookup i (els key) = None \<Longrightarrow>
      \<exists>h i'. IS_MarkKey IS key marker i = (Inr h, i') \<and> is_ok i' \<and> h \<notin> live i \<and>
        live i' = insert h (live i) \<and> lookup i' = (lookup i)(els key \<mapsto> h) \<and>
        deref i' = (deref i)(h := NewUnsafeKeylogIndex key\<lparr>idx_Marker := marker\<rparr>)"
    and RemoveKey_err: "is_ok i \<Longrightarrow> fst (IS_RemoveKey IS key i) =
      (if lookup i (els key) = None then Some ErrKeyNotFound else None)"
    and RemoveKey_frame: "is_ok i \<Longrightarrow> lookup (snd (IS_RemoveKey IS key i)) = (lookup i)(els key := None) \<and>
      deref (snd (IS_RemoveKey IS key i)) = deref i \<and> live (snd (IS_RemoveKey IS key i)) = live i \<and>
      is_ok (snd (IS_RemoveKey IS key i))"
    and visits_keys: "is_ok i \<Longrightarrow> sorted (map (els \<circ> fst) (IS_visits IS i)) \<and>
      distinct (map (els \<circ> fst) (IS_visits IS i)) \<and>
      (\<forall>k h. (\<exists>key. els key = k \<and> (key, h) \<in> set (IS_visits IS i)) \<longleftrightarrow> lookup i k = Some h)"
    and IS_Count: "is_ok i \<Longrightarrow> IS_Count IS i = int (card (dom (lookup i)))"
    and Append_res: "is_ok i \<Longrightarrow> h \<in> live i \<Longrightarrow>
      fst (KI_Append KI h eid prev lt i) = fst (idx_Append eid prev lt (deref i h))"
    and Append_frame: "is_ok i \<Longrightarrow> h \<in> live i \<Longrightarrow>
      lookup (snd (KI_Append KI h eid prev lt i)) = lookup i \<and>
      live (snd (KI_Append KI h eid prev lt i)) = live i \<and> is_ok (snd (KI_Append KI h eid prev lt i)) \<and>
      deref (snd (KI_Append KI h eid prev lt i))
        = (deref i)(h := snd (idx_Append eid prev lt (deref i h)))"
    and Rollback_res: "is_ok i \<Longrightarrow> h \<in> live i \<Longrightarrow>
      fst (KI_Rollback KI h lt i) = fst (idx_Rollback lt (deref i h))"
    and Rollback_frame: "is_ok i \<Longrightarrow> h \<in> live i \<Longrightarrow>
      lookup (snd (KI_Rollback KI h lt i)) = lookup i \<and> live (snd (KI_Rollback KI h lt i)) = live i \<and>
      is_ok (snd (KI_Rollback KI h lt i)) \<and>
      deref (snd (KI_Rollback KI h lt i)) = (deref i)(h := snd (idx_Rollback lt (deref i h)))"
    and SetMarker_res: "is_ok i \<Longrightarrow> h \<in> live i \<Longrightarrow>
      fst (KI_SetMarker KI h m i) = (fst (idx_SetMarker m (deref i h)), None)"
    and SetMarker_frame: "is_ok i \<Longrightarrow> h \<in> live i \<Longrightarrow>
      lookup (snd (KI_SetMarker KI h m i)) = lookup i \<and> live (snd (KI_SetMarker KI h m i)) = live i \<and>
      is_ok (snd (KI_SetMarker KI h m i)) \<and>
      deref (snd (KI_SetMarker KI h m i)) = (deref i)(h := snd (idx_SetMarker m (deref i h)))"
    and KI_reads: "is_ok i \<Longrightarrow> h \<in> live i \<Longrightarrow>
      KI_Key KI h i = idx_Key (deref i h) \<and> KI_Marker KI h i = idx_Marker (deref i h) \<and>
      KI_Last KI h i = idx_Last (deref i h) \<and> KI_Contains KI h eid i = idx_Contains (deref i h) eid \<and>
      KI_visits KI h seek i = idx_visits seek (deref i h) \<and> KI_Count KI h i = idx_Count (deref i h) \<and>
      KI_Height KI h i = idx_Height (deref i h) \<and> KI_Index KI h i = deref i h"
    and Close: "is_ok i \<Longrightarrow> h \<in> live i \<Longrightarrow> KI_Close KI h i = (None, i)"
begin

abbreviation view :: "'i \<Rightarrow> byte list \<rightharpoonup> UnsafeKeylogIndex" where
  "view \<equiv> index_view lookup deref"

text \<open>
  Writing through the reference of a key changes the view at that key only: no two keys
  share an index.
\<close>

lemma view_upd_deref:
  assumes "is_ok i" and "lookup i k = Some h" and "lookup i' = lookup i"
    and "deref i' = (deref i)(h := x)"
  shows "view i' = (view i)(k \<mapsto> x)"
proof
  fix k'
  show "view i' k' = ((view i)(k \<mapsto> x)) k'"
    using assms by (cases "lookup i k'") (auto simp: index_view_def dest: lookup_inj)
qed

lemma view_Append:
  assumes "is_ok i" and "lookup i k = Some h"
  shows "view (snd (KI_Append KI h eid prev lt i)) =
    (view i)(k \<mapsto> snd (idx_Append eid prev lt (deref i h)))"
proof -
  have "h \<in> live i" using assms by (rule lookup_live)
  with assms Append_frame [of i h eid prev lt] show ?thesis by (intro view_upd_deref) auto
qed

lemma view_Rollback:
  assumes "is_ok i" and "lookup i k = Some h"
  shows "view (snd (KI_Rollback KI h lt i)) = (view i)(k \<mapsto> snd (idx_Rollback lt (deref i h)))"
proof -
  have "h \<in> live i" using assms by (rule lookup_live)
  with assms Rollback_frame [of i h lt] show ?thesis by (intro view_upd_deref) auto
qed

lemma view_SetMarker:
  assumes "is_ok i" and "lookup i k = Some h"
  shows "view (snd (KI_SetMarker KI h m i)) = (view i)(k \<mapsto> snd (idx_SetMarker m (deref i h)))"
proof -
  have "h \<in> live i" using assms by (rule lookup_live)
  with assms SetMarker_frame [of i h m] show ?thesis by (intro view_upd_deref) auto
qed

text \<open>A key that gets an index of its own, behind a reference not in use.\<close>

lemma view_add:
  assumes "is_ok i" and "h \<notin> live i" and "lookup i' = (lookup i)(k \<mapsto> h)" and "deref i' = (deref i)(h := x)"
  shows "view i' = (view i)(k \<mapsto> x)"
proof
  fix k'
  show "view i' k' = ((view i)(k \<mapsto> x)) k'"
    using assms lookup_live [OF assms(1), of k'] by (cases "lookup i k'") (auto simp: index_view_def)
qed

lemma view_NewKey:
  assumes "is_ok i" and "lookup i (els key) = None"
  shows "view (snd (IS_NewKey IS key i)) = (view i)(els key \<mapsto> NewUnsafeKeylogIndex key)"
proof -
  from NewKey_new [OF assms] obtain h i' where "IS_NewKey IS key i = (Inr h, i')" "h \<notin> live i"
    "lookup i' = (lookup i)(els key \<mapsto> h)" "deref i' = (deref i)(h := NewUnsafeKeylogIndex key)" by blast
  with view_add [OF assms(1)] show ?thesis by simp
qed

lemma view_RemoveKey:
  "is_ok i \<Longrightarrow> view (snd (IS_RemoveKey IS key i)) = (view i)(els key := None)"
  using RemoveKey_frame [of i key] unfolding index_view_def by fastforce

lemma GetKey_eq_Inr_iff: "is_ok i \<Longrightarrow> IS_GetKey IS key i = Inr h \<longleftrightarrow> lookup i (els key) = Some h"
  by (auto simp: GetKey split: option.split)

lemma ok_NewKey: "is_ok i \<Longrightarrow> is_ok (snd (IS_NewKey IS key i))"
  using NewKey_exists [of i key] NewKey_new [of i key]
  by (cases "lookup i (els key)") auto

end

locale stable_store =
  fixes SS :: "'s StableStore"
    and applied_ids :: "'s \<Rightarrow> byte list \<rightharpoonup> bytes"
    and ss_ok :: "'s \<Rightarrow> bool"
  assumes Open: "\<exists>s'. SS_Open SS s = (None, s') \<and> ss_ok s'"
    and SS_Get: "ss_ok s \<Longrightarrow> SS_Get SS key s =
      (case applied_ids s (els key) of None \<Rightarrow> Inl ErrKeyNotFound | Some v \<Rightarrow> Inr v)"
    and SS_Set: "ss_ok s \<Longrightarrow> \<exists>s'. SS_Set SS key v s = Ret None s' \<and> ss_ok s' \<and>
      applied_ids s' = (applied_ids s)(els key \<mapsto> v)"
begin

lemma SS_Get_Set: "ss_ok s \<Longrightarrow> SS_Set SS key v s = Ret r s' \<Longrightarrow> SS_Get SS key s' = Inr v"
  using SS_Set [of s key v] by (auto simp: SS_Get)

end

end
