(* ===== verification/In_Memory_Stores.thy ===== *)
theory In_Memory_Stores
  imports Store_Interfaces
begin

section \<open>The in-memory stores (store\_entry.go, store\_index.go, store\_stable.go)\<close>

text \<open>
  The three stores hexalog ships, and their interpretations of the interfaces. A store
  keeps a Go map. The index store maps keys to pointers of \<open>SafeKeylogIndex\<close> objects, so
  it comes with the objects it has made: \<open>is_heap\<close> gives the index at each address below
  \<open>is_next\<close>. The mutexes make each operation atomic and are not modelled; \<open>MarkKey\<close>,
  which locks twice, also exists as its two steps.
\<close>

subsection \<open>Entries\<close>

text \<open>
  The map holds pointers to entries. No code writes to an entry once it was stored, so
  entries are values here.
\<close>

record InMemEntryStore =
  es_m :: "(byte list, Entry) gomap"

definition NewInMemEntryStore :: InMemEntryStore where
  "NewInMemEntryStore = \<lparr>es_m = []\<rparr>"

definition InMemEntryStore_Get :: "bytes \<Rightarrow> InMemEntryStore \<Rightarrow> error + Entry" where
  "InMemEntryStore_Get eid store =
     (case map_of (es_m store) (els eid) of
        Some v \<Rightarrow> Inr v
      | None \<Rightarrow> Inl ErrEntryNotFound)"

definition InMemEntryStore_Set ::
  "bytes \<Rightarrow> Entry \<Rightarrow> InMemEntryStore \<Rightarrow> error option \<times> InMemEntryStore" where
  "InMemEntryStore_Set eid entry store =
     (None, store\<lparr>es_m := AList.update (els eid) entry (es_m store)\<rparr>)"

definition InMemEntryStore_Delete ::
  "bytes \<Rightarrow> InMemEntryStore \<Rightarrow> error option \<times> InMemEntryStore" where
  "InMemEntryStore_Delete eid store =
     (let sid = els eid
      in case map_of (es_m store) sid of
           Some _ \<Rightarrow> (None, store\<lparr>es_m := AList.delete sid (es_m store)\<rparr>)
         | None \<Rightarrow> (Some ErrEntryNotFound, store))"

definition InMemEntryStore_Count :: "InMemEntryStore \<Rightarrow> int" where
  "InMemEntryStore_Count store = int (length (es_m store))"

definition mem_entries :: "InMemEntryStore EntryStore" where
  "mem_entries = \<lparr>ES_Get = InMemEntryStore_Get, ES_Set = InMemEntryStore_Set,
     ES_Delete = InMemEntryStore_Delete, ES_Count = InMemEntryStore_Count\<rparr>"

abbreviation mem_contents :: "InMemEntryStore \<Rightarrow> byte list \<rightharpoonup> Entry" where
  "mem_contents e \<equiv> map_of (es_m e)"

definition mem_es_ok :: "InMemEntryStore \<Rightarrow> bool" where
  "mem_es_ok e \<longleftrightarrow> map_ok (es_m e)"

lemmas mem_entries_defs = mem_entries_def mem_es_ok_def InMemEntryStore_Get_def
  InMemEntryStore_Set_def InMemEntryStore_Delete_def InMemEntryStore_Count_def

lemma mem_es_ok_New [simp]: "mem_es_ok NewInMemEntryStore"
  by (simp add: mem_es_ok_def NewInMemEntryStore_def)

interpretation mem_es: entry_store mem_entries mem_contents mem_es_ok
  by unfold_locales
    (auto simp: mem_entries_defs Let_def length_map_ok fun_upd_idem split: option.splits)

text \<open>
  The in-memory entry store behaves as a map from ids to entries: after any store of an
  entry the id reads back that entry, after a deletion it reads \<open>ErrEntryNotFound\<close>, and
  other ids read what they read before. Ids with the same bytes are the same id.
\<close>

theorem entry_store_set_get_delete:
  assumes "mem_es_ok e"
  shows "InMemEntryStore_Get i (snd (InMemEntryStore_Set j v e)) =
      (if els i = els j then Inr v else InMemEntryStore_Get i e) \<and>
    InMemEntryStore_Get i (snd (InMemEntryStore_Delete j e)) =
      (if els i = els j then Inl ErrEntryNotFound else InMemEntryStore_Get i e) \<and>
    InMemEntryStore_Count e = int (card {eid. \<exists>v. InMemEntryStore_Get (Some eid) e = Inr v})"
proof -
  have ops: "ES_Get mem_entries = InMemEntryStore_Get" "ES_Set mem_entries = InMemEntryStore_Set"
    "ES_Delete mem_entries = InMemEntryStore_Delete" "ES_Count mem_entries = InMemEntryStore_Count"
    by (simp_all add: mem_entries_def)
  have "{eid. \<exists>v. InMemEntryStore_Get (Some eid) e = Inr v} = dom (mem_contents e)"
    by (auto simp: InMemEntryStore_Get_def split: option.splits)
  then show ?thesis
    using mem_es.Count [OF assms] mem_es.Get_Set [OF assms] mem_es.Get_Delete [OF assms]
      mem_es.Get_Set_other [OF assms] mem_es.Set_Delete_other [OF assms]
    by (auto simp: ops InMemEntryStore_Set_def InMemEntryStore_Delete_def InMemEntryStore_Get_def)
qed

theorem entry_store_set_get_delete_witness:
  "InMemEntryStore_Get (Some [1]) (snd (InMemEntryStore_Set (Some [1]) zero_Entry NewInMemEntryStore))
     = Inr zero_Entry"
  using entry_store_set_get_delete [OF mem_es_ok_New, of "Some [1]" "Some [1]" zero_Entry] by simp

subsection \<open>Keylog indexes\<close>

record InMemIndexStore =
  is_m :: "(byte list, nat) gomap"
  is_heap :: "nat \<Rightarrow> UnsafeKeylogIndex"
  is_next :: nat

definition NewInMemIndexStore :: InMemIndexStore where
  "NewInMemIndexStore = \<lparr>is_m = [], is_heap = (\<lambda>_. NewUnsafeKeylogIndex None), is_next = 0\<rparr>"

text \<open>\<open>NewSafeKeylogIndex\<close> allocates an index with the given marker.\<close>

definition NewSafeKeylogIndex :: "bytes \<Rightarrow> bytes \<Rightarrow> InMemIndexStore \<Rightarrow> nat \<times> InMemIndexStore" where
  "NewSafeKeylogIndex key marker store =
     (is_next store,
      store\<lparr>is_heap := (is_heap store)
              (is_next store := NewUnsafeKeylogIndex key\<lparr>idx_Marker := marker\<rparr>),
            is_next := Suc (is_next store)\<rparr>)"

definition InMemIndexStore_NewKey ::
  "bytes \<Rightarrow> InMemIndexStore \<Rightarrow> (error + nat) \<times> InMemIndexStore" where
  "InMemIndexStore_NewKey key store =
     (let k = els key
      in case map_of (is_m store) k of
           Some _ \<Rightarrow> (Inl ErrKeyExists, store)
         | None \<Rightarrow>
             (case NewSafeKeylogIndex key None store of
                (kli, store) \<Rightarrow> (Inr kli, store\<lparr>is_m := AList.update k kli (is_m store)\<rparr>)))"

definition InMemIndexStore_GetKey :: "bytes \<Rightarrow> InMemIndexStore \<Rightarrow> error + nat" where
  "InMemIndexStore_GetKey key store =
     (case map_of (is_m store) (els key) of
        Some v \<Rightarrow> Inr v
      | None \<Rightarrow> Inl ErrKeyNotFound)"

text \<open>A method of \<open>SafeKeylogIndex\<close>: the operation on the index behind the pointer.\<close>

definition SafeKeylogIndex_method ::
  "nat \<Rightarrow> (UnsafeKeylogIndex \<Rightarrow> 'a \<times> UnsafeKeylogIndex) \<Rightarrow> InMemIndexStore \<Rightarrow> 'a \<times> InMemIndexStore" where
  "SafeKeylogIndex_method h m store =
     (case m (is_heap store h) of
        (a, idx) \<Rightarrow> (a, store\<lparr>is_heap := (is_heap store)(h := idx)\<rparr>))"

definition SafeKeylogIndex_SetMarker ::
  "nat \<Rightarrow> bytes \<Rightarrow> InMemIndexStore \<Rightarrow> (bool \<times> error option) \<times> InMemIndexStore" where
  "SafeKeylogIndex_SetMarker h marker store =
     (case SafeKeylogIndex_method h (idx_SetMarker marker) store of (b, store) \<Rightarrow> ((b, None), store))"

definition SafeKeylogIndex_Append ::
  "nat \<Rightarrow> bytes \<Rightarrow> bytes \<Rightarrow> 64 word \<Rightarrow> InMemIndexStore \<Rightarrow> error option \<times> InMemIndexStore" where
  "SafeKeylogIndex_Append h eid prev ltime = SafeKeylogIndex_method h (idx_Append eid prev ltime)"

definition SafeKeylogIndex_Rollback ::
  "nat \<Rightarrow> 64 word \<Rightarrow> InMemIndexStore \<Rightarrow> (int \<times> bool) \<times> InMemIndexStore" where
  "SafeKeylogIndex_Rollback h ltime = SafeKeylogIndex_method h (idx_Rollback ltime)"

definition InMemIndexStore_MarkKey ::
  "bytes \<Rightarrow> bytes \<Rightarrow> InMemIndexStore \<Rightarrow> (error + nat) \<times> InMemIndexStore" where
  "InMemIndexStore_MarkKey key marker store =
     (let k = els key
      in case map_of (is_m store) k of
           Some v \<Rightarrow>
             (case SafeKeylogIndex_SetMarker v marker store of
                ((_, None), store) \<Rightarrow> (Inr v, store)
              | ((_, Some err), store) \<Rightarrow> (Inl err, store))
         | None \<Rightarrow>
             (case NewSafeKeylogIndex key marker store of
                (kli, store) \<Rightarrow> (Inr kli, store\<lparr>is_m := AList.update k kli (is_m store)\<rparr>)))"

definition InMemIndexStore_RemoveKey ::
  "bytes \<Rightarrow> InMemIndexStore \<Rightarrow> error option \<times> InMemIndexStore" where
  "InMemIndexStore_RemoveKey key store =
     (let k = els key
      in case map_of (is_m store) k of
           Some _ \<Rightarrow> (None, store\<lparr>is_m := AList.delete k (is_m store)\<rparr>)
         | None \<Rightarrow> (Some ErrKeyNotFound, store))"

definition sortedKeys :: "InMemIndexStore \<Rightarrow> byte list list" where
  "sortedKeys store = sort (map fst (is_m store))"

text \<open>The keys and references \<open>Iter\<close> calls back on, in order; \<open>[]byte(k)\<close> is not nil.\<close>

definition InMemIndexStore_visits :: "InMemIndexStore \<Rightarrow> (bytes \<times> nat) list" where
  "InMemIndexStore_visits store =
     map (\<lambda>k. (Some k, the (map_of (is_m store) k))) (sortedKeys store)"

definition InMemIndexStore_Count :: "InMemIndexStore \<Rightarrow> int" where
  "InMemIndexStore_Count store = int (length (is_m store))"

definition mem_index :: "(InMemIndexStore, nat) IndexStore" where
  "mem_index = \<lparr>IS_NewKey = InMemIndexStore_NewKey, IS_GetKey = InMemIndexStore_GetKey,
     IS_MarkKey = InMemIndexStore_MarkKey, IS_RemoveKey = InMemIndexStore_RemoveKey,
     IS_visits = InMemIndexStore_visits, IS_Count = InMemIndexStore_Count\<rparr>"

definition mem_keylog_index :: "(InMemIndexStore, nat) KeylogIndex" where
  "mem_keylog_index =
     \<lparr>KI_Key = (\<lambda>h i. idx_Key (is_heap i h)),
      KI_SetMarker = SafeKeylogIndex_SetMarker,
      KI_Marker = (\<lambda>h i. idx_Marker (is_heap i h)),
      KI_Append = SafeKeylogIndex_Append,
      KI_Rollback = SafeKeylogIndex_Rollback,
      KI_Last = (\<lambda>h i. idx_Last (is_heap i h)),
      KI_Contains = (\<lambda>h eid i. idx_Contains (is_heap i h) eid),
      KI_visits = (\<lambda>h seek i. idx_visits seek (is_heap i h)),
      KI_Count = (\<lambda>h i. idx_Count (is_heap i h)),
      KI_Height = (\<lambda>h i. idx_Height (is_heap i h)),
      KI_Index = (\<lambda>h i. is_heap i h),
      KI_Close = (\<lambda>h i. (None, i))\<rparr>"

text \<open>Keys have references of their own, all of them allocated.\<close>

definition mem_is_ok :: "InMemIndexStore \<Rightarrow> bool" where
  "mem_is_ok i \<longleftrightarrow> map_ok (is_m i) \<and> inj_on (map_of (is_m i)) (dom (map_of (is_m i))) \<and>
     (\<forall>k h. map_of (is_m i) k = Some h \<longrightarrow> h < is_next i)"

abbreviation mem_lookup :: "InMemIndexStore \<Rightarrow> byte list \<rightharpoonup> nat" where
  "mem_lookup i \<equiv> map_of (is_m i)"

abbreviation mem_live :: "InMemIndexStore \<Rightarrow> nat set" where
  "mem_live i \<equiv> {..<is_next i}"

lemmas mem_index_defs = mem_index_def mem_keylog_index_def SafeKeylogIndex_method_def
  SafeKeylogIndex_Append_def SafeKeylogIndex_Rollback_def SafeKeylogIndex_SetMarker_def
  InMemIndexStore_GetKey_def InMemIndexStore_NewKey_def InMemIndexStore_MarkKey_def
  InMemIndexStore_RemoveKey_def InMemIndexStore_Count_def NewSafeKeylogIndex_def

lemma New_marker_None [simp]: "NewUnsafeKeylogIndex key\<lparr>idx_Marker := None\<rparr> = NewUnsafeKeylogIndex key"
  by (simp add: NewUnsafeKeylogIndex_def)

lemma mem_is_ok_New [simp]: "mem_is_ok NewInMemIndexStore"
  by (simp add: mem_is_ok_def NewInMemIndexStore_def)

lemma mem_is_ok_insert:
  assumes "mem_is_ok i"
  shows "mem_is_ok (i\<lparr>is_heap := hp, is_next := Suc (is_next i),
    is_m := AList.update k (is_next i) (is_m i)\<rparr>)"
proof -
  have "mem_lookup i x \<noteq> Some (is_next i)" for x
    using assms by (auto simp: mem_is_ok_def)
  with assms show ?thesis
    by (auto simp: mem_is_ok_def inj_on_def dom_def less_Suc_eq)
qed

lemma mem_is_ok_delete: "mem_is_ok i \<Longrightarrow> mem_is_ok (i\<lparr>is_m := AList.delete k (is_m i)\<rparr>)"
  by (auto simp: mem_is_ok_def inj_on_def dom_def split: if_splits)

lemma mem_is_ok_heap [simp]: "mem_is_ok (i\<lparr>is_heap := hp\<rparr>) = mem_is_ok i"
  by (simp add: mem_is_ok_def)

lemma mem_visits:
  assumes "mem_is_ok i"
  shows "sorted (map (els \<circ> fst) (InMemIndexStore_visits i)) \<and>
    distinct (map (els \<circ> fst) (InMemIndexStore_visits i)) \<and>
    (\<forall>k h. (\<exists>key. els key = k \<and> (key, h) \<in> set (InMemIndexStore_visits i)) \<longleftrightarrow> mem_lookup i k = Some h)"
proof -
  have keys: "map (els \<circ> fst) (InMemIndexStore_visits i) = sortedKeys i"
    by (simp add: InMemIndexStore_visits_def o_def)
  have "(\<exists>key. els key = k \<and> (key, h) \<in> set (InMemIndexStore_visits i)) \<longleftrightarrow> mem_lookup i k = Some h"
    for k h
  proof -
    have "(\<exists>key. els key = k \<and> (key, h) \<in> set (InMemIndexStore_visits i))
        \<longleftrightarrow> k \<in> fst ` set (is_m i) \<and> h = the (mem_lookup i k)"
      by (force simp: InMemIndexStore_visits_def sortedKeys_def)
    also have "\<dots> \<longleftrightarrow> mem_lookup i k = Some h"
      by (metis domIff dom_map_of_conv_image_fst option.collapse option.distinct(1) option.sel)
    finally show ?thesis .
  qed
  then show ?thesis
    using assms unfolding keys by (auto simp: sortedKeys_def mem_is_ok_def map_ok_def)
qed

interpretation mem_is: index_store mem_index mem_keylog_index mem_lookup is_heap mem_live mem_is_ok
proof (unfold_locales, goal_cases)
  case (1 i k h)
  then show ?case by (simp add: mem_is_ok_def)
next
  case (2 i k h k')
  then show ?case by (auto simp: mem_is_ok_def inj_on_def dom_def)
next
  case (5 i key)
  then show ?case
    by (auto simp: mem_index_defs Let_def intro!: mem_is_ok_insert split: option.splits)
next
  case (7 i key marker)
  then show ?case
    by (auto simp: mem_index_defs Let_def intro!: mem_is_ok_insert split: option.splits)
next
  case (9 i key)
  then show ?case
    by (auto simp: mem_index_defs Let_def mem_is_ok_delete fun_upd_idem split: option.splits)
next
  case (10 i)
  then show ?case using mem_visits by (simp add: mem_index_def)
next
  case (11 i)
  then show ?case by (simp add: mem_index_defs mem_is_ok_def length_map_ok)
qed (auto simp: mem_index_defs Let_def split: option.splits prod.splits)

abbreviation mem_view :: "InMemIndexStore \<Rightarrow> byte list \<rightharpoonup> UnsafeKeylogIndex" where
  "mem_view \<equiv> index_view mem_lookup is_heap"

lemma mem_index_ops:
  "IS_NewKey mem_index = InMemIndexStore_NewKey" "IS_GetKey mem_index = InMemIndexStore_GetKey"
  "IS_MarkKey mem_index = InMemIndexStore_MarkKey" "IS_RemoveKey mem_index = InMemIndexStore_RemoveKey"
  "IS_visits mem_index = InMemIndexStore_visits" "IS_Count mem_index = InMemIndexStore_Count"
  "KI_Append mem_keylog_index = SafeKeylogIndex_Append"
  "KI_Rollback mem_keylog_index = SafeKeylogIndex_Rollback"
  "KI_SetMarker mem_keylog_index = SafeKeylogIndex_SetMarker"
  by (simp_all add: mem_index_def mem_keylog_index_def)

text \<open>
  Calls of an index store and of the indexes in it: an index is used through the reference
  that \<open>GetKey\<close> returns. The result shows the index behind a reference that is returned.
\<close>

datatype index_op =
    INew bytes | IGet bytes | IMark bytes bytes | IRemove bytes
  | IAppend bytes bytes bytes "64 word" | IRollback bytes "64 word" | ICount

datatype index_result =
    IErr error | IIndex UnsafeKeylogIndex | IDone "error option" | IRolled "int \<times> bool" | INumber int

fun returned_index :: "(error + nat) \<times> InMemIndexStore \<Rightarrow> index_result \<times> InMemIndexStore" where
  "returned_index (Inl err, i) = (IErr err, i)"
| "returned_index (Inr h, i) = (IIndex (is_heap i h), i)"

fun index_call :: "index_op \<Rightarrow> InMemIndexStore \<Rightarrow> index_result \<times> InMemIndexStore" where
  "index_call (INew key) i = returned_index (InMemIndexStore_NewKey key i)"
| "index_call (IGet key) i = returned_index (InMemIndexStore_GetKey key i, i)"
| "index_call (IMark key marker) i = returned_index (InMemIndexStore_MarkKey key marker i)"
| "index_call (IRemove key) i = apfst IDone (InMemIndexStore_RemoveKey key i)"
| "index_call (IAppend key eid prev lt) i =
     (case InMemIndexStore_GetKey key i of
        Inl err \<Rightarrow> (IErr err, i)
      | Inr h \<Rightarrow> apfst IDone (SafeKeylogIndex_Append h eid prev lt i))"
| "index_call (IRollback key lt) i =
     (case InMemIndexStore_GetKey key i of
        Inl err \<Rightarrow> (IErr err, i)
      | Inr h \<Rightarrow> apfst IRolled (SafeKeylogIndex_Rollback h lt i))"
| "index_call ICount i = (INumber (InMemIndexStore_Count i), i)"

text \<open>The specification: a map from keys to the values of their indexes.\<close>

fun spec_index_call ::
  "index_op \<Rightarrow> (byte list \<rightharpoonup> UnsafeKeylogIndex) \<Rightarrow> index_result \<times> (byte list \<rightharpoonup> UnsafeKeylogIndex)" where
  "spec_index_call (INew key) m =
     (case m (els key) of
        Some _ \<Rightarrow> (IErr ErrKeyExists, m)
      | None \<Rightarrow> (IIndex (NewUnsafeKeylogIndex key), m(els key \<mapsto> NewUnsafeKeylogIndex key)))"
| "spec_index_call (IGet key) m =
     (case m (els key) of None \<Rightarrow> (IErr ErrKeyNotFound, m) | Some idx \<Rightarrow> (IIndex idx, m))"
| "spec_index_call (IMark key marker) m =
     (let idx = (case m (els key) of
                   Some idx \<Rightarrow> snd (idx_SetMarker marker idx)
                 | None \<Rightarrow> NewUnsafeKeylogIndex key\<lparr>idx_Marker := marker\<rparr>)
      in (IIndex idx, m(els key \<mapsto> idx)))"
| "spec_index_call (IRemove key) m =
     (IDone (if m (els key) = None then Some ErrKeyNotFound else None), m(els key := None))"
| "spec_index_call (IAppend key eid prev lt) m =
     (case m (els key) of
        None \<Rightarrow> (IErr ErrKeyNotFound, m)
      | Some idx \<Rightarrow> (IDone (fst (idx_Append eid prev lt idx)), m(els key \<mapsto> snd (idx_Append eid prev lt idx))))"
| "spec_index_call (IRollback key lt) m =
     (case m (els key) of
        None \<Rightarrow> (IErr ErrKeyNotFound, m)
      | Some idx \<Rightarrow> (IRolled (fst (idx_Rollback lt idx)), m(els key \<mapsto> snd (idx_Rollback lt idx))))"
| "spec_index_call ICount m = (INumber (int (card (dom m))), m)"

fun in_turn :: "('op \<Rightarrow> 's \<Rightarrow> 'r \<times> 's) \<Rightarrow> 'op list \<Rightarrow> 's \<Rightarrow> 'r list \<times> 's" where
  "in_turn f [] s = ([], s)"
| "in_turn f (x # xs) s = (case f x s of (r, s) \<Rightarrow> apfst (Cons r) (in_turn f xs s))"

lemmas mem_GetKey = mem_is.GetKey [unfolded mem_index_ops]

lemma mem_MarkKey:
  assumes ok: "mem_is_ok i"
  shows "case index_call (IMark key marker) i of
    (r, i') \<Rightarrow> (r, mem_view i') = spec_index_call (IMark key marker) (mem_view i) \<and> mem_is_ok i'"
proof (cases "mem_lookup i (els key)")
  case None
  obtain h i' where n: "InMemIndexStore_MarkKey key marker i = (Inr h, i')" "mem_is_ok i'" "h \<notin> mem_live i"
    "mem_lookup i' = (mem_lookup i)(els key \<mapsto> h)" "is_heap i' = (is_heap i)(h := NewUnsafeKeylogIndex key\<lparr>idx_Marker := marker\<rparr>)"
    using mem_is.MarkKey_new [OF ok None, of marker] unfolding mem_index_ops by blast
  with None mem_is.view_add [OF ok n(3-5)] show ?thesis by (simp add: Let_def)
next
  case (Some h)
  then have live: "h \<in> mem_live i" using ok by (rule_tac mem_is.lookup_live)
  have m: "InMemIndexStore_MarkKey key marker i = (Inr h, snd (SafeKeylogIndex_SetMarker h marker i))"
    using mem_is.MarkKey_exists [OF ok Some, of marker] by (simp add: mem_index_ops)
  from Some m mem_is.SetMarker_frame [OF ok live, of marker] mem_is.view_SetMarker [OF ok Some, of marker]
  show ?thesis by (simp add: mem_index_ops Let_def)
qed

lemma index_call_refines:
  assumes ok: "mem_is_ok i"
  shows "case index_call x i of (r, i') \<Rightarrow> (r, mem_view i') = spec_index_call x (mem_view i) \<and> mem_is_ok i'"
proof (cases x)
  case (INew key)
  show ?thesis
  proof (cases "mem_lookup i (els key)")
    case None
    obtain h i' where n: "InMemIndexStore_NewKey key i = (Inr h, i')" "mem_is_ok i'" "h \<notin> mem_live i"
      "mem_lookup i' = (mem_lookup i)(els key \<mapsto> h)" "is_heap i' = (is_heap i)(h := NewUnsafeKeylogIndex key)"
      using mem_is.NewKey_new [OF ok None] unfolding mem_index_ops by blast
    with None mem_is.view_add [OF ok n(3-5)] show ?thesis by (simp add: INew)
  next
    case (Some h)
    with mem_is.NewKey_exists [OF ok, of key] ok show ?thesis by (simp add: INew mem_index_ops)
  qed
next
  case (IMark key marker)
  show ?thesis unfolding IMark by (rule mem_MarkKey [OF ok])
next
  case (IRemove key)
  from mem_is.RemoveKey_err [OF ok, of key] mem_is.RemoveKey_frame [OF ok, of key] mem_is.view_RemoveKey [OF ok, of key]
  show ?thesis
    by (cases "InMemIndexStore_RemoveKey key i") (simp add: IRemove mem_index_ops)
next
  case (IAppend key eid prev lt)
  show ?thesis
  proof (cases "mem_lookup i (els key)")
    case (Some h)
    then have live: "h \<in> mem_live i" using ok by (rule_tac mem_is.lookup_live)
    from Some mem_is.Append_res [OF ok live, of eid prev lt] mem_is.Append_frame [OF ok live, of eid prev lt]
      mem_is.view_Append [OF ok Some, of eid prev lt]
    show ?thesis
      by (cases "SafeKeylogIndex_Append h eid prev lt i") (simp add: IAppend mem_index_ops mem_GetKey [OF ok])
  qed (simp add: IAppend mem_GetKey [OF ok] ok)
next
  case (IRollback key lt)
  show ?thesis
  proof (cases "mem_lookup i (els key)")
    case (Some h)
    then have live: "h \<in> mem_live i" using ok by (rule_tac mem_is.lookup_live)
    from Some mem_is.Rollback_res [OF ok live, of lt] mem_is.Rollback_frame [OF ok live, of lt]
      mem_is.view_Rollback [OF ok Some, of lt]
    show ?thesis
      by (cases "SafeKeylogIndex_Rollback h lt i") (simp add: IRollback mem_index_ops mem_GetKey [OF ok])
  qed (simp add: IRollback mem_GetKey [OF ok] ok)
next
  case ICount
  have "dom (mem_view i) = dom (mem_lookup i)" by (auto simp: index_view_def dom_def)
  with mem_is.IS_Count [OF ok] ok show ?thesis by (simp add: ICount mem_index_ops)
qed (use ok in \<open>simp add: mem_GetKey split: option.split\<close>)

text \<open>
  C36: The index store, an association from keys to pointers of indexes, implements a map
  from keys to index values. From any good state, in particular the new store, every
  sequence of calls returns what the map does and ends in its state: \<open>NewKey\<close> adds an empty
  index, and gives ErrKeyExists and changes nothing where the key is there; \<open>GetKey\<close> and
  \<open>RemoveKey\<close> find what is there, or ErrKeyNotFound; \<open>MarkKey\<close> sets the marker of the index
  that is there and keeps its entries, or adds an empty one with the marker; an append or a
  rollback through the reference of a key returns and does to the index of that key what
  \<open>idx_Append\<close> and \<open>idx_Rollback\<close> do, and nothing to the index of another key; and \<open>Count\<close>
  is the number of keys.
\<close>

theorem index_store_refines_map:
  assumes "mem_is_ok i" and "in_turn index_call ops i = (rs, i')"
  shows "in_turn spec_index_call ops (mem_view i) = (rs, mem_view i') \<and> mem_is_ok i'"
  using assms
proof (induction ops arbitrary: i rs)
  case (Cons x xs)
  obtain r i1 rs1 where s: "index_call x i = (r, i1)" "in_turn index_call xs i1 = (rs1, i')" "rs = r # rs1"
    using Cons.prems(2) by (auto simp: apfst_def map_prod_def split: prod.splits)
  from index_call_refines [OF Cons.prems(1), of x] s(1)
  have "spec_index_call x (mem_view i) = (r, mem_view i1)" "mem_is_ok i1" by simp_all
  with Cons.IH [OF _ s(2)] s(3) show ?case by simp
qed simp

theorem index_store_refines_map_witness:
  "\<exists>i'. in_turn index_call [INew (Some [1]), IAppend (Some [1]) (Some [5]) None 1, INew (Some [1]),
      IMark (Some [1]) (Some [9]), ICount] NewInMemIndexStore
      = ([IIndex (NewUnsafeKeylogIndex (Some [1])), IDone None, IErr ErrKeyExists,
          IIndex (snd (idx_SetMarker (Some [9]) (snd (idx_Append (Some [5]) None 1 (NewUnsafeKeylogIndex (Some [1])))))),
          INumber 1], i') \<and> mem_is_ok i'"
proof -
  let ?ops = "[INew (Some [1]), IAppend (Some [1]) (Some [5]) None 1, INew (Some [1]), IMark (Some [1]) (Some [9]), ICount]"
  obtain rs i' where run: "in_turn index_call ?ops NewInMemIndexStore = (rs, i')" by (metis surj_pair)
  have new: "mem_view NewInMemIndexStore = Map.empty" by (simp add: index_view_def NewInMemIndexStore_def)
  from index_store_refines_map [OF mem_is_ok_New run] show ?thesis
    unfolding run new by (auto simp: idx_Append_cases follows_def idx_Last_conv Let_def)
qed

text \<open>
  \<open>Iter\<close> visits every key of the store once, in ascending byte order, with the
  index that the key has: the order Go ranges over the map in does not show.
\<close>

theorem index_store_iter_sorted:
  assumes "mem_is_ok i"
  shows "map (els \<circ> fst) (InMemIndexStore_visits i) = sorted_list_of_set (dom (mem_view i)) \<and>
    map (\<lambda>(k, h). Some (is_heap i h)) (InMemIndexStore_visits i)
      = map (mem_view i) (sorted_list_of_set (dom (mem_view i)))"
proof -
  let ?ks = "map (els \<circ> fst) (InMemIndexStore_visits i)"
  have "set ?ks = dom (mem_lookup i)"
    by (simp add: InMemIndexStore_visits_def sortedKeys_def dom_map_of_conv_image_fst image_comp)
  then have "set ?ks = dom (mem_view i)" by (auto simp: index_view_def dom_def)
  with mem_visits [OF assms] have ks: "?ks = sorted_list_of_set (dom (mem_view i))"
    by (metis sorted_list_of_set.idem_if_sorted_distinct)
  have "map (\<lambda>(k, h). Some (is_heap i h)) (InMemIndexStore_visits i) = map (mem_view i) ?ks"
    by (force simp: InMemIndexStore_visits_def sortedKeys_def index_view_def
        dest: weak_map_of_SomeI [of _ _ "is_m i"])
  with ks show ?thesis by simp
qed

theorem index_store_iter_sorted_witness:
  "map (els \<circ> fst) (InMemIndexStore_visits NewInMemIndexStore) = []"
  using index_store_iter_sorted [OF mem_is_ok_New] by (simp add: NewInMemIndexStore_def index_view_def)

text \<open>
  \<open>MarkKey\<close> reads the map under a read lock, releases it, and writes the new index under
  the write lock. Its two steps:
\<close>

definition MarkKey_read :: "bytes \<Rightarrow> InMemIndexStore \<Rightarrow> nat option" where
  "MarkKey_read key store = map_of (is_m store) (els key)"

definition MarkKey_write :: "bytes \<Rightarrow> bytes \<Rightarrow> InMemIndexStore \<Rightarrow> nat \<times> InMemIndexStore" where
  "MarkKey_write key marker store =
     (case NewSafeKeylogIndex key marker store of
        (kli, store) \<Rightarrow> (kli, store\<lparr>is_m := AList.update (els key) kli (is_m store)\<rparr>))"

lemma MarkKey_two_steps:
  "MarkKey_read key i = None \<Longrightarrow>
    InMemIndexStore_MarkKey key marker i = apfst Inr (MarkKey_write key marker i)"
  by (simp add: MarkKey_read_def MarkKey_write_def InMemIndexStore_MarkKey_def NewSafeKeylogIndex_def)

text \<open>
  C37: The two steps are not atomic. When another call creates the key and appends an entry
  between them, the second step replaces the index of the key by an empty one: the
  appended id is gone from the store, for every key, id and marker.
\<close>

theorem MarkKey_race_loses_entries:
  assumes "mem_is_ok i" and "MarkKey_read key i = None"
    and "InMemIndexStore_NewKey key i = (Inr h, i1)"
    and "SafeKeylogIndex_Append h eid None lt i1 = (None, i2)"
  shows "map_option idx_Entries (mem_view i2 (els key)) = Some [eid] \<and>
    map_option idx_Entries (mem_view (snd (MarkKey_write key marker i2)) (els key)) = Some []"
proof -
  from assms(2,3) have i1: "i1 = snd (InMemIndexStore_NewKey key i)" and h: "mem_lookup i1 (els key) = Some h"
    and idx: "is_heap i1 h = NewUnsafeKeylogIndex key"
    by (auto simp: MarkKey_read_def InMemIndexStore_NewKey_def NewSafeKeylogIndex_def)
  have ok1: "mem_is_ok i1"
    using mem_is.ok_NewKey [OF assms(1)] unfolding i1 by (simp add: mem_index_ops)
  have "mem_view i2 (els key) = Some (snd (idx_Append eid None lt (NewUnsafeKeylogIndex key)))"
    using mem_is.view_Append [OF ok1 h, of eid None lt] assms(4) idx
    by (simp add: mem_index_ops index_view_def)
  then show ?thesis
    by (auto simp: idx_Append_cases follows_def idx_Last_conv MarkKey_write_def NewSafeKeylogIndex_def
        index_view_def)
qed

theorem MarkKey_race_loses_entries_witness:
  "map_option idx_Entries (mem_view
     (snd (MarkKey_write (Some [1]) (Some [9])
       (snd (SafeKeylogIndex_Append 0 (Some [5]) None 1
         (snd (InMemIndexStore_NewKey (Some [1]) NewInMemIndexStore)))))) [1]) = Some []"
proof -
  have h: "MarkKey_read (Some [1]) NewInMemIndexStore = None"
    "InMemIndexStore_NewKey (Some [1]) NewInMemIndexStore
      = (Inr 0, snd (InMemIndexStore_NewKey (Some [1]) NewInMemIndexStore))"
    "SafeKeylogIndex_Append 0 (Some [5]) None 1 (snd (InMemIndexStore_NewKey (Some [1]) NewInMemIndexStore))
      = (None, snd (SafeKeylogIndex_Append 0 (Some [5]) None 1
          (snd (InMemIndexStore_NewKey (Some [1]) NewInMemIndexStore))))"
    by (simp_all add: MarkKey_read_def NewInMemIndexStore_def InMemIndexStore_NewKey_def
        NewSafeKeylogIndex_def SafeKeylogIndex_Append_def SafeKeylogIndex_method_def
        idx_Append_cases follows_def idx_Last_conv)
  from MarkKey_race_loses_entries [OF mem_is_ok_New h, of "Some [9]"] show ?thesis by simp
qed

subsection \<open>The stable store\<close>

text \<open>
  The map is nil until \<open>Open\<close>; reading a nil map finds nothing, writing to it panics.
  \<open>Iter\<close> visits the bindings in the order of Go's map, a parameter here.
\<close>

record InMemStableStore =
  ss_m :: "(byte list, bytes) gomap option"

definition zero_InMemStableStore :: InMemStableStore where
  "zero_InMemStableStore = \<lparr>ss_m = None\<rparr>"

definition InMemStableStore_Open :: "InMemStableStore \<Rightarrow> error option \<times> InMemStableStore" where
  "InMemStableStore_Open store = (None, store\<lparr>ss_m := Some []\<rparr>)"

definition InMemStableStore_Get :: "bytes \<Rightarrow> InMemStableStore \<Rightarrow> error + bytes" where
  "InMemStableStore_Get key store =
     (case map_of (case ss_m store of None \<Rightarrow> [] | Some m \<Rightarrow> m) (els key) of
        Some val \<Rightarrow> Inr val
      | None \<Rightarrow> Inl ErrKeyNotFound)"

definition InMemStableStore_Set :: "bytes \<Rightarrow> bytes \<Rightarrow> (InMemStableStore, error option) call" where
  "InMemStableStore_Set key val store =
     (case ss_m store of
        None \<Rightarrow> Panic store
      | Some m \<Rightarrow> Ret None (store\<lparr>ss_m := Some (AList.update (els key) val m)\<rparr>))"

definition InMemStableStore_Iter ::
  "((byte list \<times> bytes) list \<Rightarrow> (byte list \<times> bytes) list) \<Rightarrow>
   (byte list \<times> bytes \<Rightarrow> 's \<Rightarrow> error option \<times> 's) \<Rightarrow> InMemStableStore \<Rightarrow> 's \<Rightarrow> error option \<times> 's" where
  "InMemStableStore_Iter order cb store s =
     for_each cb (order (case ss_m store of None \<Rightarrow> [] | Some m \<Rightarrow> m)) s"

definition mem_stable :: "InMemStableStore StableStore" where
  "mem_stable = \<lparr>SS_Open = InMemStableStore_Open, SS_Get = InMemStableStore_Get,
     SS_Set = InMemStableStore_Set\<rparr>"

definition mem_ss_ids :: "InMemStableStore \<Rightarrow> byte list \<rightharpoonup> bytes" where
  "mem_ss_ids store = map_of (case ss_m store of None \<Rightarrow> [] | Some m \<Rightarrow> m)"

definition mem_ss_ok :: "InMemStableStore \<Rightarrow> bool" where
  "mem_ss_ok store \<longleftrightarrow> (\<exists>m. ss_m store = Some m \<and> map_ok m)"

interpretation mem_ss: stable_store mem_stable mem_ss_ids mem_ss_ok
  by unfold_locales
    (auto simp: mem_stable_def mem_ss_ids_def mem_ss_ok_def InMemStableStore_Open_def
      InMemStableStore_Get_def InMemStableStore_Set_def)

end
