(* ===== verification/Hash_Chain.thy ===== *)
theory Hash_Chain
  imports Keylog_Index
begin

section \<open>Logs as hash chains\<close>

text \<open>
  The specification of what a keylog is: the ids of its index, oldest first, are the
  hashes of stored entries of the key, the first entry has a zero previous hash, and each
  other entry has the id before it as its previous hash. This theory states that notion and
  what follows from it, with no operation of the program involved.
\<close>

text \<open>An entry may come right after the id \<open>prev\<close>; nil stands for the start of a log.\<close>

definition links :: "bytes \<Rightarrow> Entry \<Rightarrow> bool" where
  "links prev e \<longleftrightarrow> (if prev = None then isZeroBytes (Previous e) else els prev = els (Previous e))"

fun chained :: "hash_fn \<Rightarrow> (byte list \<rightharpoonup> Entry) \<Rightarrow> byte list \<Rightarrow> bytes \<Rightarrow> bytes list \<Rightarrow> bool" where
  "chained H C k prev [] = True"
| "chained H C k prev (i # ids) =
     (case C (els i) of
        None \<Rightarrow> False
      | Some e \<Rightarrow> Entry_Hash H e = i \<and> els (Key e) = k \<and> links prev e \<and> chained H C k i ids)"

definition tip :: "bytes \<Rightarrow> bytes list \<Rightarrow> bytes" where
  "tip prev ids = (if ids = [] then prev else last ids)"

lemma tip_simps [simp]:
  "tip prev [] = prev" "tip prev (i # ids) = tip i ids" "tip prev (ids @ [i]) = i"
  by (auto simp: tip_def)

text \<open>
  What is assumed of the hash function on the entries \<open>U\<close> that ever occur: it is a hash
  function, it has no collisions among them, and none of them hashes to zero bytes.
\<close>

definition good_hash :: "hash_fn \<Rightarrow> Entry set \<Rightarrow> bool" where
  "good_hash H U \<longleftrightarrow> hash_fn_ok H \<and> inj_on (Entry_Hash H) U \<and>
     (\<forall>e\<in>U. \<not> isZeroBytes (Entry_Hash H e))"

lemma good_hash_ok: "good_hash H U \<Longrightarrow> hash_fn_ok H"
  by (simp add: good_hash_def)

lemma good_hash_inj:
  "good_hash H U \<Longrightarrow> e \<in> U \<Longrightarrow> e' \<in> U \<Longrightarrow> Entry_Hash H e = Entry_Hash H e' \<Longrightarrow> e = e'"
  by (auto simp: good_hash_def inj_on_def)

lemma good_hash_nonzero: "good_hash H U \<Longrightarrow> e \<in> U \<Longrightarrow> \<not> isZeroBytes (Entry_Hash H e)"
  by (simp add: good_hash_def)

lemma isZeroBytes_cong: "els a = els b \<Longrightarrow> isZeroBytes a = isZeroBytes b"
  by (simp add: isZeroBytes_def)

subsection \<open>Taking chains apart\<close>

lemma chained_append [simp]:
  "chained H C k prev (ids @ ids') \<longleftrightarrow> chained H C k prev ids \<and> chained H C k (tip prev ids) ids'"
  by (induction ids arbitrary: prev) (auto split: option.splits)

lemma chained_memD:
  "chained H C k prev ids \<Longrightarrow> i \<in> set ids \<Longrightarrow>
    \<exists>e. C (els i) = Some e \<and> Entry_Hash H e = i \<and> els (Key e) = k"
  by (induction ids arbitrary: prev) (auto split: option.splits)

lemma chained_not_nil:
  assumes "hash_fn_ok H" and "chained H C k prev ids" and "i \<in> set ids"
  shows "i \<noteq> None"
  using chained_memD [OF assms(2,3)] Entry_Hash_not_nil [OF assms(1)] by auto

lemma chained_els_inj:
  assumes "hash_fn_ok H" and "chained H C k prev ids" "chained H C' k' prev' ids'"
    and "i \<in> set ids" "j \<in> set ids'" and "els i = els j"
  shows "i = j"
  using chained_not_nil [OF assms(1,2,4)] chained_not_nil [OF assms(1,3,5)] assms(6)
  by (cases i; cases j) auto

text \<open>A chain looks only at the stored entries of its own ids.\<close>

lemma chained_cong:
  "(\<And>i. i \<in> set ids \<Longrightarrow> C (els i) = C' (els i)) \<Longrightarrow> chained H C k prev ids = chained H C' k prev ids"
  by (induction ids arbitrary: prev) (auto split: option.splits)

lemma chained_mono: "chained H C k prev ids \<Longrightarrow> C \<subseteq>\<^sub>m C' \<Longrightarrow> chained H C' k prev ids"
  by (induction ids arbitrary: prev) (auto simp: map_le_def dom_def split: option.splits)

text \<open>
  Storing an entry under its own hash keeps every chain: with no collisions it replaces an
  entry by itself.
\<close>

lemma store_same:
  assumes "good_hash H U" and "ran C \<subseteq> U" and "e \<in> U"
    and "chained H C k prev ids" and "i \<in> set ids"
  shows "(C(els (Entry_Hash H e) \<mapsto> e)) (els i) = C (els i)"
proof (cases "els i = els (Entry_Hash H e)")
  case True
  from chained_memD [OF assms(4,5)] obtain e' where e': "C (els i) = Some e'" "Entry_Hash H e' = i"
    by blast
  from e'(1) assms(2) have "e' \<in> U" by (auto simp: ran_def)
  moreover have "Entry_Hash H e' = Entry_Hash H e"
    using True e'(2) good_hash_ok [OF assms(1)] by (metis Entry_Hash_eq_iff_els)
  ultimately have "e' = e" using assms(1,3) by (metis good_hash_inj)
  with e'(1) True show ?thesis by simp
qed simp

lemma chained_store:
  assumes "good_hash H U" and "ran C \<subseteq> U" and "e \<in> U" and "chained H C k prev ids"
  shows "chained H (C(els (Entry_Hash H e) \<mapsto> e)) k prev ids"
  by (rule chained_cong [THEN iffD1, OF _ assms(4)]) (rule store_same [OF assms, symmetric])

text \<open>Deleting an entry keeps the chains of the other keys.\<close>

lemma chained_delete_other:
  assumes "chained H C k prev ids" and "C x = Some e" and "els (Key e) \<noteq> k"
  shows "chained H (C(x := None)) k prev ids"
proof (rule chained_cong [THEN iffD1, OF _ assms(1)])
  fix i assume "i \<in> set ids"
  from chained_memD [OF assms(1) this] assms(2,3) show "C (els i) = (C(x := None)) (els i)" by auto
qed

subsection \<open>No id occurs twice\<close>

lemma chained_nth:
  assumes "chained H C k prev ids" and "j < length ids"
  shows "\<exists>e. C (els (ids ! j)) = Some e \<and> Entry_Hash H e = ids ! j \<and>
    links (if j = 0 then prev else ids ! (j - 1)) e"
proof -
  have "ids = take j ids @ ids ! j # drop (Suc j) ids"
    using assms(2) by (rule id_take_nth_drop)
  with assms(1) have "chained H C k (tip prev (take j ids)) (ids ! j # drop (Suc j) ids)"
    by (metis chained_append)
  moreover have "tip prev (take j ids) = (if j = 0 then prev else ids ! (j - 1))"
    using assms(2) by (cases j) (simp_all add: tip_def take_Suc_conv_app_nth last_conv_nth)
  ultimately show ?thesis by (auto split: option.splits)
qed

lemma chained_distinct:
  assumes H: "hash_fn_ok H" and nz: "\<And>e. e \<in> ran C \<Longrightarrow> \<not> isZeroBytes (Entry_Hash H e)"
    and ch: "chained H C k None ids"
  shows "distinct ids"
proof -
  have "ids ! a \<noteq> ids ! b" if "a < b" "b < length ids" for a b
    using that
  proof (induction a arbitrary: b rule: less_induct)
    case (less a)
    show ?case
    proof
      assume eq: "ids ! a = ids ! b"
      from less.prems obtain e where e: "C (els (ids ! a)) = Some e"
        "links (if a = 0 then None else ids ! (a - 1)) e"
        using chained_nth [OF ch, of a] by auto
      from less.prems eq e(1) have lb: "links (ids ! (b - 1)) e"
        using chained_nth [OF ch, of b] by auto
      from less.prems obtain e1 where e1: "C (els (ids ! (b - 1))) = Some e1"
        "Entry_Hash H e1 = ids ! (b - 1)"
        using chained_nth [OF ch, of "b - 1"] by (auto simp: less_imp_diff_less)
      have nn: "ids ! (b - 1) \<noteq> None"
        using H e1(2) by (rule Entry_Hash_eq_not_nil)
      with lb have lb: "els (ids ! (b - 1)) = els (Previous e)" by (simp add: links_def)
      show False
      proof (cases a)
        case 0
        with e(2) have "isZeroBytes (ids ! (b - 1))"
          using isZeroBytes_cong [OF lb] by (simp add: links_def)
        moreover have "e1 \<in> ran C" using e1(1) by (auto simp: ran_def)
        ultimately show False using nz [of e1] e1(2) by simp
      next
        case (Suc a')
        from Suc less.prems obtain e2 where e2: "Entry_Hash H e2 = ids ! a'"
          using chained_nth [OF ch, of a'] by auto
        with H have "ids ! a' \<noteq> None" by (rule Entry_Hash_eq_not_nil)
        with e(2) Suc have "els (ids ! a') = els (ids ! (b - 1))" using lb by (simp add: links_def)
        then have "ids ! a' = ids ! (b - 1)" using e1(2) e2 H by (metis Entry_Hash_eq_iff_els)
        moreover have "a' < b - 1" "b - 1 < length ids" using less.prems Suc by linarith+
        ultimately show False using less.IH [of a' "b - 1"] Suc by simp
      qed
    qed
  qed
  then show ?thesis by (metis distinct_conv_nth linorder_neqE_nat)
qed

subsection \<open>The last id determines the log\<close>

lemma chain_determined_by_last:
  assumes "good_hash H U" and "ran C \<subseteq> U" "ran C' \<subseteq> U"
  shows "chained H C k None (ids @ [i]) \<Longrightarrow> chained H C' k' None (ids' @ [i]) \<Longrightarrow> ids = ids'"
proof (induction ids arbitrary: ids' i rule: rev_induct)
  case Nil
  then obtain e where e: "C (els i) = Some e" "Entry_Hash H e = i" "isZeroBytes (Previous e)"
    by (auto simp: links_def split: option.splits)
  from Nil(2) obtain e' where e': "C' (els i) = Some e'" "Entry_Hash H e' = i" "links (tip None ids') e'"
    by (auto split: option.splits)
  from e(1) e'(1) assms(2,3) have "e \<in> U" "e' \<in> U" by (auto simp: ran_def)
  with e(2) e'(2) have "e' = e" using assms(1) by (metis good_hash_inj)
  show ?case
  proof (rule ccontr)
    assume ne: "[] \<noteq> ids'"
    then obtain xs x where x: "ids' = xs @ [x]" by (metis rev_exhaust)
    with Nil(2) obtain e2 where e2: "C' (els x) = Some e2" "Entry_Hash H e2 = x"
      by (auto split: option.splits)
    from good_hash_ok [OF assms(1)] e2(2) have "x \<noteq> None" by (rule Entry_Hash_eq_not_nil)
    with e'(3) x \<open>e' = e\<close> e(3) have "isZeroBytes x"
      by (auto simp: links_def intro: isZeroBytes_cong [THEN iffD2])
    with e2 assms(1,3) show False by (auto simp: ran_def dest: good_hash_nonzero)
  qed
next
  case (snoc x xs)
  then obtain e where e: "C (els i) = Some e" "Entry_Hash H e = i" "links x e"
    by (auto split: option.splits)
  from snoc.prems(1) obtain e1 where e1: "C (els x) = Some e1" "Entry_Hash H e1 = x"
    by (auto split: option.splits)
  from good_hash_ok [OF assms(1)] e1(2) have xn: "x \<noteq> None" by (rule Entry_Hash_eq_not_nil)
  from snoc.prems(2) obtain e' where e': "C' (els i) = Some e'" "Entry_Hash H e' = i" "links (tip None ids') e'"
    by (auto split: option.splits)
  from e(1) e'(1) assms(2,3) have "e \<in> U" "e' \<in> U" by (auto simp: ran_def)
  with e(2) e'(2) have "e' = e" using assms(1) by (metis good_hash_inj)
  have "ids' \<noteq> []"
  proof
    assume "ids' = []"
    with e'(3) \<open>e' = e\<close> have "isZeroBytes (Previous e)" by (simp add: links_def)
    with e(3) xn have "isZeroBytes x" by (auto simp: links_def intro: isZeroBytes_cong [THEN iffD2])
    with e1 assms(1,2) show False by (auto simp: ran_def dest: good_hash_nonzero)
  qed
  then obtain ys y where y: "ids' = ys @ [y]" by (metis rev_exhaust)
  with snoc.prems(2) obtain e2 where e2: "Entry_Hash H e2 = y"
    by (auto split: option.splits)
  from good_hash_ok [OF assms(1)] e2 have "y \<noteq> None" by (rule Entry_Hash_eq_not_nil)
  with e(3) e'(3) xn y \<open>e' = e\<close> have "els x = els y" by (simp add: links_def)
  then have "x = y" using e1(2) e2 good_hash_ok [OF assms(1)] by (metis Entry_Hash_eq_iff_els)
  with snoc.prems y have "chained H C k None (xs @ [x])" "chained H C' k' None (ys @ [x])"
    unfolding chained_append by (auto split: option.splits)
  from snoc.IH [OF this] y \<open>x = y\<close> show ?case by simp
qed

text \<open>Stored under one id means the same entry, in any two stores.\<close>

lemma chained_same_id:
  assumes "good_hash H U" and "ran C \<subseteq> U" "ran C' \<subseteq> U"
    and "chained H C k prev ids" "chained H C' k' prev' ids'" and "i \<in> set ids" "i \<in> set ids'"
  shows "C (els i) = C' (els i)"
proof -
  obtain e e' where e: "C (els i) = Some e" "Entry_Hash H e = i" "C' (els i) = Some e'" "Entry_Hash H e' = i"
    using chained_memD [OF assms(4,6)] chained_memD [OF assms(5,7)] by auto
  then have "e \<in> U" "e' \<in> U" using assms(2,3) by (auto simp: ran_def)
  with e show ?thesis using good_hash_inj [OF assms(1), of e e'] by simp
qed

end
