(* ===== verification/Keylog.thy ===== *)
theory Keylog
  imports In_Memory_Stores Hash_Chain
begin

section \<open>Keylogs (keylog.go)\<close>

text \<open>
  A keylog is an entry store, a reference to the index of a key and a hash function. The
  state of both stores of a node is a \<open>LogState\<close>; the tables of their methods and the hash
  function are constant and form a \<open>LogStore\<close>, the first argument of every operation of
  this theory and of \<open>Log_Store\<close>.
\<close>

record ('e, 'i) LogState =
  ls_entries :: 'e
  ls_index :: 'i

record ('e, 'i, 'h) LogStore =
  entries_if :: "'e EntryStore"
  index_if :: "('i, 'h) IndexStore"
  keylog_if :: "('i, 'h) KeylogIndex"
  ls_hasher :: hash_fn
  ls_hashSize :: nat

definition Keylog_LastEntry :: "('e, 'i, 'h) LogStore \<Rightarrow> 'h \<Rightarrow> ('e, 'i) LogState \<Rightarrow> Entry option" where
  "Keylog_LastEntry L kl s =
     (let lid = KI_Last (keylog_if L) kl (ls_index s)
      in if lid = None then None
         else (case ES_Get (entries_if L) lid (ls_entries s) of
                 Inl _ \<Rightarrow> None
               | Inr entry \<Rightarrow> Some entry))"

definition Keylog_AppendEntry ::
  "('e, 'i, 'h) LogStore \<Rightarrow> 'h \<Rightarrow> Entry \<Rightarrow> ('e, 'i) LogState \<Rightarrow> error option \<times> ('e, 'i) LogState" where
  "Keylog_AppendEntry L kl entry s =
     (let eid = Entry_Hash (ls_hasher L) entry
      in case ES_Set (entries_if L) eid entry (ls_entries s) of
           (Some err, es) \<Rightarrow> (Some err, s\<lparr>ls_entries := es\<rparr>)
         | (None, es) \<Rightarrow>
             (case KI_Append (keylog_if L) kl eid (Previous entry) (LTime entry) (ls_index s) of
                (err, ix) \<Rightarrow> (err, s\<lparr>ls_entries := es, ls_index := ix\<rparr>)))"

definition Keylog_GetEntry ::
  "('e, 'i, 'h) LogStore \<Rightarrow> bytes \<Rightarrow> ('e, 'i) LogState \<Rightarrow> error + Entry" where
  "Keylog_GetEntry L eid s = ES_Get (entries_if L) eid (ls_entries s)"

definition Keylog_RollbackEntry ::
  "('e, 'i, 'h) LogStore \<Rightarrow> 'h \<Rightarrow> Entry \<Rightarrow> ('e, 'i) LogState \<Rightarrow> (int \<times> error option) \<times> ('e, 'i) LogState" where
  "Keylog_RollbackEntry L kl entry s =
     (let eid = Entry_Hash (ls_hasher L) entry;
          lid = KI_Last (keylog_if L) kl (ls_index s);
          count = KI_Count (keylog_if L) kl (ls_index s)
      in if lid = None then ((count, Some ErrEntryNotFound), s)
         else if bytes_Compare eid lid \<noteq> 0 then ((-1, Some errNotLastEntry), s)
         else
           (case ES_Delete (entries_if L) eid (ls_entries s) of
              (Some err, es) \<Rightarrow> ((count, Some err), s\<lparr>ls_entries := es\<rparr>)
            | (None, es) \<Rightarrow>
                (let ltime = (case ES_Get (entries_if L) (Previous entry) es of
                                Inr prev \<Rightarrow> LTime prev
                              | Inl _ \<Rightarrow> 0)
                 in case KI_Rollback (keylog_if L) kl ltime (ls_index s) of
                      ((n, _), ix) \<Rightarrow> ((n, None), s\<lparr>ls_entries := es, ls_index := ix\<rparr>))))"

text \<open>
  \<open>Iter\<close> reads the entry of each visited id and passes both to the callback, which may
  change the stores and a state \<open>'u\<close> of its own.
\<close>

definition Keylog_Iter ::
  "('e, 'i, 'h) LogStore \<Rightarrow> 'h \<Rightarrow> bytes \<Rightarrow>
   (bytes \<Rightarrow> Entry \<Rightarrow> ('e, 'i) LogState \<times> 'u \<Rightarrow> error option \<times> ('e, 'i) LogState \<times> 'u) \<Rightarrow>
   ('e, 'i) LogState \<times> 'u \<Rightarrow> error option \<times> ('e, 'i) LogState \<times> 'u" where
  "Keylog_Iter L kl seek cb su =
     (case KI_visits (keylog_if L) kl seek (ls_index (fst su)) of
        Inl err \<Rightarrow> (Some err, su)
      | Inr eids \<Rightarrow>
          for_each
            (\<lambda>eid su. case ES_Get (entries_if L) eid (ls_entries (fst su)) of
                        Inl er \<Rightarrow> (Some er, su)
                      | Inr entry \<Rightarrow> cb eid entry su)
            eids su)"

definition Keylog_GetIndex :: "('e, 'i, 'h) LogStore \<Rightarrow> 'h \<Rightarrow> ('e, 'i) LogState \<Rightarrow> UnsafeKeylogIndex" where
  "Keylog_GetIndex L kl s = KI_Index (keylog_if L) kl (ls_index s)"

definition Keylog_Close ::
  "('e, 'i, 'h) LogStore \<Rightarrow> 'h \<Rightarrow> ('e, 'i) LogState \<Rightarrow> error option \<times> ('e, 'i) LogState" where
  "Keylog_Close L kl s =
     (case KI_Close (keylog_if L) kl (ls_index s) of (err, ix) \<Rightarrow> (err, s\<lparr>ls_index := ix\<rparr>))"

text \<open>The log store over the in-memory stores.\<close>

type_synonym mem_state = "(InMemEntryStore, InMemIndexStore) LogState"

definition mem_log :: "hash_fn \<Rightarrow> (InMemEntryStore, InMemIndexStore, nat) LogStore" where
  "mem_log h = \<lparr>entries_if = mem_entries, index_if = mem_index, keylog_if = mem_keylog_index,
     ls_hasher = h, ls_hashSize = Size h\<rparr>"

lemma mem_log_simps [simp]:
  "entries_if (mem_log h) = mem_entries" "index_if (mem_log h) = mem_index"
  "keylog_if (mem_log h) = mem_keylog_index" "ls_hasher (mem_log h) = h" "ls_hashSize (mem_log h) = Size h"
  by (simp_all add: mem_log_def)

subsection \<open>What keylogs rely on and what they do\<close>

text \<open>
  The client of the two store interfaces. The state of the stores is good when both are,
  and a keylog acts on the contents and the index of its key as stated here.
\<close>

locale log_stores =
  es: entry_store "entries_if L" contents es_ok +
  ix: index_store "index_if L" "keylog_if L" lookup deref live is_ok
  for L :: "('e, 'i, 'h) LogStore"
    and contents :: "'e \<Rightarrow> byte list \<rightharpoonup> Entry"
    and es_ok :: "'e \<Rightarrow> bool"
    and lookup :: "'i \<Rightarrow> byte list \<rightharpoonup> 'h"
    and deref :: "'i \<Rightarrow> 'h \<Rightarrow> UnsafeKeylogIndex"
    and live :: "'i \<Rightarrow> 'h set"
    and is_ok :: "'i \<Rightarrow> bool"
begin

abbreviation st_ok :: "('e, 'i) LogState \<Rightarrow> bool" where
  "st_ok s \<equiv> es_ok (ls_entries s) \<and> is_ok (ls_index s)"

abbreviation cont :: "('e, 'i) LogState \<Rightarrow> byte list \<rightharpoonup> Entry" where
  "cont s \<equiv> contents (ls_entries s)"

abbreviation idx_of :: "('e, 'i) LogState \<Rightarrow> byte list \<rightharpoonup> UnsafeKeylogIndex" where
  "idx_of s \<equiv> ix.view (ls_index s)"

abbreviation ref_of :: "('e, 'i) LogState \<Rightarrow> byte list \<rightharpoonup> 'h" where
  "ref_of s \<equiv> lookup (ls_index s)"

lemma st_ok_D: "st_ok s \<Longrightarrow> es_ok (ls_entries s)" "st_ok s \<Longrightarrow> is_ok (ls_index s)"
  by simp_all

lemma ref_live: "st_ok s \<Longrightarrow> ref_of s k = Some h \<Longrightarrow> h \<in> live (ls_index s)"
  by (auto intro: ix.lookup_live)

text \<open>Appending stores the entry in any case; only the index decides whether it is in the log.\<close>

lemma Keylog_AppendEntry_effect:
  assumes "st_ok s" and "ref_of s k = Some h" and "Keylog_AppendEntry L h entry s = (r, s')"
  defines "eid \<equiv> Entry_Hash (ls_hasher L) entry"
  defines "a \<equiv> idx_Append eid (Previous entry) (LTime entry) (deref (ls_index s) h)"
  shows "r = fst a" and "st_ok s'" and "cont s' = (cont s)(els eid \<mapsto> entry)"
    and "ref_of s' = ref_of s"
    and "idx_of s' = (idx_of s)(k \<mapsto> snd a)"
proof -
  have live: "h \<in> live (ls_index s)" using assms(1,2) by (rule ref_live)
  obtain es where es: "ES_Set (entries_if L) eid entry (ls_entries s) = (None, es)"
    using es.Set_err [OF st_ok_D(1) [OF assms(1)]] by (metis prod.collapse)
  obtain e ix where ix: "KI_Append (keylog_if L) h eid (Previous entry) (LTime entry) (ls_index s) = (e, ix)"
    by (metis prod.collapse)
  have rs: "r = e" "s' = s\<lparr>ls_entries := es, ls_index := ix\<rparr>"
    using assms(3) es ix by (simp_all add: Keylog_AppendEntry_def eid_def Let_def)
  show "r = fst a"
    using ix.Append_res [OF st_ok_D(2) [OF assms(1)] live, of eid "Previous entry" "LTime entry"] ix rs
    by (simp add: a_def)
  show "st_ok s'" "ref_of s' = ref_of s"
    using ix.Append_frame [OF st_ok_D(2) [OF assms(1)] live, of eid "Previous entry" "LTime entry"] ix
      es.Set_ok [OF st_ok_D(1) [OF assms(1)], of eid entry] es rs by auto
  show "cont s' = (cont s)(els eid \<mapsto> entry)"
    using es.Set_contents [OF st_ok_D(1) [OF assms(1)], of eid entry] es rs by simp
  show "idx_of s' = (idx_of s)(k \<mapsto> snd a)"
    using ix.view_Append [OF st_ok_D(2) [OF assms(1)] assms(2), of eid "Previous entry" "LTime entry"]
      ix rs by (simp add: a_def)
qed

lemma Keylog_LastEntry_eq:
  assumes "st_ok s" and "ref_of s k = Some h"
  shows "Keylog_LastEntry L h s =
    (let lid = idx_Last (deref (ls_index s) h) in if lid = None then None else cont s (els lid))"
  using assms ix.KI_reads [OF st_ok_D(2) [OF assms(1)] ref_live [OF assms]]
  by (auto simp: Keylog_LastEntry_def es.Get Let_def split: option.split)

text \<open>A rollback of the last entry, and the two ways it is refused.\<close>

lemma Keylog_RollbackEntry_effect:
  assumes "st_ok s" and "ref_of s k = Some h" and "Keylog_RollbackEntry L h entry s = ((n, r), s')"
  defines "eid \<equiv> Entry_Hash (ls_hasher L) entry"
  defines "idx \<equiv> deref (ls_index s) h"
  shows "idx_Last idx = None \<Longrightarrow> n = idx_Count idx \<and> r = Some ErrEntryNotFound \<and> s' = s"
    and "idx_Last idx \<noteq> None \<Longrightarrow> els eid \<noteq> els (idx_Last idx) \<Longrightarrow>
      n = -1 \<and> r = Some errNotLastEntry \<and> s' = s"
    and "idx_Last idx \<noteq> None \<Longrightarrow> els eid = els (idx_Last idx) \<Longrightarrow> cont s (els eid) \<noteq> None \<Longrightarrow>
      r = None \<and> n = idx_Count idx - 1 \<and> st_ok s' \<and> cont s' = (cont s)(els eid := None) \<and>
      ref_of s' = ref_of s \<and>
      (\<exists>lt. idx_of s' = (idx_of s)(k \<mapsto> snd (idx_Rollback lt idx)))"
proof -
  have ok: "es_ok (ls_entries s)" "is_ok (ls_index s)" using assms(1) by simp_all
  have live: "h \<in> live (ls_index s)" using assms(1,2) by (rule ref_live)
  have rd: "KI_Last (keylog_if L) h (ls_index s) = idx_Last idx"
    "KI_Count (keylog_if L) h (ls_index s) = idx_Count idx"
    using ix.KI_reads [OF ok(2) live] by (simp_all add: idx_def)
  note unf = Keylog_RollbackEntry_def Let_def eid_def [symmetric] rd
  show "n = idx_Count idx \<and> r = Some ErrEntryNotFound \<and> s' = s" if "idx_Last idx = None"
    using assms(3) that by (simp add: unf)
  show "n = -1 \<and> r = Some errNotLastEntry \<and> s' = s"
    if "idx_Last idx \<noteq> None" "els eid \<noteq> els (idx_Last idx)"
    using assms(3) that by (simp add: unf)
  assume last: "idx_Last idx \<noteq> None" "els eid = els (idx_Last idx)" "cont s (els eid) \<noteq> None"
  obtain es where es: "ES_Delete (entries_if L) eid (ls_entries s) = (None, es)"
    using es.Delete_err [OF ok(1), of eid] last(3) by (metis prod.collapse)
  define lt where "lt = (case ES_Get (entries_if L) (Previous entry) es of Inr prev \<Rightarrow> LTime prev | Inl _ \<Rightarrow> 0)"
  obtain nb ix where ix: "KI_Rollback (keylog_if L) h lt (ls_index s) = (nb, ix)"
    by (metis prod.collapse)
  have res: "nb = fst (idx_Rollback lt idx)"
    using ix.Rollback_res [OF ok(2) live, of lt] ix by (simp add: idx_def)
  have "(n, r) = (fst nb, None)" and s': "s' = s\<lparr>ls_entries := es, ls_index := ix\<rparr>"
    using assms(3) last es ix by (auto simp: unf lt_def [symmetric] split: prod.splits)
  then have "r = None" "n = idx_Count idx - 1"
    using last(1) res by (auto simp: idx_Rollback_cases idx_Last_conv split: if_splits)
  moreover have "st_ok s'" "ref_of s' = ref_of s"
    using ix.Rollback_frame [OF ok(2) live, of lt] ix es.Delete_ok [OF ok(1), of eid] es s' by auto
  moreover have "cont s' = (cont s)(els eid := None)"
    using es.Delete_contents [OF ok(1), of eid] es s' by simp
  moreover have "idx_of s' = (idx_of s)(k \<mapsto> snd (idx_Rollback lt idx))"
    using ix.view_Rollback [OF ok(2) assms(2), of lt] ix s' by (simp add: idx_def)
  ultimately show "r = None \<and> n = idx_Count idx - 1 \<and> st_ok s' \<and> cont s' = (cont s)(els eid := None) \<and>
      ref_of s' = ref_of s \<and>
      (\<exists>lt. idx_of s' = (idx_of s)(k \<mapsto> snd (idx_Rollback lt idx)))"
    by blast
qed

end

interpretation mem_ls: log_stores "mem_log h" mem_contents mem_es_ok mem_lookup is_heap mem_live mem_is_ok
  for h
  by (intro log_stores.intro) (simp_all add: mem_es.entry_store_axioms mem_is.index_store_axioms)

end
