(* ===== verification/Log_Store.thy ===== *)
theory Log_Store
  imports Keylog
begin

section \<open>The log store (logstore.go)\<close>

text \<open>
  All the keylogs of a node over its two stores. The operations come first, as the code
  has them; then the specification, a map from keys to lists of entries linked by their
  hashes, and the proof that the operations implement it and keep the stores consistent.
  Closing a keylog has no effect on the in-memory index; the calls are kept where the code
  makes them.
\<close>

record Stats =
  st_Keys :: int
  st_Entries :: int
  st_Ballots :: int
  st_Proposals :: int
  st_Commits :: int
  st_Heals :: int

definition NewLogStore ::
  "'e EntryStore \<Rightarrow> ('i, 'h) IndexStore \<Rightarrow> ('i, 'h) KeylogIndex \<Rightarrow> hash_fn \<Rightarrow> ('e, 'i, 'h) LogStore" where
  "NewLogStore entries index keylogs hasher =
     \<lparr>entries_if = entries, index_if = index, keylog_if = keylogs,
      ls_hasher = hasher, ls_hashSize = Size hasher\<rparr>"

definition LogStore_NewKey ::
  "('e, 'i, 'h) LogStore \<Rightarrow> bytes \<Rightarrow> ('e, 'i) LogState \<Rightarrow> (error + 'h) \<times> ('e, 'i) LogState" where
  "LogStore_NewKey L key s =
     (case IS_NewKey (index_if L) key (ls_index s) of
        (Inr idx, ix) \<Rightarrow> (Inr idx, s\<lparr>ls_index := ix\<rparr>)
      | (Inl err, ix) \<Rightarrow> (Inl err, s\<lparr>ls_index := ix\<rparr>))"

definition LogStore_GetKey ::
  "('e, 'i, 'h) LogStore \<Rightarrow> bytes \<Rightarrow> ('e, 'i) LogState \<Rightarrow> error + 'h" where
  "LogStore_GetKey L key s = IS_GetKey (index_if L) key (ls_index s)"

text \<open>The callback of \<open>RemoveKey\<close>: a failed deletion is only logged.\<close>

fun RemoveKey_callback ::
  "('e, 'i, 'h) LogStore \<Rightarrow> bytes \<Rightarrow> Entry \<Rightarrow> ('e, 'i) LogState \<times> unit \<Rightarrow>
   error option \<times> ('e, 'i) LogState \<times> unit" where
  "RemoveKey_callback L eid entry (s, u) =
     (None, s\<lparr>ls_entries := snd (ES_Delete (entries_if L) eid (ls_entries s))\<rparr>, u)"

definition LogStore_RemoveKey ::
  "('e, 'i, 'h) LogStore \<Rightarrow> bytes \<Rightarrow> ('e, 'i) LogState \<Rightarrow> error option \<times> ('e, 'i) LogState" where
  "LogStore_RemoveKey L key s =
     (case LogStore_GetKey L key s of
        Inl err \<Rightarrow> (Some err, s)
      | Inr kl \<Rightarrow>
          (case IS_RemoveKey (index_if L) key (ls_index s) of
             (Some err, ix) \<Rightarrow> (Some err, snd (Keylog_Close L kl (s\<lparr>ls_index := ix\<rparr>)))
           | (None, ix) \<Rightarrow>
               (case Keylog_Iter L kl None (RemoveKey_callback L) (s\<lparr>ls_index := ix\<rparr>, ()) of
                  (err, s, _) \<Rightarrow> (err, snd (Keylog_Close L kl s)))))"

definition LogStore_GetEntry ::
  "('e, 'i, 'h) LogStore \<Rightarrow> bytes \<Rightarrow> bytes \<Rightarrow> ('e, 'i) LogState \<Rightarrow> error + Entry" where
  "LogStore_GetEntry L key eid s = ES_Get (entries_if L) eid (ls_entries s)"

definition LogStore_LastEntry ::
  "('e, 'i, 'h) LogStore \<Rightarrow> bytes \<Rightarrow> ('e, 'i) LogState \<Rightarrow> Entry option" where
  "LogStore_LastEntry L key s =
     (case IS_GetKey (index_if L) key (ls_index s) of
        Inl _ \<Rightarrow> None
      | Inr idx \<Rightarrow>
          (let lh = KI_Last (keylog_if L) idx (ls_index s)
           in if lh = None then None
              else (case ES_Get (entries_if L) lh (ls_entries s) of
                      Inl _ \<Rightarrow> None
                    | Inr entry \<Rightarrow> Some entry)))"

text \<open>\<open>now\<close> is \<open>time.Now().UnixNano()\<close>.\<close>

definition LogStore_NewEntry ::
  "('e, 'i, 'h) LogStore \<Rightarrow> int \<Rightarrow> bytes \<Rightarrow> ('e, 'i) LogState \<Rightarrow> Entry" where
  "LogStore_NewEntry L now key s =
     (let (prev, height) =
            (case IS_GetKey (index_if L) key (ls_index s) of
               Inr idx \<Rightarrow> (KI_Last (keylog_if L) idx (ls_index s),
                           word_of_int (KI_Count (keylog_if L) idx (ls_index s) + 1))
             | Inl _ \<Rightarrow> (None, 0));
          (prev, height) =
            (if prev = None then (make_bytes (ls_hashSize L), 1) else (prev, height))
      in zero_Entry\<lparr>Key := key, Previous := prev, Height := height,
           Timestamp := word_of_int now\<rparr>)"

definition LogStore_RollbackEntry ::
  "('e, 'i, 'h) LogStore \<Rightarrow> Entry \<Rightarrow> ('e, 'i) LogState \<Rightarrow> error option \<times> ('e, 'i) LogState" where
  "LogStore_RollbackEntry L entry s =
     (case LogStore_GetKey L (Key entry) s of
        Inl err \<Rightarrow> (Some err, s)
      | Inr kl \<Rightarrow>
          (case Keylog_RollbackEntry L kl entry s of
             ((c, err), s) \<Rightarrow>
               (let s = (if c = 0 then snd (LogStore_RemoveKey L (Key entry) s) else s)
                in (err, snd (Keylog_Close L kl s)))))"

definition LogStore_AppendEntry ::
  "('e, 'i, 'h) LogStore \<Rightarrow> Entry \<Rightarrow> ('e, 'i) LogState \<Rightarrow> error option \<times> ('e, 'i) LogState" where
  "LogStore_AppendEntry L entry s =
     (case LogStore_GetKey L (Key entry) s of
        Inr kl \<Rightarrow>
          (case Keylog_AppendEntry L kl entry s of
             (err, s) \<Rightarrow> (err, snd (Keylog_Close L kl s)))
      | Inl err \<Rightarrow> (Some err, s))"

definition KeySeed_of :: "('e, 'i, 'h) LogStore \<Rightarrow> ('e, 'i) LogState \<Rightarrow> bytes \<times> 'h \<Rightarrow> KeySeed" where
  "KeySeed_of L s kv =
     (case kv of (key, kli) \<Rightarrow>
        (let idx = KI_Index (keylog_if L) kli (ls_index s);
             marker = idx_Marker idx;
             marker = (if marker = None then idx_Last idx else marker)
         in \<lparr>seed_Key = key, seed_Height = KI_Height (keylog_if L) kli (ls_index s),
             seed_Marker = marker, seed_LTime = idx_LTime idx\<rparr>))"

definition LogStore_IterKeySeed ::
  "('e, 'i, 'h) LogStore \<Rightarrow> (KeySeed \<Rightarrow> 'u \<Rightarrow> error option \<times> 'u) \<Rightarrow> ('e, 'i) LogState \<Rightarrow>
   'u \<Rightarrow> error option \<times> 'u" where
  "LogStore_IterKeySeed L f s u =
     for_each (\<lambda>kv u. f (KeySeed_of L s kv) u) (IS_visits (index_if L) (ls_index s)) u"

definition LogStore_Stats :: "('e, 'i, 'h) LogStore \<Rightarrow> ('e, 'i) LogState \<Rightarrow> Stats" where
  "LogStore_Stats L s =
     \<lparr>st_Keys = IS_Count (index_if L) (ls_index s), st_Entries = ES_Count (entries_if L) (ls_entries s),
      st_Ballots = 0, st_Proposals = 0, st_Commits = 0, st_Heals = 0\<rparr>"

subsection \<open>The specification\<close>

text \<open>
  Abstractly a log store holds a list of entries per key, oldest first. An entry is
  accepted when its previous hash is that of the last entry, or zero in an empty log.
\<close>

type_synonym logs = "byte list \<rightharpoonup> Entry list"

definition accepts :: "hash_fn \<Rightarrow> Entry list \<Rightarrow> Entry \<Rightarrow> bool" where
  "accepts H es e \<longleftrightarrow>
     (if es = [] then isZeroBytes (Previous e) else els (Entry_Hash H (last es)) = els (Previous e))"

definition spec_NewKey :: "bytes \<Rightarrow> logs \<Rightarrow> error option \<times> logs" where
  "spec_NewKey key l =
     (if l (els key) = None then (None, l(els key \<mapsto> [])) else (Some ErrKeyExists, l))"

definition spec_AppendEntry :: "hash_fn \<Rightarrow> Entry \<Rightarrow> logs \<Rightarrow> error option \<times> logs" where
  "spec_AppendEntry H e l =
     (case l (els (Key e)) of
        None \<Rightarrow> (Some ErrKeyNotFound, l)
      | Some es \<Rightarrow>
          if accepts H es e then (None, l(els (Key e) \<mapsto> es @ [e])) else (Some ErrPreviousHash, l))"

definition spec_RemoveKey :: "bytes \<Rightarrow> logs \<Rightarrow> error option \<times> logs" where
  "spec_RemoveKey key l =
     (if l (els key) = None then (Some ErrKeyNotFound, l) else (None, l(els key := None)))"

definition spec_RollbackEntry :: "hash_fn \<Rightarrow> Entry \<Rightarrow> logs \<Rightarrow> error option \<times> logs" where
  "spec_RollbackEntry H e l =
     (case l (els (Key e)) of
        None \<Rightarrow> (Some ErrKeyNotFound, l)
      | Some es \<Rightarrow>
          if es = [] then (Some ErrEntryNotFound, l(els (Key e) := None))
          else if els (Entry_Hash H e) \<noteq> els (Entry_Hash H (last es)) then (Some errNotLastEntry, l)
          else (None, l(els (Key e) := (if butlast es = [] then None else Some (butlast es)))))"

text \<open>
  The concrete side: contents \<open>C\<close> of the entry store and indexes \<open>V\<close> of the keys. The
  stores are consistent when every index is well formed and its ids are a hash chain of
  stored entries of its key.
\<close>

definition abs_logs :: "(byte list \<rightharpoonup> Entry) \<Rightarrow> (byte list \<rightharpoonup> UnsafeKeylogIndex) \<Rightarrow> logs" where
  "abs_logs C V = (\<lambda>k. map_option (\<lambda>idx. map (\<lambda>i. the (C (els i))) (idx_Entries idx)) (V k))"

definition log_ok ::
  "hash_fn \<Rightarrow> Entry set \<Rightarrow> (byte list \<rightharpoonup> Entry) \<Rightarrow> (byte list \<rightharpoonup> UnsafeKeylogIndex) \<Rightarrow> bool" where
  "log_ok H U C V \<longleftrightarrow> ran C \<subseteq> U \<and>
     (\<forall>k idx. V k = Some idx \<longrightarrow>
        idx_ok idx \<and> els (idx_Key idx) = k \<and> chained H C k None (idx_Entries idx))"

lemma log_okD:
  assumes "log_ok H U C V" and "V k = Some idx"
  shows "ran C \<subseteq> U" "idx_ok idx" "els (idx_Key idx) = k" "chained H C k None (idx_Entries idx)"
  using assms by (simp_all add: log_ok_def)

lemma abs_logs_apply: "V k = Some idx \<Longrightarrow>
    abs_logs C V k = Some (map (\<lambda>i. the (C (els i))) (idx_Entries idx))"
  by (simp add: abs_logs_def)

lemma abs_logs_apply_None: "V k = None \<Longrightarrow> abs_logs C V k = None"
  by (simp add: abs_logs_def)

lemma abs_logs_None_iff [simp]: "abs_logs C V k = None \<longleftrightarrow> V k = None"
  by (simp add: abs_logs_def)

text \<open>In consistent stores the last id of an index is the hash of the last entry of its log.\<close>

lemma last_id_hash:
  assumes "chained H C k None ids" and "ids \<noteq> []"
  shows "Entry_Hash H (last (map (\<lambda>i. the (C (els i))) ids)) = last ids"
  using chained_memD [OF assms(1), of "last ids"] assms(2) by (auto simp: last_map)

lemma follows_iff_accepts:
  assumes "hash_fn_ok H" and "chained H C k None (idx_Entries idx)"
  shows "follows (Previous e) idx \<longleftrightarrow> accepts H (map (\<lambda>i. the (C (els i))) (idx_Entries idx)) e"
proof (cases "idx_Entries idx = []")
  case True
  then show ?thesis by (simp add: follows_def accepts_def idx_Last_conv)
next
  case False
  moreover have "last (idx_Entries idx) \<noteq> None"
    using chained_not_nil [OF assms] False by simp
  ultimately show ?thesis
    using last_id_hash [OF assms(2) False] by (auto simp: follows_def accepts_def idx_Last_conv)
qed

lemma follows_links:
  assumes "hash_fn_ok H" and "chained H C k None (idx_Entries idx)"
  shows "follows (Previous e) idx \<longleftrightarrow> links (tip None (idx_Entries idx)) e"
proof (cases "idx_Entries idx = []")
  case True
  then show ?thesis by (simp add: follows_def links_def idx_Last_conv)
next
  case False
  then have "last (idx_Entries idx) \<noteq> None"
    using chained_not_nil [OF assms, of "last (idx_Entries idx)"] by simp
  with False show ?thesis by (auto simp: follows_def links_def tip_def idx_Last_conv)
qed

text \<open>How the abstract logs change with the contents and the indexes.\<close>

lemma log_ok_store:
  assumes "good_hash H U" and "log_ok H U C V" and "e \<in> U"
  shows "log_ok H U (C(els (Entry_Hash H e) \<mapsto> e)) V"
    and "abs_logs (C(els (Entry_Hash H e) \<mapsto> e)) V = abs_logs C V"
proof -
  let ?C = "C(els (Entry_Hash H e) \<mapsto> e)"
  have U: "ran C \<subseteq> U" using assms(2) by (simp add: log_ok_def)
  have "ran ?C \<subseteq> insert e (ran C)" by (auto simp: ran_def)
  with U assms(3) have "ran ?C \<subseteq> U" by blast
  then show "log_ok H U ?C V"
    using assms(2) chained_store [OF assms(1) U assms(3)] by (simp add: log_ok_def)
  show "abs_logs ?C V = abs_logs C V"
  proof
    fix k
    show "abs_logs ?C V k = abs_logs C V k"
    proof (cases "V k")
      case (Some idx)
      note ch = log_okD(4) [OF assms(2) Some]
      show ?thesis
        using Some store_same [OF assms(1) U assms(3) ch] by (auto simp: abs_logs_def)
    qed (simp add: abs_logs_def)
  qed
qed

lemma log_ok_upd:
  assumes "log_ok H U C V" and "idx_ok idx" and "els (idx_Key idx) = k"
    and "chained H C k None (idx_Entries idx)"
  shows "log_ok H U C (V(k \<mapsto> idx))"
    and "abs_logs C (V(k \<mapsto> idx)) = (abs_logs C V)(k \<mapsto> map (\<lambda>i. the (C (els i))) (idx_Entries idx))"
  using assms by (auto simp: log_ok_def abs_logs_def)

lemma log_ok_drop:
  assumes "log_ok H U C V"
  shows "log_ok H U C (V(k := None))" and "abs_logs C (V(k := None)) = (abs_logs C V)(k := None)"
  using assms by (auto simp: log_ok_def abs_logs_def)

text \<open>Entries of one key can be deleted when no index of another key is touched.\<close>

lemma log_ok_delete:
  assumes ok: "log_ok H U C V" and "V k = None"
    and D: "\<And>x. x \<in> D \<Longrightarrow> \<exists>e. C x = Some e \<and> els (Key e) = k"
  defines "C' \<equiv> (\<lambda>x. if x \<in> D then None else C x)"
  shows "log_ok H U C' V" and "abs_logs C' V = abs_logs C V"
proof -
  have same: "C' (els i) = C (els i)" if "V k' = Some idx" "i \<in> set (idx_Entries idx)" for k' idx i
  proof -
    from that(1) assms(2) have "k' \<noteq> k" by auto
    with chained_memD [OF log_okD(4) [OF ok that(1)] that(2)] D [of "els i"] show ?thesis
      by (auto simp: C'_def)
  qed
  have "ran C' \<subseteq> ran C" by (auto simp: C'_def ran_def split: if_splits)
  then show "log_ok H U C' V"
    using ok same by (auto simp: log_ok_def cong: chained_cong)
  show "abs_logs C' V = abs_logs C V"
    using same by (auto simp: abs_logs_def fun_eq_iff split: option.splits intro!: option.map_cong)
qed

subsection \<open>The operations implement the specification\<close>

context log_stores
begin

abbreviation good :: "Entry set \<Rightarrow> ('e, 'i) LogState \<Rightarrow> bool" where
  "good U s \<equiv> st_ok s \<and> log_ok (ls_hasher L) U (cont s) (idx_of s)"

abbreviation abs :: "('e, 'i) LogState \<Rightarrow> logs" where
  "abs s \<equiv> abs_logs (cont s) (idx_of s)"

lemma Close_noop: "st_ok s \<Longrightarrow> h \<in> live (ls_index s) \<Longrightarrow> Keylog_Close L h s = (None, s)"
  by (simp add: Keylog_Close_def ix.Close)

lemma LogStore_GetKey_eq:
  "st_ok s \<Longrightarrow> LogStore_GetKey L key s =
    (case ref_of s (els key) of None \<Rightarrow> Inl ErrKeyNotFound | Some h \<Rightarrow> Inr h)"
  by (simp add: LogStore_GetKey_def ix.GetKey)

lemma LogStore_LastEntry_eq:
  assumes "good U s" and "hash_fn_ok (ls_hasher L)"
  shows "LogStore_LastEntry L key s =
    (case abs s (els key) of None \<Rightarrow> None | Some es \<Rightarrow> if es = [] then None else Some (last es))"
proof (cases "ref_of s (els key)")
  case None
  with assms show ?thesis by (simp add: LogStore_LastEntry_def ix.GetKey abs_logs_apply_None)
next
  case (Some h)
  define idx where "idx = deref (ls_index s) h"
  from Some have V: "idx_of s (els key) = Some idx" by (simp add: idx_def)
  note ch = log_okD(4) [OF conjunct2 [OF assms(1)] V]
  have "KI_Last (keylog_if L) h (ls_index s) = idx_Last idx"
    using ix.KI_reads ref_live [OF _ Some] assms(1) unfolding idx_def by blast
  with assms(1) Some have eq: "LogStore_LastEntry L key s =
      (if idx_Last idx = None then None else cont s (els (idx_Last idx)))"
    by (auto simp: LogStore_LastEntry_def ix.GetKey es.Get Let_def split: option.split)
  show ?thesis
  proof (cases "idx_Entries idx = []")
    case True
    with eq V show ?thesis by (simp add: abs_logs_apply idx_Last_conv)
  next
    case False
    then have "last (idx_Entries idx) \<noteq> None"
      using chained_not_nil [OF assms(2) ch, of "last (idx_Entries idx)"] by simp
    moreover obtain e where "cont s (els (last (idx_Entries idx))) = Some e"
      using chained_memD [OF ch, of "last (idx_Entries idx)"] False by auto
    ultimately show ?thesis
      using eq V False by (simp add: abs_logs_apply idx_Last_conv last_map)
  qed
qed

lemma LogStore_NewKey_refines:
  assumes "good U s"
  shows "good U (snd (LogStore_NewKey L key s))"
    and "spec_NewKey key (abs s) =
      ((case fst (LogStore_NewKey L key s) of Inl e \<Rightarrow> Some e | Inr _ \<Rightarrow> None),
       abs (snd (LogStore_NewKey L key s)))"
    and "cont (snd (LogStore_NewKey L key s)) = cont s"
proof -
  have ok: "is_ok (ls_index s)" using assms by simp
  have "good U (snd (LogStore_NewKey L key s)) \<and> spec_NewKey key (abs s) =
      ((case fst (LogStore_NewKey L key s) of Inl e \<Rightarrow> Some e | Inr _ \<Rightarrow> None),
       abs (snd (LogStore_NewKey L key s))) \<and> cont (snd (LogStore_NewKey L key s)) = cont s"
  proof (cases "ref_of s (els key)")
    case (Some h)
    then have "IS_NewKey (index_if L) key (ls_index s) = (Inl ErrKeyExists, ls_index s)"
      using ix.NewKey_exists [OF ok] by simp
    with Some assms show ?thesis by (simp add: LogStore_NewKey_def spec_NewKey_def)
  next
    case None
    obtain h i' where n: "IS_NewKey (index_if L) key (ls_index s) = (Inr h, i')" "is_ok i'"
      using ix.NewKey_new [OF ok None] by blast
    have V: "ix.view i' = (idx_of s)(els key \<mapsto> NewUnsafeKeylogIndex key)"
      using ix.view_NewKey [OF ok None] n(1) by simp
    have "idx_of s (els key) = None" using None by simp
    with log_ok_upd [OF conjunct2 [OF assms], of "NewUnsafeKeylogIndex key" "els key"] n V assms
    show ?thesis by (simp add: LogStore_NewKey_def spec_NewKey_def)
  qed
  then show "good U (snd (LogStore_NewKey L key s))"
    and "spec_NewKey key (abs s) =
      ((case fst (LogStore_NewKey L key s) of Inl e \<Rightarrow> Some e | Inr _ \<Rightarrow> None),
       abs (snd (LogStore_NewKey L key s)))"
    and "cont (snd (LogStore_NewKey L key s)) = cont s"
    by blast+
qed

lemma LogStore_AppendEntry_refines:
  assumes H: "good_hash (ls_hasher L) U" and s: "good U s" and e: "e \<in> U"
    and r: "LogStore_AppendEntry L e s = (r, s')"
  shows "good U s'" and "spec_AppendEntry (ls_hasher L) e (abs s) = (r, abs s')"
proof -
  let ?H = "ls_hasher L" and ?k = "els (Key e)"
  have ok: "st_ok s" using s by blast
  have "good U s' \<and> spec_AppendEntry ?H e (abs s) = (r, abs s')"
  proof (cases "ref_of s ?k")
    case None
    with r s show ?thesis
      by (simp add: LogStore_AppendEntry_def LogStore_GetKey_eq spec_AppendEntry_def abs_logs_apply_None)
  next
    case (Some h)
    define idx where "idx = deref (ls_index s) h"
    have V: "idx_of s ?k = Some idx" using Some by (simp add: idx_def)
    note D = log_okD [OF conjunct2 [OF s] V]
    obtain r1 s1 where k: "Keylog_AppendEntry L h e s = (r1, s1)" by (metis prod.collapse)
    note eff = Keylog_AppendEntry_effect [OF ok Some k, folded idx_def]
    have "h \<in> live (ls_index s1)" using ref_live [OF eff(2)] eff(4) Some by simp
    with r k Some ok eff(2) have s': "s' = s1" "r = r1"
      by (simp_all add: LogStore_AppendEntry_def LogStore_GetKey_eq Close_noop)
    note V' = eff(5)
    note st = log_ok_store [OF H conjunct2 [OF s] e, folded eff(3)]
    have acc: "follows (Previous e) idx \<longleftrightarrow> accepts ?H (map (\<lambda>i. the (cont s (els i))) (idx_Entries idx)) e"
      using D(4) good_hash_ok [OF H] by (rule follows_iff_accepts [rotated])
    show ?thesis
    proof (cases "follows (Previous e) idx")
      case False
      then have "idx_of s1 = idx_of s" using V' V by (simp add: idx_Append_cases fun_upd_idem)
      with False st acc eff(1,2) s' V show ?thesis
        by (simp add: spec_AppendEntry_def idx_Append_cases abs_logs_apply)
    next
      case True
      let ?idx = "snd (idx_Append (Entry_Hash ?H e) (Previous e) (LTime e) idx)"
      have ents: "idx_Entries ?idx = idx_Entries idx @ [Entry_Hash ?H e]"
        using True by (simp add: idx_Append_cases)
      have chk: "chained ?H (cont s1) ?k None (idx_Entries idx)"
        using log_okD(4) [OF st(1) V] .
      have "links (tip None (idx_Entries idx)) e"
        using True follows_links [OF good_hash_ok [OF H] D(4)] by simp
      then have "chained ?H (cont s1) ?k None (idx_Entries ?idx)"
        using chk eff(3) by (simp add: ents)
      with D(2,3) have up: "log_ok ?H U (cont s1) (idx_of s1)"
        "abs s1 = (abs_logs (cont s1) (idx_of s))
          (?k \<mapsto> map (\<lambda>i. the (cont s1 (els i))) (idx_Entries idx) @ [e])"
        using log_ok_upd [OF st(1), of ?idx ?k] V' eff(3) ents by simp_all
      have "map (\<lambda>i. the (cont s1 (els i))) (idx_Entries idx) = map (\<lambda>i. the (cont s (els i))) (idx_Entries idx)"
        using fun_cong [OF st(2), of ?k] V by (simp add: abs_logs_apply)
      with up True acc st eff(1,2) s' V show ?thesis
        by (simp add: spec_AppendEntry_def idx_Append_cases abs_logs_apply)
    qed
  qed
  then show "good U s'" and "spec_AppendEntry ?H e (abs s) = (r, abs s')" by blast+
qed

text \<open>
  Removing a key first takes its index out of the store and then deletes the entries of the
  ids the removed index still lists. The loop deletes exactly those.
\<close>

lemma delete_loop:
  assumes "es_ok (ls_entries s)" and "distinct (map els ids)"
    and "\<And>i. i \<in> set ids \<Longrightarrow> cont s (els i) \<noteq> None"
  shows "\<exists>s'. for_each
      (\<lambda>eid su. case ES_Get (entries_if L) eid (ls_entries (fst su)) of
          Inl er \<Rightarrow> (Some er, su)
        | Inr entry \<Rightarrow> RemoveKey_callback L eid entry su)
      ids (s, u) = (None, s', u) \<and>
    es_ok (ls_entries s') \<and> ls_index s' = ls_index s \<and>
    cont s' = (\<lambda>x. if x \<in> els ` set ids then None else cont s x)"
  using assms
proof (induction ids arbitrary: s)
  case Nil
  then show ?case by simp
next
  case (Cons i ids)
  from Cons.prems(3) [of i] obtain e where e: "cont s (els i) = Some e" by auto
  let ?s = "s\<lparr>ls_entries := snd (ES_Delete (entries_if L) i (ls_entries s))\<rparr>"
  have c: "cont ?s = (cont s)(els i := None)" and ok: "es_ok (ls_entries ?s)"
    using es.Delete_contents es.Delete_ok Cons.prems(1) by simp_all
  have ex: "cont ?s (els j) \<noteq> None" if "j \<in> set ids" for j
  proof -
    have "els j \<noteq> els i" using that Cons.prems(2) by (metis distinct.simps(2) imageI list.map(2) list.set_map)
    then show ?thesis using Cons.prems(3) [of j] that c by simp
  qed
  have "distinct (map els ids)" using Cons.prems(2) by simp
  from Cons.IH [OF ok this ex] c show ?case
    using e Cons.prems(1) by (auto simp: es.Get fun_eq_iff)
qed

lemma LogStore_RemoveKey_effect:
  assumes nz: "good_hash (ls_hasher L) U" and s: "good U s"
    and r: "LogStore_RemoveKey L key s = (r, s')"
  shows "good U s'" and "spec_RemoveKey key (abs s) = (r, abs s')"
    and "cont s' = (\<lambda>x. if (case idx_of s (els key) of None \<Rightarrow> False
                           | Some idx \<Rightarrow> x \<in> els ` set (idx_Entries idx)) then None else cont s x)"
    and "live (ls_index s') = live (ls_index s)"
proof -
  let ?H = "ls_hasher L" and ?k = "els key"
  have ok: "es_ok (ls_entries s)" "is_ok (ls_index s)" and lo: "log_ok ?H U (cont s) (idx_of s)"
    using s by simp_all
  have "good U s' \<and> spec_RemoveKey key (abs s) = (r, abs s') \<and>
    cont s' = (\<lambda>x. if (case idx_of s (els key) of None \<Rightarrow> False
                           | Some idx \<Rightarrow> x \<in> els ` set (idx_Entries idx)) then None else cont s x) \<and>
    live (ls_index s') = live (ls_index s)"
  proof (cases "ref_of s ?k")
    case None
    with r s show ?thesis
      by (simp add: LogStore_RemoveKey_def LogStore_GetKey_eq spec_RemoveKey_def abs_logs_apply_None)
  next
    case (Some h)
    define idx where "idx = deref (ls_index s) h"
    have V: "idx_of s ?k = Some idx" using Some by (simp add: idx_def)
    note ch = log_okD(4) [OF lo V] and U = log_okD(1) [OF lo V]
    have live: "h \<in> live (ls_index s)" using ix.lookup_live [OF ok(2) Some] .
    obtain ix where ix: "IS_RemoveKey (index_if L) key (ls_index s) = (None, ix)"
      using ix.RemoveKey_err [OF ok(2), of key] Some by (metis option.distinct(1) prod.collapse)
    have fr: "deref ix = deref (ls_index s)" "live ix = live (ls_index s)" "is_ok ix"
      "ix.view ix = (idx_of s)(?k := None)"
      using ix.RemoveKey_frame [OF ok(2), of key] ix.view_RemoveKey [OF ok(2), of key] ix by simp_all
    have vis: "KI_visits (keylog_if L) h None ix = Inr (idx_Entries idx)"
      using ix.KI_reads [OF fr(3)] live fr(1,2) by (simp add: idx_def)
    have "distinct (idx_Entries idx)"
      using good_hash_ok [OF nz] good_hash_nonzero [OF nz] U ch by (intro chained_distinct) auto
    moreover have "inj_on els (set (idx_Entries idx))"
      using chained_els_inj [OF good_hash_ok [OF nz] ch ch] by (auto simp: inj_on_def)
    ultimately have di: "distinct (map els (idx_Entries idx))" by (simp add: distinct_map)
    have ex: "cont (s\<lparr>ls_index := ix\<rparr>) (els i) \<noteq> None" if "i \<in> set (idx_Entries idx)" for i
      using chained_memD [OF ch that] by auto
    have "es_ok (ls_entries (s\<lparr>ls_index := ix\<rparr>))" using ok(1) by simp
    from delete_loop [OF this di ex, of "()"] obtain s2 where s2:
      "Keylog_Iter L h None (RemoveKey_callback L) (s\<lparr>ls_index := ix\<rparr>, ()) = (None, s2, ())"
      "es_ok (ls_entries s2)" "ls_index s2 = ix"
      "cont s2 = (\<lambda>x. if x \<in> els ` set (idx_Entries idx) then None else cont s x)"
      by (auto simp: Keylog_Iter_def vis cong: if_cong)
    have "Keylog_Close L h s2 = (None, s2)"
      using s2(2,3) fr(2,3) live by (intro Close_noop) auto
    with r s2 Some ok ix have rs: "r = None" "s' = s2"
      by (auto simp: LogStore_RemoveKey_def LogStore_GetKey_eq)
    have "\<exists>e. cont s x = Some e \<and> els (Key e) = ?k" if "x \<in> els ` set (idx_Entries idx)" for x
      using that chained_memD [OF ch] by fast
    note del = log_ok_delete [OF log_ok_drop(1) [OF lo, of ?k], of ?k, OF _ this, folded s2(4)]
    from del log_ok_drop(2) [OF lo, of ?k] s2 fr rs V show ?thesis
      by (simp add: spec_RemoveKey_def)
  qed
  then show "good U s'" and "spec_RemoveKey key (abs s) = (r, abs s')"
    and "cont s' = (\<lambda>x. if (case idx_of s (els key) of None \<Rightarrow> False
                           | Some idx \<Rightarrow> x \<in> els ` set (idx_Entries idx)) then None else cont s x)"
    and "live (ls_index s') = live (ls_index s)"
    by blast+
qed

text \<open>The stores after the last entry of a key has been rolled back.\<close>

lemma log_ok_rollback:
  assumes H: "good_hash H U" and lo: "log_ok H U C V" and V: "V k = Some idx"
    and ne: "idx_Entries idx \<noteq> []"
  shows "log_ok H U (C(els (last (idx_Entries idx)) := None)) (V(k \<mapsto> snd (idx_Rollback lt idx)))"
    and "abs_logs (C(els (last (idx_Entries idx)) := None)) (V(k \<mapsto> snd (idx_Rollback lt idx))) =
      (abs_logs C V)(k \<mapsto> butlast (map (\<lambda>i. the (C (els i))) (idx_Entries idx)))"
proof -
  let ?ids = "idx_Entries idx" and ?idx = "snd (idx_Rollback lt idx)"
  let ?C = "C(els (last ?ids) := None)"
  note D = log_okD [OF lo V]
  have ids: "?ids = butlast ?ids @ [last ?ids]" using ne by simp
  have inj1: "inj_on els (set ?ids)"
    by (rule inj_onI) (rule chained_els_inj [OF good_hash_ok [OF H] D(4,4)])
  have inj2: "distinct ?ids"
    using good_hash_nonzero [OF H] D(1)
    by (intro chained_distinct [OF good_hash_ok [OF H] _ D(4)]) blast
  note inj = inj1 inj2
  have "distinct (butlast ?ids @ [last ?ids])" using inj(2) ids by simp
  then have notin: "last ?ids \<notin> set (butlast ?ids)" by simp
  have same: "?C (els i) = C (els i)" if "i \<in> set (butlast ?ids)" for i
    using that notin in_set_butlastD [OF that] ne inj(1) by (auto dest: inj_onD)
  have ents: "idx_Entries ?idx = butlast ?ids" "els (idx_Key ?idx) = k"
    using D(3) ne by (simp_all add: idx_Rollback_cases)
  have iok: "idx_ok ?idx" using D(2) by (rule idx_ok_Rollback)
  have sub: "\<exists>e. C x = Some e \<and> els (Key e) = k" if "x \<in> {els (last ?ids)}" for x
    using that chained_memD [OF D(4), of "last ?ids"] ne by auto
  have C': "?C = (\<lambda>x. if x \<in> {els (last ?ids)} then None else C x)" by (auto simp: fun_eq_iff)
  note lod = log_ok_drop(1) [OF lo, of k]
  have del1: "log_ok H U ?C (V(k := None))"
    unfolding C' by (rule log_ok_delete(1) [OF lod _ sub]) simp_all
  have del2: "abs_logs ?C (V(k := None)) = abs_logs C (V(k := None))"
    unfolding C' by (rule log_ok_delete(2) [OF lod _ sub]) simp_all
  have "chained H C k None (butlast ?ids)" using D(4) ids by (metis chained_append)
  then have "chained H ?C k None (butlast ?ids)"
    using chained_cong [of "butlast ?ids" C ?C] same by simp
  then have ch: "chained H ?C k None (idx_Entries ?idx)" using ents by simp
  have "els (idx_Key ?idx) = k" using ents by simp
  note up = log_ok_upd [OF del1 iok this ch]
  show "log_ok H U ?C (V(k \<mapsto> ?idx))" using up(1) by (simp only: fun_upd_upd)
  have "map (\<lambda>i. the (?C (els i))) (butlast ?ids) = map (\<lambda>i. the (C (els i))) (butlast ?ids)"
    using same by (intro map_cong) simp_all
  then show "abs_logs ?C (V(k \<mapsto> ?idx)) =
      (abs_logs C V)(k \<mapsto> butlast (map (\<lambda>i. the (C (els i))) ?ids))"
    using up(2) del2 log_ok_drop(2) [OF lo, of k] ents(1) by (simp only: map_butlast fun_upd_upd)
qed

lemma LogStore_RollbackEntry_refines:
  assumes H: "good_hash (ls_hasher L) U" and s: "good U s"
    and r: "LogStore_RollbackEntry L e s = (r, s')"
  shows "good U s'" and "spec_RollbackEntry (ls_hasher L) e (abs s) = (r, abs s')"
proof -
  let ?H = "ls_hasher L" and ?k = "els (Key e)"
  have ok: "st_ok s" and lo: "log_ok ?H U (cont s) (idx_of s)" using s by simp_all
  have "good U s' \<and> spec_RollbackEntry ?H e (abs s) = (r, abs s')"
  proof (cases "ref_of s ?k")
    case None
    with r s show ?thesis
      by (simp add: LogStore_RollbackEntry_def LogStore_GetKey_eq spec_RollbackEntry_def abs_logs_apply_None)
  next
    case (Some h)
    define idx where "idx = deref (ls_index s) h"
    have V: "idx_of s ?k = Some idx" using Some by (simp add: idx_def)
    note D = log_okD [OF lo V]
    have live: "h \<in> live (ls_index s)" using ref_live [OF ok Some] .
    obtain n r1 s1 where k: "Keylog_RollbackEntry L h e s = ((n, r1), s1)" by (metis prod.collapse)
    note eff = Keylog_RollbackEntry_effect [OF ok Some k, folded idx_def]
    obtain r2 s2 where rm: "LogStore_RemoveKey L (Key e) s1 = (r2, s2)" by (metis prod.collapse)
    have fin: "r = r1" "s' = snd (Keylog_Close L h (if n = 0 then s2 else s1))"
      using r k rm Some ok by (auto simp: LogStore_RollbackEntry_def LogStore_GetKey_eq Let_def)
    consider "idx_Entries idx = []"
      | "idx_Entries idx \<noteq> []" "els (Entry_Hash ?H e) \<noteq> els (last (idx_Entries idx))"
      | "idx_Entries idx \<noteq> []" "els (Entry_Hash ?H e) = els (last (idx_Entries idx))"
      by blast
    then show ?thesis
    proof cases
      case 1
      then have e1: "n = 0" "r1 = Some ErrEntryNotFound" "s1 = s"
        using eff(1) by (simp_all add: idx_Last_conv idx_Count_def)
      note rme = LogStore_RemoveKey_effect [OF H s rm [unfolded e1(3)]]
      have "Keylog_Close L h s2 = (None, s2)" using rme(1,4) live by (intro Close_noop) auto
      with rme fin e1 1 V show ?thesis
        by (simp add: spec_RollbackEntry_def spec_RemoveKey_def abs_logs_apply split: if_splits)
    next
      case 2
      have nn: "last (idx_Entries idx) \<noteq> None"
        using chained_not_nil [OF good_hash_ok [OF H] D(4)] 2(1) by simp
      with 2 have e1: "n = -1" "r1 = Some errNotLastEntry" "s1 = s"
        using eff(2) by (auto simp: idx_Last_conv)
      with fin live ok have "s' = s" by (simp add: Close_noop)
      moreover have "els (Entry_Hash ?H (last (map (\<lambda>i. the (cont s (els i))) (idx_Entries idx))))
          = els (last (idx_Entries idx))"
        using last_id_hash [OF D(4) 2(1)] by simp
      ultimately show ?thesis
        using s fin e1 2 V by (simp add: spec_RollbackEntry_def abs_logs_apply)
    next
      case 3
      have nn: "last (idx_Entries idx) \<noteq> None"
        using chained_not_nil [OF good_hash_ok [OF H] D(4)] 3(1) by simp
      have "cont s (els (Entry_Hash ?H e)) \<noteq> None"
        using chained_memD [OF D(4), of "last (idx_Entries idx)"] 3 by auto
      with 3 nn eff(3) obtain lt where e1: "r1 = None" "n = idx_Count idx - 1" "st_ok s1"
        "cont s1 = (cont s)(els (last (idx_Entries idx)) := None)" "ref_of s1 = ref_of s"
        "idx_of s1 = (idx_of s)(?k \<mapsto> snd (idx_Rollback lt idx))"
        by (auto simp: idx_Last_conv)
      let ?es = "map (\<lambda>i. the (cont s (els i))) (idx_Entries idx)"
      note rb = log_ok_rollback [OF H lo V 3(1), of lt, folded e1(4,6)]
      have s1: "good U s1" "abs s1 = (abs s)(?k \<mapsto> butlast ?es)" using rb e1(3) by simp_all
      have spec: "spec_RollbackEntry ?H e (abs s) =
          (None, (abs s)(?k := (if butlast ?es = [] then None else Some (butlast ?es))))"
        using 3 V last_id_hash [OF D(4) 3(1)] by (simp add: spec_RollbackEntry_def abs_logs_apply)
      have n0: "n = 0 \<longleftrightarrow> butlast ?es = []"
        using e1(2) 3(1) by (cases "idx_Entries idx" rule: rev_cases) (auto simp: idx_Count_def)
      have l1: "h \<in> live (ls_index s1)" using ref_live [OF e1(3)] e1(5) Some by simp
      show ?thesis
      proof (cases "n = 0")
        case False
        with fin l1 e1(1,3) s1 spec n0 show ?thesis by (simp add: Close_noop)
      next
        case True
        note rme = LogStore_RemoveKey_effect [OF H s1(1) rm]
        have "Keylog_Close L h s2 = (None, s2)" using rme(1,4) l1 by (intro Close_noop) auto
        with rme(1,2) fin True e1(1) s1 spec n0 show ?thesis
          by (simp add: spec_RemoveKey_def)
      qed
    qed
  qed
  then show "good U s'" and "spec_RollbackEntry ?H e (abs s) = (r, abs s')" by blast+
qed

end

end
