(* ===== verification/Log_Runs.thy ===== *)
theory Log_Runs
  imports Log_Store
begin

section \<open>Log stores in use\<close>

text \<open>
  The properties of the log store over the in-memory stores hexalog ships: sequences of
  calls from empty stores, the refinement of the specification along them, and what the
  hash chain gives to two nodes that compare their logs.
\<close>

definition mem_empty :: mem_state where
  "mem_empty = \<lparr>ls_entries = NewInMemEntryStore, ls_index = NewInMemIndexStore\<rparr>"

text \<open>The logs a state stands for, and the consistency of its two stores.\<close>

definition mem_logs :: "mem_state \<Rightarrow> logs" where
  "mem_logs s = abs_logs (mem_contents (ls_entries s)) (mem_view (ls_index s))"

definition mem_good :: "hash_fn \<Rightarrow> Entry set \<Rightarrow> mem_state \<Rightarrow> bool" where
  "mem_good H U s \<longleftrightarrow> mem_es_ok (ls_entries s) \<and> mem_is_ok (ls_index s) \<and>
     log_ok H U (mem_contents (ls_entries s)) (mem_view (ls_index s))"

lemma mem_good_iff:
  "mem_good H U s \<longleftrightarrow> (mem_es_ok (ls_entries s) \<and> mem_is_ok (ls_index s)) \<and>
     log_ok (ls_hasher (mem_log H)) U (mem_contents (ls_entries s)) (mem_view (ls_index s))"
  by (simp add: mem_good_def)

lemma mem_good_empty [simp]: "mem_good H U mem_empty"
  by (simp add: mem_good_def mem_empty_def log_ok_def NewInMemEntryStore_def NewInMemIndexStore_def
      index_view_def mem_is_ok_def mem_es_ok_def)

lemma mem_logs_empty [simp]: "mem_logs mem_empty = Map.empty"
  by (simp add: mem_logs_def mem_empty_def abs_logs_def NewInMemIndexStore_def index_view_def fun_eq_iff)

text \<open>The facts of the library, over these two notions.\<close>

lemma mem_NewKey:
  assumes "mem_good H U s"
  shows "mem_good H U (snd (LogStore_NewKey (mem_log H) key s))"
    and "spec_NewKey key (mem_logs s) =
      ((case fst (LogStore_NewKey (mem_log H) key s) of Inl e \<Rightarrow> Some e | Inr _ \<Rightarrow> None),
       mem_logs (snd (LogStore_NewKey (mem_log H) key s)))"
  using mem_ls.LogStore_NewKey_refines [OF assms [unfolded mem_good_iff]]
  unfolding mem_good_iff mem_logs_def by blast+

lemma mem_AppendEntry:
  assumes "good_hash H U" "mem_good H U s" "e \<in> U"
  shows "mem_good H U (snd (LogStore_AppendEntry (mem_log H) e s))"
    and "spec_AppendEntry H e (mem_logs s) =
      (fst (LogStore_AppendEntry (mem_log H) e s), mem_logs (snd (LogStore_AppendEntry (mem_log H) e s)))"
  using mem_ls.LogStore_AppendEntry_refines [where h = H, OF _ assms(2) [unfolded mem_good_iff] assms(3)
      prod.collapse [symmetric]] assms(1)
  unfolding mem_good_iff mem_logs_def by simp_all

lemma mem_RemoveKey:
  assumes "good_hash H U" "mem_good H U s"
  shows "mem_good H U (snd (LogStore_RemoveKey (mem_log H) key s))"
    and "spec_RemoveKey key (mem_logs s) =
      (fst (LogStore_RemoveKey (mem_log H) key s), mem_logs (snd (LogStore_RemoveKey (mem_log H) key s)))"
  using mem_ls.LogStore_RemoveKey_effect [where h = H, OF _ assms(2) [unfolded mem_good_iff]
      prod.collapse [symmetric]] assms(1)
  unfolding mem_good_iff mem_logs_def by simp_all

lemma mem_RollbackEntry:
  assumes "good_hash H U" "mem_good H U s"
  shows "mem_good H U (snd (LogStore_RollbackEntry (mem_log H) e s))"
    and "spec_RollbackEntry H e (mem_logs s) =
      (fst (LogStore_RollbackEntry (mem_log H) e s), mem_logs (snd (LogStore_RollbackEntry (mem_log H) e s)))"
  using mem_ls.LogStore_RollbackEntry_refines [where h = H, OF _ assms(2) [unfolded mem_good_iff]
      prod.collapse [symmetric]] assms(1)
  unfolding mem_good_iff mem_logs_def by simp_all

lemma mem_LastEntry:
  assumes "mem_good H U s" and "hash_fn_ok H"
  shows "LogStore_LastEntry (mem_log H) key s =
    (case mem_logs s (els key) of None \<Rightarrow> None | Some es \<Rightarrow> if es = [] then None else Some (last es))"
  using mem_ls.LogStore_LastEntry_eq [OF assms(1) [unfolded mem_good_iff]] assms(2)
  by (simp add: mem_logs_def)

subsection \<open>Sequences of calls\<close>

datatype log_op =
    NewKey bytes
  | AppendEntry Entry
  | RollbackEntry Entry
  | RemoveKey bytes

fun log_op_entries :: "log_op \<Rightarrow> Entry set" where
  "log_op_entries (AppendEntry e) = {e}"
| "log_op_entries (NewKey _) = {}"
| "log_op_entries (RollbackEntry _) = {}"
| "log_op_entries (RemoveKey _) = {}"

fun log_call :: "hash_fn \<Rightarrow> log_op \<Rightarrow> mem_state \<Rightarrow> error option \<times> mem_state" where
  "log_call H (NewKey key) s =
     (case LogStore_NewKey (mem_log H) key s of (r, s) \<Rightarrow>
        ((case r of Inl err \<Rightarrow> Some err | Inr _ \<Rightarrow> None), s))"
| "log_call H (AppendEntry e) s = LogStore_AppendEntry (mem_log H) e s"
| "log_call H (RollbackEntry e) s = LogStore_RollbackEntry (mem_log H) e s"
| "log_call H (RemoveKey key) s = LogStore_RemoveKey (mem_log H) key s"

fun log_calls :: "hash_fn \<Rightarrow> log_op list \<Rightarrow> mem_state \<Rightarrow> error option list \<times> mem_state" where
  "log_calls H [] s = ([], s)"
| "log_calls H (x # xs) s =
     (case log_call H x s of (r, s) \<Rightarrow>
        (case log_calls H xs s of (rs, s) \<Rightarrow> (r # rs, s)))"

fun spec_call :: "hash_fn \<Rightarrow> log_op \<Rightarrow> logs \<Rightarrow> error option \<times> logs" where
  "spec_call H (NewKey key) l = spec_NewKey key l"
| "spec_call H (AppendEntry e) l = spec_AppendEntry H e l"
| "spec_call H (RollbackEntry e) l = spec_RollbackEntry H e l"
| "spec_call H (RemoveKey key) l = spec_RemoveKey key l"

fun spec_calls :: "hash_fn \<Rightarrow> log_op list \<Rightarrow> logs \<Rightarrow> error option list \<times> logs" where
  "spec_calls H [] l = ([], l)"
| "spec_calls H (x # xs) l =
     (case spec_call H x l of (r, l) \<Rightarrow>
        (case spec_calls H xs l of (rs, l) \<Rightarrow> (r # rs, l)))"

lemma log_call_good:
  assumes "good_hash H U" and "mem_good H U s" and "log_op_entries x \<subseteq> U"
  shows "mem_good H U (snd (log_call H x s))"
    and "spec_call H x (mem_logs s) = (fst (log_call H x s), mem_logs (snd (log_call H x s)))"
  using mem_NewKey [OF assms(2)] mem_AppendEntry [OF assms(1,2)] mem_RemoveKey [OF assms(1,2)]
    mem_RollbackEntry [OF assms(1,2)] assms(3)
  by (cases x; simp add: case_prod_beta)+

lemma log_calls_good:
  assumes "good_hash H U"
  shows "mem_good H U s \<Longrightarrow> \<Union> (log_op_entries ` set xs) \<subseteq> U \<Longrightarrow>
    mem_good H U (snd (log_calls H xs s)) \<and>
    spec_calls H xs (mem_logs s) = (fst (log_calls H xs s), mem_logs (snd (log_calls H xs s)))"
proof (induction xs arbitrary: s)
  case (Cons x xs)
  note c = log_call_good [OF assms Cons.prems(1), of x]
  have x: "log_op_entries x \<subseteq> U" "\<Union> (log_op_entries ` set xs) \<subseteq> U" using Cons.prems(2) by auto
  from Cons.IH [OF c(1) [OF x(1)] x(2)] c(2) [OF x(1)] show ?case
    by (simp add: case_prod_beta)
qed simp

text \<open>A small hash function for concrete runs: the last byte written.\<close>

definition last_byte :: hash_fn where
  "last_byte = \<lparr>digest = (\<lambda>bs. [if bs = [] then 0 else last bs]), Size = 1\<rparr>"

definition entry1 :: Entry where
  "entry1 = zero_Entry\<lparr>Key := Some [7], Previous := Some [0], Height := 1, Data := Some [1]\<rparr>"

definition entry2 :: Entry where
  "entry2 = zero_Entry\<lparr>Key := Some [7], Previous := Some [1], Height := 2, Data := Some [2]\<rparr>"

lemma entry_fields [simp]:
  "Key entry1 = Some [7]" "Previous entry1 = Some [0]" "Height entry1 = 1" "Data entry1 = Some [1]"
  "Key entry2 = Some [7]" "Previous entry2 = Some [1]" "Height entry2 = 2" "Data entry2 = Some [2]"
  by (simp_all add: entry1_def entry2_def)

lemma last_byte_ok [simp]: "hash_fn_ok last_byte"
  by (simp add: last_byte_def hash_fn_ok_def)

lemma Entry_Hash_last_byte [simp]:
  "Entry_Hash last_byte entry1 = Some [1]" "Entry_Hash last_byte entry2 = Some [2]"
  by (simp_all add: Entry_Hash_not_nil preimage_eq) (simp_all add: last_byte_def)

lemma last_byte_good [simp]: "good_hash last_byte {entry1, entry2}"
  by (simp add: good_hash_def inj_on_def isZeroBytes_def)

subsection \<open>Refinement and consistency of every run\<close>

lemma mem_good_chain:
  assumes "good_hash H U" and "mem_good H U s" and "mem_logs s k = Some es" and "j < length es"
  shows "els (Key (es ! j)) = k \<and>
    (if j = 0 then isZeroBytes (Previous (es ! j))
     else els (Previous (es ! j)) = els (Entry_Hash H (es ! (j - 1)))) \<and>
    LogStore_GetEntry (mem_log H) key (Entry_Hash H (es ! j)) s = Inr (es ! j)"
proof -
  let ?C = "mem_contents (ls_entries s)"
  obtain idx where idx: "mem_view (ls_index s) k = Some idx"
    "es = map (\<lambda>i. the (?C (els i))) (idx_Entries idx)"
    using assms(3) by (auto simp: mem_logs_def abs_logs_def)
  have ch: "chained H ?C k None (idx_Entries idx)"
    using assms(2) idx(1) log_okD(4) by (auto simp: mem_good_def)
  have at: "?C (els (idx_Entries idx ! i)) = Some (es ! i) \<and> Entry_Hash H (es ! i) = idx_Entries idx ! i \<and>
      els (Key (es ! i)) = k \<and> links (if i = 0 then None else idx_Entries idx ! (i - 1)) (es ! i)"
    if "i < length es" for i
    using chained_nth [OF ch, of i] chained_memD [OF ch, of "idx_Entries idx ! i"] that idx(2) by auto
  have "idx_Entries idx ! (j - 1) \<noteq> None"
    using chained_not_nil [OF good_hash_ok [OF assms(1)] ch] assms(4) idx(2) by simp
  with at [OF assms(4)] at [of "j - 1"] assms(4)
  show ?thesis
    by (auto simp: links_def LogStore_GetEntry_def mem_entries_def InMemEntryStore_Get_def)
qed

text \<open>
  C9: Any sequence of \<open>NewKey\<close>, \<open>AppendEntry\<close>, \<open>RollbackEntry\<close> and \<open>RemoveKey\<close> on a
  fresh log store over the in-memory stores returns, call by call, the results of the
  specification, and leaves the logs the specification ends with: an append is accepted
  when the entry links to the last one, a rollback removes exactly the last entry and with
  the first entry the key, a removal the whole log. The hash function has no collision
  and no zero value on the entries appended.
\<close>

theorem log_store_refines:
  assumes "good_hash H U" and "\<Union> (log_op_entries ` set xs) \<subseteq> U"
  shows "spec_calls H xs Map.empty =
    (fst (log_calls H xs mem_empty), mem_logs (snd (log_calls H xs mem_empty)))"
  using log_calls_good [OF assms(1) mem_good_empty assms(2)] by simp

text \<open>
  C10: After any such sequence, every log is a hash chain of entries of its key: the first
  entry has a zero previous hash, each later one has the hash of the entry before it, and
  every entry of the log is found under its hash in the entry store.
\<close>

theorem log_store_chains:
  assumes "good_hash H U" and "\<Union> (log_op_entries ` set xs) \<subseteq> U"
    and "log_calls H xs mem_empty = (rs, s)" and "mem_logs s k = Some es" and "j < length es"
  shows "els (Key (es ! j)) = k \<and>
    (if j = 0 then isZeroBytes (Previous (es ! j))
     else els (Previous (es ! j)) = els (Entry_Hash H (es ! (j - 1)))) \<and>
    LogStore_GetEntry (mem_log H) key (Entry_Hash H (es ! j)) s = Inr (es ! j)"
proof -
  have "mem_good H U s"
    using log_calls_good [OF assms(1) mem_good_empty assms(2)] assms(3) by simp
  then show ?thesis by (rule mem_good_chain [OF assms(1) _ assms(4,5)])
qed

subsection \<open>Comparing two nodes\<close>

lemma LastEntry_chain:
  assumes "good_hash H U" and "mem_good H U s" and "LogStore_LastEntry (mem_log H) key s = Some e"
  obtains idx ids where "mem_view (ls_index s) (els key) = Some idx"
    "idx_Entries idx = ids @ [Entry_Hash H e]"
    "chained H (mem_contents (ls_entries s)) (els key) None (ids @ [Entry_Hash H e])"
    "ran (mem_contents (ls_entries s)) \<subseteq> U"
proof -
  let ?C = "mem_contents (ls_entries s)"
  obtain idx where idx: "mem_view (ls_index s) (els key) = Some idx" "idx_Entries idx \<noteq> []"
    "e = last (map (\<lambda>i. the (?C (els i))) (idx_Entries idx))"
    using assms(3) mem_LastEntry [OF assms(2) good_hash_ok [OF assms(1)]]
    by (auto simp: mem_logs_def abs_logs_def split: option.splits if_splits)
  have "log_ok H U ?C (mem_view (ls_index s))" using assms(2) by (simp add: mem_good_def)
  note D = log_okD [OF this idx(1)]
  obtain ids i where i: "idx_Entries idx = ids @ [i]"
    using idx(2) by (cases "idx_Entries idx" rule: rev_cases) auto
  with last_id_hash [OF D(4) idx(2)] idx(3) have "i = Entry_Hash H e" by simp
  with that idx(1) i D show thesis by metis
qed

lemma last_determines_log:
  assumes "good_hash H U" and "mem_good H U s" and "mem_good H U s'"
    and "LogStore_LastEntry (mem_log H) key s = Some e"
    and "LogStore_LastEntry (mem_log H) key s' = Some e'"
    and "els (Entry_Hash H e) = els (Entry_Hash H e')"
  shows "mem_logs s (els key) = mem_logs s' (els key)"
proof -
  have eq: "Entry_Hash H e' = Entry_Hash H e"
    using assms(1,6) by (metis Entry_Hash_eq_iff_els good_hash_ok)
  obtain idx ids where a: "mem_view (ls_index s) (els key) = Some idx"
    "idx_Entries idx = ids @ [Entry_Hash H e]"
    "chained H (mem_contents (ls_entries s)) (els key) None (ids @ [Entry_Hash H e])"
    "ran (mem_contents (ls_entries s)) \<subseteq> U"
    using LastEntry_chain [OF assms(1,2,4)] .
  obtain idx' ids' where b: "mem_view (ls_index s') (els key) = Some idx'"
    "idx_Entries idx' = ids' @ [Entry_Hash H e]"
    "chained H (mem_contents (ls_entries s')) (els key) None (ids' @ [Entry_Hash H e])"
    "ran (mem_contents (ls_entries s')) \<subseteq> U"
    using LastEntry_chain [OF assms(1,3,5)] unfolding eq .
  have ids: "ids = ids'" using chain_determined_by_last [OF assms(1) a(4) b(4) a(3) b(3)] .
  have "mem_contents (ls_entries s) (els i) = mem_contents (ls_entries s') (els i)"
    if "i \<in> set (ids @ [Entry_Hash H e])" for i
    using chained_same_id [OF assms(1) a(4) b(4) a(3) b(3)] that ids by blast
  with a b ids show ?thesis by (simp add: mem_logs_def abs_logs_apply)
qed

text \<open>
  C11: Two nodes whose logs of a key end with entries of the same hash hold the same log of
  that key, however each came by it: the last id stands for the whole log, which is what
  the comparison of the last entries of the participants relies on.
\<close>

theorem same_last_same_log:
  assumes "good_hash H U" and "mem_good H U s" and "mem_good H U s'"
    and "LogStore_LastEntry (mem_log H) key s = Some e"
    and "LogStore_LastEntry (mem_log H) key s' = Some e'"
    and "els (Entry_Hash H e) = els (Entry_Hash H e')"
  shows "mem_logs s (els key) = mem_logs s' (els key)"
  using assms by (rule last_determines_log)

text \<open>Two nodes that reach the log of \<open>entry1\<close>, one of them by way of \<open>entry2\<close>.\<close>

definition calls_a :: "log_op list" where
  "calls_a = [NewKey (Some [7]), AppendEntry entry1]"

definition calls_b :: "log_op list" where
  "calls_b = [NewKey (Some [7]), AppendEntry entry1, AppendEntry entry2, RollbackEntry entry2]"

definition node_a :: mem_state where
  "node_a = snd (log_calls last_byte calls_a mem_empty)"

definition node_b :: mem_state where
  "node_b = snd (log_calls last_byte calls_b mem_empty)"

lemma calls_entries:
  "\<Union> (log_op_entries ` set calls_a) \<subseteq> {entry1, entry2}"
  "\<Union> (log_op_entries ` set calls_b) \<subseteq> {entry1, entry2}"
  by (simp_all add: calls_a_def calls_b_def)

lemma spec_calls_ab:
  "snd (spec_calls last_byte calls_a Map.empty) = [[7] \<mapsto> [entry1]]"
  "snd (spec_calls last_byte calls_b Map.empty) = [[7] \<mapsto> [entry1]]"
  by (simp_all add: calls_a_def calls_b_def spec_NewKey_def spec_AppendEntry_def
      spec_RollbackEntry_def accepts_def isZeroBytes_def)

lemmas nodes_run = log_calls_good [OF last_byte_good mem_good_empty calls_entries(1)]
  log_calls_good [OF last_byte_good mem_good_empty calls_entries(2)]

lemma nodes_good [simp]:
  "mem_good last_byte {entry1, entry2} node_a" "mem_good last_byte {entry1, entry2} node_b"
  using nodes_run by (simp_all only: node_a_def node_b_def)

lemma nodes_logs [simp]:
  "mem_logs node_a = [[7] \<mapsto> [entry1]]" "mem_logs node_b = [[7] \<mapsto> [entry1]]"
  using spec_calls_ab nodes_run [unfolded mem_logs_empty] by (simp_all only: node_a_def node_b_def snd_conv)

lemma nodes_last [simp]:
  "LogStore_LastEntry (mem_log last_byte) (Some [7]) node_a = Some entry1"
  "LogStore_LastEntry (mem_log last_byte) (Some [7]) node_b = Some entry1"
  by (simp_all add: mem_LastEntry [OF nodes_good(1)] mem_LastEntry [OF nodes_good(2)])

theorem same_last_same_log_witness:
  "mem_logs node_a (els (Some [7])) = mem_logs node_b (els (Some [7]))"
  by (rule same_last_same_log [OF last_byte_good nodes_good nodes_last refl])

theorem log_store_refines_witness:
  "mem_logs node_b [7] = Some [entry1]"
  using log_store_refines [OF last_byte_good calls_entries(2)] spec_calls_ab(2)
  by (simp add: node_b_def del: nodes_logs)

theorem log_store_chains_witness:
  "LogStore_GetEntry (mem_log last_byte) None (Entry_Hash last_byte entry1) node_b = Inr entry1"
proof -
  have r: "log_calls last_byte calls_b mem_empty = (fst (log_calls last_byte calls_b mem_empty), node_b)"
    by (simp add: node_b_def)
  show ?thesis
    using log_store_chains [OF last_byte_good calls_entries(2) r, of "[7]" "[entry1]" 0] by simp
qed

subsection \<open>Entries made, appended and rolled back\<close>

text \<open>What a log store makes for a key it has: the previous hash and the height of the log.\<close>

lemma NewEntry_fields:
  assumes "mem_good H U s" and "hash_fn_ok H" and "mem_logs s (els key) = Some es"
  shows "Key (LogStore_NewEntry (mem_log H) now key s) = key"
    and "Previous (LogStore_NewEntry (mem_log H) now key s) =
      (if es = [] then make_bytes (Size H) else Entry_Hash H (last es))"
    and "Height (LogStore_NewEntry (mem_log H) now key s) = of_nat (length es + 1)"
proof -
  let ?C = "mem_contents (ls_entries s)" and ?N = "LogStore_NewEntry (mem_log H) now key s"
  obtain h where h: "mem_lookup (ls_index s) (els key) = Some h"
    and es: "es = map (\<lambda>i. the (?C (els i))) (idx_Entries (is_heap (ls_index s) h))"
    using assms(3) by (auto simp: mem_logs_def abs_logs_def index_view_def)
  let ?idx = "is_heap (ls_index s) h"
  have V: "mem_view (ls_index s) (els key) = Some ?idx" using h by simp
  have ch: "chained H ?C (els key) None (idx_Entries ?idx)"
    using assms(1) V log_okD(4) by (auto simp: mem_good_def)
  have ok: "mem_is_ok (ls_index s)" using assms(1) by (simp add: mem_good_def)
  have live: "h \<in> mem_live (ls_index s)" using mem_is.lookup_live [OF ok h] .
  have nn: "last (idx_Entries ?idx) \<noteq> None" "last (idx_Entries ?idx) = Entry_Hash H (last es)"
    if "idx_Entries ?idx \<noteq> []"
    using that chained_not_nil [OF assms(2) ch] last_id_hash [OF ch that] es by auto
  have eq: "?N = (let (prev, height) =
      (if idx_Last ?idx = None then (make_bytes (Size H), 1)
       else (idx_Last ?idx, word_of_int (idx_Count ?idx + 1)))
      in zero_Entry\<lparr>Key := key, Previous := prev, Height := height, Timestamp := word_of_int now\<rparr>)"
    using mem_is.GetKey [OF ok, of key] mem_is.KI_reads [OF ok live] h
    by (simp add: LogStore_NewEntry_def Let_def)
  show "Key ?N = key" by (simp add: eq Let_def)
  show "Previous ?N = (if es = [] then make_bytes (Size H) else Entry_Hash H (last es))"
    using nn es by (cases "idx_Entries ?idx = []") (simp_all add: eq idx_Last_conv)
  show "Height ?N = of_nat (length es + 1)"
    using nn es by (cases "idx_Entries ?idx = []") (auto simp add: eq idx_Last_conv idx_Count_def)
qed

text \<open>
  An entry made by \<open>NewEntry\<close> for a key of the store is accepted by \<open>AppendEntry\<close>
  whatever its data and clock values, as long as nothing was appended to the key in
  between; the log grows by exactly that entry and its height is the new length modulo
  \<open>2^32\<close>.
\<close>

theorem NewEntry_appendable:
  assumes "good_hash H U" and "mem_good H U s" and "mem_logs s (els key) = Some es"
    and "e = LogStore_NewEntry (mem_log H) now key s\<lparr>Data := d, LTime := t\<rparr>" and "e \<in> U"
    and "LogStore_AppendEntry (mem_log H) e s = (r, s')"
  shows "r = None \<and> mem_logs s' = (mem_logs s)(els key \<mapsto> es @ [e]) \<and> Height e = of_nat (length es + 1)"
proof -
  note f = NewEntry_fields [OF assms(2) good_hash_ok [OF assms(1)] assms(3), of now]
  have "accepts H es e" using f(2) assms(4) by (simp add: accepts_def)
  then show ?thesis
    using mem_AppendEntry(2) [OF assms(1,2,5)] f(1,3) assms(3,4,6)
    by (simp add: spec_AppendEntry_def)
qed

text \<open>
  C31: \<open>RollbackEntry\<close> undoes \<open>AppendEntry\<close>: after a successful append of an entry, its
  rollback succeeds and leaves every log as it was before, except that a log that was empty
  before the append is removed with its key.
\<close>

theorem append_rollback:
  assumes "good_hash H U" and "mem_good H U s" and "e \<in> U"
    and "LogStore_AppendEntry (mem_log H) e s = (None, s1)"
    and "LogStore_RollbackEntry (mem_log H) e s1 = (r, s2)"
  shows "r = None \<and> mem_logs s2 =
    (if mem_logs s (els (Key e)) = Some [] then (mem_logs s)(els (Key e) := None) else mem_logs s)"
proof -
  have g1: "mem_good H U s1" and a: "spec_AppendEntry H e (mem_logs s) = (None, mem_logs s1)"
    using mem_AppendEntry [OF assms(1-3)] assms(4) by simp_all
  then obtain es where es: "mem_logs s (els (Key e)) = Some es"
    "mem_logs s1 = (mem_logs s)(els (Key e) \<mapsto> es @ [e])"
    by (auto simp: spec_AppendEntry_def split: option.splits if_splits)
  have "spec_RollbackEntry H e (mem_logs s1) = (r, mem_logs s2)"
    using mem_RollbackEntry(2) [OF assms(1) g1] assms(5) by simp
  with es fun_upd_triv [of "mem_logs s" "els (Key e)"] show ?thesis
    by (auto simp: spec_RollbackEntry_def split: if_splits)
qed

text \<open>
  C34: An append that is refused because the entry does not follow the log still leaves the
  entry in the entry store: the entry is stored before its index is asked. It can be read
  under its hash, though it is in no log, and no operation of the store takes it out again
  unless it is appended later.
\<close>

theorem refused_append_is_stored:
  assumes "good_hash H U" and "mem_good H U s" and "e \<in> U"
    and "LogStore_AppendEntry (mem_log H) e s = (Some ErrPreviousHash, s')"
  shows "LogStore_GetEntry (mem_log H) key (Entry_Hash H e) s' = Inr e \<and> mem_logs s' = mem_logs s"
proof -
  have ok: "mem_es_ok (ls_entries s) \<and> mem_is_ok (ls_index s)" using assms(2) by (simp add: mem_good_def)
  show ?thesis
  proof (cases "mem_lookup (ls_index s) (els (Key e))")
    case None
    with mem_ls.LogStore_GetKey_eq [OF ok, where h = H] assms(4)
    show ?thesis by (simp add: LogStore_AppendEntry_def)
  next
    case (Some h)
    obtain r1 s1 where k: "Keylog_AppendEntry (mem_log H) h e s = (r1, s1)" by (metis prod.collapse)
    note eff = mem_ls.Keylog_AppendEntry_effect [OF ok Some k]
    have "h \<in> mem_live (ls_index s1)" using mem_ls.ref_live [OF eff(2)] eff(4) Some by simp
    with mem_ls.LogStore_GetKey_eq [OF ok, where h = H] assms(4) k Some eff(2)
    have s': "s' = s1" by (simp add: LogStore_AppendEntry_def mem_ls.Close_noop)
    have "spec_AppendEntry H e (mem_logs s) = (Some ErrPreviousHash, mem_logs s')"
      using mem_AppendEntry(2) [OF assms(1-3)] assms(4) by simp
    then have "mem_logs s' = mem_logs s"
      by (auto simp: spec_AppendEntry_def split: option.splits if_splits)
    with eff(3) s' show ?thesis
      by (simp add: LogStore_GetEntry_def mem_entries_def InMemEntryStore_Get_def)
  qed
qed

text \<open>Concrete uses of these: the node with \<open>entry1\<close> and the second entry of its key.\<close>

lemma node_a_append:
  "LogStore_AppendEntry (mem_log last_byte) entry2 node_a =
    (None, snd (LogStore_AppendEntry (mem_log last_byte) entry2 node_a))"
  and node_a_refuse:
  "LogStore_AppendEntry (mem_log last_byte) entry1 node_a =
    (Some ErrPreviousHash, snd (LogStore_AppendEntry (mem_log last_byte) entry1 node_a))"
  using mem_AppendEntry(2) [OF last_byte_good nodes_good(1), of entry2]
    mem_AppendEntry(2) [OF last_byte_good nodes_good(1), of entry1]
  by (simp_all add: spec_AppendEntry_def accepts_def prod_eq_iff)

lemma entry2_is_new:
  "entry2 = LogStore_NewEntry (mem_log last_byte) 0 (Some [7]) node_a\<lparr>Data := Some [2], LTime := 0\<rparr>"
proof -
  have k: "mem_logs node_a (els (Some [7])) = Some [entry1]" by simp
  have "Timestamp (LogStore_NewEntry (mem_log last_byte) 0 (Some [7]) node_a) = 0"
    by (simp add: LogStore_NewEntry_def Let_def split: sum.split)
  with NewEntry_fields [OF nodes_good(1) last_byte_ok k, of 0] show ?thesis
    by (intro Entry.equality) (simp_all add: entry2_def zero_Entry_def)
qed

theorem NewEntry_appendable_witness:
  "mem_logs (snd (LogStore_AppendEntry (mem_log last_byte) entry2 node_a)) [7] = Some [entry1, entry2]"
  using NewEntry_appendable [OF last_byte_good nodes_good(1) _ entry2_is_new _ node_a_append] by simp

theorem append_rollback_witness:
  "mem_logs (snd (LogStore_RollbackEntry (mem_log last_byte) entry2
      (snd (LogStore_AppendEntry (mem_log last_byte) entry2 node_a)))) = mem_logs node_a"
  using append_rollback [OF last_byte_good nodes_good(1) _ node_a_append prod.collapse [symmetric]]
  by simp

theorem refused_append_is_stored_witness:
  "mem_logs (snd (LogStore_AppendEntry (mem_log last_byte) entry1 node_a)) = [[7] \<mapsto> [entry1]]"
  using refused_append_is_stored [OF last_byte_good nodes_good(1) _ node_a_refuse] by simp

text \<open>
  C35: Two entries of different keys can overwrite each other: an entry of key \<open>k\<close> whose
  data starts with a byte \<open>b\<close> has the id of the entry of key \<open>k\<close> extended by \<open>b\<close> with the
  rest of the data. On a fresh store both are accepted as first entries of their keys, and
  then the log of the extended key reads back the entry of the other key.
\<close>

theorem key_data_overwrite:
  assumes "hash_fn_ok H"
    and "e = zero_Entry\<lparr>Key := Some (k @ [b]), Previous := make_bytes (Size H), Height := 1, Data := Some d\<rparr>"
    and "e' = zero_Entry\<lparr>Key := Some k, Previous := make_bytes (Size H), Height := 1, Data := Some (b # d)\<rparr>"
    and "log_calls H [NewKey (Key e), NewKey (Key e'), AppendEntry e, AppendEntry e'] mem_empty = (rs, s)"
  shows "rs = [None, None, None, None] \<and> LogStore_LastEntry (mem_log H) (Key e) s = Some e'"
proof -
  have "Entry_Hash H e = Entry_Hash H e'"
    by (simp add: assms(2,3) Entry_Hash_def Entry_writes_def Let_def)
  moreover obtain x where "Entry_Hash H e' = Some x" using Entry_Hash_not_nil [OF assms(1)] by blast
  moreover have "Key e = Some (k @ [b])" "Key e' = Some k" "isZeroBytes (Previous e)" "isZeroBytes (Previous e')"
    by (simp_all add: assms(2,3))
  ultimately show ?thesis
    using assms(4)
    by (auto simp: mem_empty_def LogStore_NewKey_def LogStore_AppendEntry_def LogStore_GetKey_def
        Keylog_AppendEntry_def Keylog_Close_def LogStore_LastEntry_def mem_index_defs
        mem_entries_def InMemEntryStore_Set_def InMemEntryStore_Get_def idx_Append_cases
        follows_def idx_Last_conv NewInMemIndexStore_def NewInMemEntryStore_def NewUnsafeKeylogIndex_def Let_def)
qed

theorem key_data_overwrite_witness:
  "hash_fn_ok last_byte \<and>
   fst (log_calls last_byte
     [NewKey (Some [7, 8]), NewKey (Some [7]),
      AppendEntry (zero_Entry\<lparr>Key := Some [7, 8], Previous := make_bytes (Size last_byte), Height := 1, Data := Some [9]\<rparr>),
      AppendEntry (zero_Entry\<lparr>Key := Some [7], Previous := make_bytes (Size last_byte), Height := 1, Data := Some [8, 9]\<rparr>)]
     mem_empty) = [None, None, None, None]"
  using key_data_overwrite [OF last_byte_ok refl refl prod.collapse [symmetric], where k = "[7]" and b = 8 and d = "[9]"] by simp

end
