(* ===== verification/Future.thy ===== *)
theory Future
  imports Entry_Hash Go_Calls
begin

section \<open>Future entries (future.go)\<close>

text \<open>
  A future is the handle by which a proposer waits for an entry to be applied. Its two
  channels hold one value each; \<open>applied\<close> sends on one of them, \<open>Wait\<close> takes from
  either or gives up at a timeout. Times are nanoseconds since the Unix epoch and \<open>'d\<close> is
  the type of what the application returns.
\<close>

definition zero_time :: int where
  "zero_time = - 62135596800 * 10 ^ 9"

text \<open>\<open>Time.Sub\<close>: the difference, saturated to 64 bits.\<close>

definition time_Sub :: "int \<Rightarrow> int \<Rightarrow> int" where
  "time_Sub t u = max (- (2 ^ 63)) (min (2 ^ 63 - 1) (t - u))"

record 'd FutureEntry =
  fe_id :: bytes
  fe_Entry :: Entry
  fe_err :: "error chan"
  fe_done :: "'d chan"
  fe_dispatched :: int
  fe_completed :: int

definition NewFutureEntry :: "bytes \<Rightarrow> Entry \<Rightarrow> 'd FutureEntry" where
  "NewFutureEntry eid entry =
     \<lparr>fe_id = eid, fe_Entry = entry, fe_err = make_chan 1, fe_done = make_chan 1,
      fe_dispatched = zero_time, fe_completed = zero_time\<rparr>"

definition FutureEntry_applied ::
  "int \<Rightarrow> 'd \<Rightarrow> error option \<Rightarrow> ('d FutureEntry, unit) call" where
  "FutureEntry_applied now data err f =
     (let f = f\<lparr>fe_completed := now\<rparr>
      in case err of
           Some e \<Rightarrow> zoom fe_err (\<lambda>c f. f\<lparr>fe_err := c\<rparr>) (chan_send e) f
         | None \<Rightarrow> zoom fe_done (\<lambda>c f. f\<lparr>fe_done := c\<rparr>) (chan_send data) f)"

definition FutureEntry_dispatch :: "int \<Rightarrow> 'd FutureEntry \<Rightarrow> 'd FutureEntry" where
  "FutureEntry_dispatch now f = f\<lparr>fe_dispatched := now\<rparr>"

definition FutureEntry_Runtime :: "'d FutureEntry \<Rightarrow> int" where
  "FutureEntry_Runtime f = time_Sub (fe_completed f) (fe_dispatched f)"

definition FutureEntry_MarshalJSON :: "'d FutureEntry \<Rightarrow> json" where
  "FutureEntry_MarshalJSON f =
     JObject [(''ID'', JString (hex_EncodeToString (els (fe_id f)))),
              (''Entry'', Entry_MarshalJSON (fe_Entry f))]"

text \<open>
  \<open>Wait\<close> is a select of three arms: it takes one that is ready, and any of them when
  several are. The call below is \<open>Wait\<close> on a given arm; it blocks when the arm is not
  ready. The timer arm is ready once the timeout has passed.
\<close>

datatype wait_arm = Arm_done | Arm_err | Arm_timeout

fun FutureEntry_Wait :: "wait_arm \<Rightarrow> ('d FutureEntry, 'd option \<times> error option) call" where
  "FutureEntry_Wait Arm_done f =
     bind (zoom fe_done (\<lambda>c f. f\<lparr>fe_done := c\<rparr>) chan_recv) (\<lambda>resp. Ret (resp, None)) f"
| "FutureEntry_Wait Arm_err f =
     bind (zoom fe_err (\<lambda>c f. f\<lparr>fe_err := c\<rparr>) chan_recv) (\<lambda>err. Ret (None, err)) f"
| "FutureEntry_Wait Arm_timeout f = Ret (None, Some errTimedOut) f"

subsection \<open>One result, delivered once\<close>

text \<open>A future that was not applied, and one whose result nobody has taken yet.\<close>

definition pending :: "'d FutureEntry \<Rightarrow> bool" where
  "pending f \<longleftrightarrow> buf (fe_err f) = [] \<and> buf (fe_done f) = [] \<and>
     cap (fe_err f) = 1 \<and> cap (fe_done f) = 1 \<and> \<not> is_closed (fe_err f) \<and> \<not> is_closed (fe_done f)"

lemma pending_New [simp]: "pending (NewFutureEntry eid e)"
  by (simp add: pending_def NewFutureEntry_def)

lemma pending_dispatch [simp]: "pending (FutureEntry_dispatch now f) = pending f"
  by (simp add: pending_def FutureEntry_dispatch_def)

lemma applied_pending:
  "pending f \<Longrightarrow> FutureEntry_applied now d r f = Ret ()
    (case r of None \<Rightarrow> f\<lparr>fe_completed := now, fe_done := (fe_done f)\<lparr>buf := [d]\<rparr>\<rparr>
             | Some e \<Rightarrow> f\<lparr>fe_completed := now, fe_err := (fe_err f)\<lparr>buf := [e]\<rparr>\<rparr>)"
  by (auto simp: FutureEntry_applied_def pending_def chan_send_def zoom_def Let_def split: option.split)

text \<open>
  C32: A future delivers the result of its entry to one waiter: applying a fresh future
  returns at once; then the arm of its result, and no other channel arm, is ready, and it
  yields the data when the application reported no error and the error otherwise. After
  that waiter the future is as it was before, and another one can only time out.
\<close>

theorem future_delivers_once:
  assumes "pending f" and "FutureEntry_applied now d r f = Ret () f1"
  shows "FutureEntry_Wait (if r = None then Arm_err else Arm_done) f1 = Block f1 \<and>
    (\<exists>f2. FutureEntry_Wait (if r = None then Arm_done else Arm_err) f1
           = Ret (if r = None then (Some d, None) else (None, r)) f2 \<and>
       f2 = f\<lparr>fe_completed := now\<rparr> \<and>
       FutureEntry_Wait Arm_done f2 = Block f2 \<and> FutureEntry_Wait Arm_err f2 = Block f2 \<and>
       FutureEntry_Wait Arm_timeout f2 = Ret (None, Some errTimedOut) f2)"
proof -
  have f1: "f1 = (case r of None \<Rightarrow> f\<lparr>fe_completed := now, fe_done := (fe_done f)\<lparr>buf := [d]\<rparr>\<rparr>
             | Some e \<Rightarrow> f\<lparr>fe_completed := now, fe_err := (fe_err f)\<lparr>buf := [e]\<rparr>\<rparr>)"
    using applied_pending [OF assms(1)] assms(2) by simp
  show ?thesis
    using assms(1) unfolding f1
    by (cases f; cases "fe_err f"; cases "fe_done f")
      (auto simp: pending_def bind_def zoom_def chan_recv_def split: option.split)
qed

theorem future_delivers_once_witness:
  "FutureEntry_Wait Arm_err (after (FutureEntry_applied 5 True None (NewFutureEntry None zero_Entry)))
     = Block (after (FutureEntry_applied 5 True None (NewFutureEntry None zero_Entry)))"
proof -
  have "FutureEntry_applied 5 True None (NewFutureEntry None zero_Entry) =
      Ret () (after (FutureEntry_applied 5 True None (NewFutureEntry None zero_Entry)))"
    by (simp add: applied_pending)
  from future_delivers_once [OF pending_New this] show ?thesis by simp
qed

end
