(* ===== verification/Ballot.thy ===== *)
theory Ballot
  imports Future
begin

section \<open>Ballots (ballot.go)\<close>

text \<open>
  A ballot counts the propose and commit votes on one entry and closes when the entry was
  appended, when something failed, or at its timeout. The locks of the code guard the two vote
  slices and the closed flag is atomic, but \<open>close\<close>, the function of the timer and a vote read
  the flag first and act later, without a lock over both. Their atomic parts are definitions
  of their own; a method is the composition of its parts, as one goroutine runs them. The
  theory \<open>Ballot_Race\<close> runs the parts of several goroutines in any order. A pointer to
  the future of the entry is its index in a heap of futures, which never change their id
  and entry. Times are nanoseconds and read from the clock the step is given. Voters are
  hosts: an empty name would not count as a vote, and could start a second timer, of which
  the model would keep the later one only.
\<close>

datatype timer = Timer_nil | Timer_armed int | Timer_stopped | Timer_fired

record Ballot =
  fentry :: nat
  b_dispatched :: int
  b_completed :: int
  b_ttl :: int
  b_timer :: timer
  proposed :: "string list"
  committed :: "string list"
  votes :: nat
  errc :: "error chan"
  b_err :: "error option"
  b_done :: "unit chan"
  b_closed :: bool

definition newBallot :: "nat \<Rightarrow> nat \<Rightarrow> int \<Rightarrow> Ballot" where
  "newBallot fe requiredVotes ttl =
     \<lparr>fentry = fe, b_dispatched = zero_time, b_completed = zero_time, b_ttl = ttl,
      b_timer = Timer_nil, proposed = replicate requiredVotes '''', committed = replicate requiredVotes '''',
      votes = requiredVotes, errc = make_chan requiredVotes, b_err = None,
      b_done = make_chan requiredVotes, b_closed = False\<rparr>"

fun countVotes :: "string list \<Rightarrow> nat" where
  "countVotes [] = 0"
| "countVotes (v # vs) = (if v \<noteq> '''' then Suc (countVotes vs) else countVotes vs)"

definition Ballot_Commits :: "Ballot \<Rightarrow> nat" where
  "Ballot_Commits b = countVotes (committed b)"

definition Ballot_Proposals :: "Ballot \<Rightarrow> nat" where
  "Ballot_Proposals b = countVotes (proposed b)"

definition haveProposal :: "Ballot \<Rightarrow> string \<Rightarrow> bool" where
  "haveProposal b voter = list_ex (\<lambda>s. s = voter) (proposed b)"

definition Ballot_Closed :: "Ballot \<Rightarrow> bool" where
  "Ballot_Closed b = b_closed b"

definition Ballot_Error :: "Ballot \<Rightarrow> error option" where
  "Ballot_Error b = b_err b"

definition Ballot_Runtime :: "Ballot \<Rightarrow> int" where
  "Ballot_Runtime b = time_Sub (b_completed b) (b_dispatched b)"

text \<open>\<open>setTTL\<close> arms the timer; \<open>Ballot_timeout\<close> is the function the timer runs.\<close>

definition setTTL :: "int \<Rightarrow> Ballot \<Rightarrow> Ballot" where
  "setTTL now b = b\<lparr>b_timer := Timer_armed (now + b_ttl b)\<rparr>"

definition set_closed :: "(Ballot, unit) call" where
  "set_closed b = Ret () (b\<lparr>b_closed := True\<rparr>)"

definition send_decision :: "error option \<Rightarrow> (Ballot, unit) call" where
  "send_decision err =
     (case err of
        None \<Rightarrow> zoom b_done (\<lambda>c b. b\<lparr>b_done := c\<rparr>) (chan_send ())
      | Some e \<Rightarrow> zoom errc (\<lambda>c b. b\<lparr>errc := c\<rparr>) (chan_send e))"

definition Ballot_timeout :: "(Ballot, unit) call" where
  "Ballot_timeout b =
     bind set_closed (\<lambda>_. send_decision (Some errBallotTimedOut)) (b\<lparr>b_timer := Timer_fired\<rparr>)"

lemma Ballot_timeout_eq:
  "Ballot_timeout b =
     (let b = b\<lparr>b_timer := Timer_fired, b_closed := True\<rparr>
      in zoom errc (\<lambda>c b. b\<lparr>errc := c\<rparr>) (chan_send errBallotTimedOut) b)"
  by (simp add: Ballot_timeout_def set_closed_def send_decision_def bind_def)

text \<open>
  A vote of either phase, at index \<open>voterIdx\<close> of the slice. The result is the count, whether
  this call voted, and an error; an index out of range panics.
\<close>

definition closed_error :: "Ballot \<Rightarrow> error" where
  "closed_error b = (case b_err b of None \<Rightarrow> errBallotClosed | Some e \<Rightarrow> e)"

definition propose_slot :: "int \<Rightarrow> string \<Rightarrow> int \<Rightarrow> (Ballot, int \<times> bool \<times> error option) call" where
  "propose_slot now voter voterIdx b =
     (if voterIdx < 0 \<or> voterIdx \<ge> int (length (proposed b)) then Panic b
      else if proposed b ! nat voterIdx \<noteq> '''' then Ret (int (countVotes (proposed b)), False, None) b
      else
        (let b = b\<lparr>proposed := (proposed b)[nat voterIdx := voter]\<rparr>;
             proposals = countVotes (proposed b);
             b = (if proposals = 1 then setTTL now (b\<lparr>b_dispatched := now\<rparr>) else b)
         in Ret (int proposals, True, None) b))"

definition votePropose ::
  "(nat \<Rightarrow> 'd FutureEntry) \<Rightarrow> int \<Rightarrow> bytes \<Rightarrow> string \<Rightarrow> int \<Rightarrow> (Ballot, int \<times> bool \<times> error option) call" where
  "votePropose F now entryID voter voterIdx b =
     (if bytes_Compare (fe_id (F (fentry b))) entryID \<noteq> 0 then Ret (-1, False, Some errInvalidVoteID) b
      else if b_closed b then Ret (-1, False, Some (closed_error b)) b
      else propose_slot now voter voterIdx b)"

definition commit_slot :: "string \<Rightarrow> int \<Rightarrow> (Ballot, int \<times> bool \<times> error option) call" where
  "commit_slot voter voterIdx b =
     (if voterIdx < 0 \<or> voterIdx \<ge> int (length (committed b)) then Panic b
      else if committed b ! nat voterIdx \<noteq> '''' then Ret (int (countVotes (committed b)), False, None) b
      else
        (let b = b\<lparr>committed := (committed b)[nat voterIdx := voter]\<rparr>
         in Ret (int (countVotes (committed b)), True, None) b))"

definition voteCommit ::
  "(nat \<Rightarrow> 'd FutureEntry) \<Rightarrow> bytes \<Rightarrow> string \<Rightarrow> int \<Rightarrow> (Ballot, int \<times> bool \<times> error option) call" where
  "voteCommit F entryID voter voterIdx b =
     (if bytes_Compare (fe_id (F (fentry b))) entryID \<noteq> 0 then Ret (-1, False, Some errInvalidVoteID) b
      else if b_closed b then Ret (-1, False, Some (closed_error b)) b
      else commit_slot voter voterIdx b)"

lemmas votePropose_eq = votePropose_def [unfolded propose_slot_def]
lemmas voteCommit_eq = voteCommit_def [unfolded commit_slot_def]

text \<open>
  \<open>close\<close> stops the timer, which panics when none was set and does nothing to a timer that
  fired; it sets the flag, records time and error under the lock of the commits, and sends.
\<close>

definition stop_timer :: "(Ballot, unit) call" where
  "stop_timer b =
     (if b_timer b = Timer_nil then Panic b
      else Ret () (b\<lparr>b_timer := (if b_timer b = Timer_fired then Timer_fired else Timer_stopped)\<rparr>))"

definition record_close :: "int \<Rightarrow> error option \<Rightarrow> (Ballot, unit) call" where
  "record_close now err b = Ret () (b\<lparr>b_completed := now, b_err := err\<rparr>)"

definition Ballot_close :: "int \<Rightarrow> error option \<Rightarrow> (Ballot, error option) call" where
  "Ballot_close now err b =
     (if b_closed b then Ret (b_err b) b
      else bind stop_timer (\<lambda>_. bind set_closed (\<lambda>_. bind (record_close now err) (\<lambda>_.
             bind (send_decision err) (\<lambda>_. Ret None)))) b)"

lemma Ballot_close_eq:
  "Ballot_close now err b =
     (if b_closed b then Ret (b_err b) b
      else if b_timer b = Timer_nil then Panic b
      else
        (let b = b\<lparr>b_timer := (if b_timer b = Timer_fired then Timer_fired else Timer_stopped),
                  b_closed := True, b_completed := now, b_err := err\<rparr>
         in bind (case err of
                    None \<Rightarrow> zoom b_done (\<lambda>c b. b\<lparr>b_done := c\<rparr>) (chan_send ())
                  | Some e \<Rightarrow> zoom errc (\<lambda>c b. b\<lparr>errc := c\<rparr>) (chan_send e))
              (\<lambda>_. Ret None) b))"
  by (simp add: Ballot_close_def stop_timer_def set_closed_def record_close_def send_decision_def bind_def)

text \<open>\<open>Wait\<close> on an arm of its select; the timer arm does not exist and blocks.\<close>

fun Ballot_Wait :: "wait_arm \<Rightarrow> (Ballot, error option) call" where
  "Ballot_Wait Arm_done b =
     bind (zoom b_done (\<lambda>c b. b\<lparr>b_done := c\<rparr>) chan_recv) (\<lambda>_. Ret None) b"
| "Ballot_Wait Arm_err b = zoom errc (\<lambda>c b. b\<lparr>errc := c\<rparr>) chan_recv b"
| "Ballot_Wait Arm_timeout b = Block b"

lemma countVotes_conv: "countVotes vs = length (filter (\<lambda>v. v \<noteq> []) vs)"
  by (induction vs) auto

lemma countVotes_le: "countVotes vs \<le> length vs"
  by (simp add: countVotes_conv)

lemma countVotes_replicate [simp]: "countVotes (replicate n []) = 0"
  by (induction n) auto

lemma countVotes_update:
  "i < length vs \<Longrightarrow> vs ! i = [] \<Longrightarrow> v \<noteq> [] \<Longrightarrow> countVotes (vs[i := v]) = Suc (countVotes vs)"
  by (induction vs arbitrary: i) (auto split: nat.splits)

lemma countVotes_update_le: "countVotes (vs[i := v]) \<le> Suc (countVotes vs)"
  by (induction vs arbitrary: i) (auto split: nat.splits)

lemma countVotes_full: "countVotes vs = length vs \<longleftrightarrow> (\<forall>v\<in>set vs. v \<noteq> [])"
  using countVotes_le [of "tl vs"]
proof (induction vs)
  case (Cons v vs)
  with countVotes_le [of vs] countVotes_le [of "tl vs"] show ?case by auto
qed simp

subsection \<open>Steps and traces\<close>

datatype ballot_op =
    BPropose int bytes string int
  | BCommit bytes string int
  | BClose int "error option"
  | BTimeout
  | BWait wait_arm

datatype ballot_result =
    RVote int bool "error option"
  | RErr "error option"
  | RDone

fun ballot_call ::
  "(nat \<Rightarrow> 'd FutureEntry) \<Rightarrow> ballot_op \<Rightarrow> (Ballot, ballot_result) call" where
  "ballot_call F (BPropose now eid voter i) b =
     bind (votePropose F now eid voter i) (\<lambda>(n, voted, err). Ret (RVote n voted err)) b"
| "ballot_call F (BCommit eid voter i) b =
     bind (voteCommit F eid voter i) (\<lambda>(n, voted, err). Ret (RVote n voted err)) b"
| "ballot_call F (BClose now err) b = bind (Ballot_close now err) (\<lambda>r. Ret (RErr r)) b"
| "ballot_call F BTimeout b =
     (case b_timer b of
        Timer_armed _ \<Rightarrow> bind Ballot_timeout (\<lambda>_. Ret RDone) b
      | _ \<Rightarrow> Block b)"
| "ballot_call F (BWait a) b = bind (Ballot_Wait a) (\<lambda>r. Ret (RErr r)) b"

text \<open>
  What the goroutines of a node do to one ballot is a sequence of steps that return; a
  step that blocks is not taken yet. A trace lists the steps with what they returned.
\<close>

inductive ballot_trace ::
  "(nat \<Rightarrow> 'd FutureEntry) \<Rightarrow> Ballot \<Rightarrow> (ballot_op \<times> ballot_result) list \<Rightarrow> Ballot \<Rightarrow> bool"
  for F :: "nat \<Rightarrow> 'd FutureEntry" and b0 :: Ballot where
  start: "ballot_trace F b0 [] b0"
| step: "ballot_trace F b0 tr b \<Longrightarrow> ballot_call F x b = Ret r b' \<Longrightarrow> ballot_trace F b0 (tr @ [(x, r)]) b'"

text \<open>
  Whatever happened, votes and channels have the size of the ballot; until it closes
  nothing was sent and its timer may run, as it does from the first proposal on; once closed
  the timer is spent.
\<close>

definition ballot_ok :: "nat \<Rightarrow> Ballot \<Rightarrow> bool" where
  "ballot_ok n b \<longleftrightarrow>
     votes b = n \<and> length (proposed b) = n \<and> length (committed b) = n \<and>
     cap (errc b) = n \<and> cap (b_done b) = n \<and> \<not> is_closed (errc b) \<and> \<not> is_closed (b_done b) \<and>
     length (buf (errc b)) + length (buf (b_done b)) \<le> (if b_closed b then 1 else 0) \<and>
     (if b_closed b then b_timer b \<in> {Timer_stopped, Timer_fired}
      else b_timer b \<noteq> Timer_stopped \<and> b_timer b \<noteq> Timer_fired \<and> b_err b = None) \<and>
     (0 < countVotes (proposed b) \<longrightarrow> b_timer b \<noteq> Timer_nil)"

lemma ballot_ok_new [simp]: "ballot_ok n (newBallot fe n ttl)"
  by (simp add: ballot_ok_def newBallot_def)

lemma ballot_ok_call:
  assumes "ballot_ok n b" and "0 < n"
  shows "ballot_ok n (after (ballot_call F x b))"
proof (cases x)
  case (BPropose now eid v i)
  with assms countVotes_update_le [of "proposed b" "nat i" v] show ?thesis
    by (auto simp: ballot_ok_def bind_def votePropose_eq setTTL_def Let_def split: prod.splits outcome.splits)
next
  case (BCommit eid v i)
  with assms show ?thesis
    by (auto simp: ballot_ok_def bind_def voteCommit_eq Let_def split: prod.splits outcome.splits)
next
  case (BClose now err)
  with assms show ?thesis
    by (cases "b_closed b"; cases "buf (errc b)"; cases "buf (b_done b)")
      (auto simp: ballot_ok_def bind_def zoom_def Ballot_close_eq chan_send_def Let_def
        split: option.splits outcome.splits)
next
  case BTimeout
  with assms show ?thesis
    by (cases "b_closed b") (auto simp: ballot_ok_def bind_def zoom_def Ballot_timeout_eq chan_send_def Let_def split: timer.splits)
next
  case (BWait a)
  with assms show ?thesis
    by (cases a; cases "b_closed b") (auto simp: ballot_ok_def bind_def zoom_def chan_recv_def split: list.splits)
qed

lemma ballot_trace_ok:
  assumes "ballot_trace F b0 tr b" and "ballot_ok n b0" and "0 < n"
  shows "ballot_ok n b"
  using assms(1)
proof induction
  case (step tr b x r b')
  with ballot_ok_call [OF step.IH assms(3), of F x] show ?case by simp
qed (rule assms(2))

text \<open>A run of a ballot of one voter: a proposal, the close of the commit, a waiter.\<close>

definition one_future :: "nat \<Rightarrow> unit FutureEntry" where
  "one_future = (\<lambda>_. NewFutureEntry (Some [1]) zero_Entry)"

definition one_ballot :: Ballot where
  "one_ballot = after (ballot_call one_future (BPropose 5 (Some [1]) ''a'' 0) (newBallot 0 1 3))"

lemma one_propose:
  "ballot_call one_future (BPropose 5 (Some [1]) ''a'' 0) (newBallot 0 1 3) = Ret (RVote 1 True None) one_ballot"
  by (simp add: one_ballot_def bind_def votePropose_eq one_future_def NewFutureEntry_def newBallot_def Let_def)

lemma one_trace:
  "ballot_trace one_future (newBallot 0 1 3) [(BPropose 5 (Some [1]) ''a'' 0, RVote 1 True None)] one_ballot"
  using ballot_trace.step [OF ballot_trace.start one_propose] by simp

subsection \<open>Votes\<close>

text \<open>The votes a trace accepted in a phase: index and voter, in order.\<close>

fun voted_propose :: "ballot_op \<times> ballot_result \<Rightarrow> (int \<times> string) option" where
  "voted_propose (BPropose _ _ v i, RVote _ True _) = Some (i, v)"
| "voted_propose _ = None"

fun voted_commit :: "ballot_op \<times> ballot_result \<Rightarrow> (int \<times> string) option" where
  "voted_commit (BCommit _ v i, RVote _ True _) = Some (i, v)"
| "voted_commit _ = None"

definition named :: "(ballot_op \<times> ballot_result) list \<Rightarrow> bool" where
  "named tr \<longleftrightarrow> (\<forall>(x, r)\<in>set tr. case x of BPropose _ _ v _ \<Rightarrow> v \<noteq> [] | BCommit _ v _ \<Rightarrow> v \<noteq> [] | _ \<Rightarrow> True)"

definition tally :: "(int \<times> string) list \<Rightarrow> string list \<Rightarrow> bool" where
  "tally acc vs \<longleftrightarrow> distinct (map fst acc) \<and> countVotes vs = length acc \<and>
     (\<forall>(i, v)\<in>set acc. 0 \<le> i \<and> i < int (length vs) \<and> vs ! nat i = v \<and> v \<noteq> [])"

lemma tally_vote:
  assumes "tally acc vs" and "0 \<le> i" "i < int (length vs)" "vs ! nat i = []" "v \<noteq> []"
  shows "tally (acc @ [(i, v)]) (vs[nat i := v])"
proof -
  have old: "0 \<le> j \<and> j < int (length vs) \<and> vs ! nat j = w \<and> w \<noteq> [] \<and> nat j \<noteq> nat i \<and> j \<noteq> i"
    if "(j, w) \<in> set acc" for j w
  proof -
    have "0 \<le> j \<and> j < int (length vs) \<and> vs ! nat j = w \<and> w \<noteq> []"
      using that assms(1) by (auto simp: tally_def)
    moreover from this assms(4) have "nat j \<noteq> nat i" by metis
    moreover from this have "j \<noteq> i" by blast
    ultimately show ?thesis by blast
  qed
  have "(i, w) \<notin> set acc" for w using old [of i w] by blast
  then have "i \<notin> fst ` set acc" by auto
  then have "distinct (map fst (acc @ [(i, v)]))"
    using assms(1) by (simp add: tally_def)
  moreover have "countVotes (vs[nat i := v]) = length (acc @ [(i, v)])"
    using assms by (simp add: tally_def countVotes_update)
  moreover have "0 \<le> j \<and> j < int (length vs) \<and> vs[nat i := v] ! nat j = w \<and> w \<noteq> []"
    if "(j, w) \<in> set (acc @ [(i, v)])" for j w
  proof (cases "(j, w) \<in> set acc")
    case True
    from old [OF this] show ?thesis by simp
  next
    case False
    with that assms(2-5) show ?thesis by simp
  qed
  ultimately show ?thesis unfolding tally_def length_list_update by blast
qed

lemma map_filter_snoc: "List.map_filter f (xs @ [x]) = List.map_filter f xs @ (case f x of None \<Rightarrow> [] | Some y \<Rightarrow> [y])"
  by (simp add: map_filter_def split: option.splits)

lemma named_snoc: "named (tr @ [(x, r)]) \<longleftrightarrow>
    named tr \<and> (case x of BPropose _ _ v _ \<Rightarrow> v \<noteq> [] | BCommit _ v _ \<Rightarrow> v \<noteq> [] | _ \<Rightarrow> True)"
  by (auto simp: named_def)

definition tallies :: "(ballot_op \<times> ballot_result) list \<Rightarrow> Ballot \<Rightarrow> bool" where
  "tallies tr b \<longleftrightarrow> tally (List.map_filter voted_propose tr) (proposed b) \<and>
     tally (List.map_filter voted_commit tr) (committed b)"

lemma tallies_call:
  assumes "tallies tr b" and "named (tr @ [(x, r)])" and "ballot_call F x b = Ret r b'"
  shows "tallies (tr @ [(x, r)]) b'"
proof (cases x)
  case (BPropose now eid v i)
  with assms show ?thesis
    by (auto simp: tallies_def map_filter_snoc bind_eq_Ret_iff votePropose_eq setTTL_def Let_def
        tally_vote named_snoc split: if_splits)
next
  case (BCommit eid v i)
  with assms show ?thesis
    by (auto simp: tallies_def map_filter_snoc bind_eq_Ret_iff voteCommit_eq Let_def
        tally_vote named_snoc split: if_splits)
next
  case (BClose now err)
  with assms show ?thesis
    by (auto simp: tallies_def map_filter_snoc bind_eq_Ret_iff zoom_eq_Ret_iff Ballot_close_eq Let_def
        split: if_splits option.splits)
next
  case BTimeout
  with assms show ?thesis
    by (auto simp: tallies_def map_filter_snoc bind_eq_Ret_iff zoom_eq_Ret_iff Ballot_timeout_eq Let_def
        split: timer.splits)
next
  case (BWait a)
  with assms show ?thesis
    by (cases a) (auto simp: tallies_def map_filter_snoc bind_eq_Ret_iff zoom_eq_Ret_iff)
qed

lemma tallies_trace:
  assumes "ballot_trace F b0 tr b" and "b0 = newBallot fe n ttl"
  shows "named tr \<Longrightarrow> tallies tr b"
  using assms(1)
proof induction
  case start
  then show ?case by (simp add: assms(2) tallies_def tally_def newBallot_def map_filter_def)
next
  case (step tr b x r b')
  then have "named tr" by (simp add: named_snoc)
  from tallies_call [OF step.IH [OF this] step.prems step.hyps(2)] show ?case .
qed

text \<open>
  C18: Every vote counts once. After any steps with named voters, the number of proposals is
  the number of propose calls that were told they voted, the number of commits that of the
  commit calls that were told so; no index was accepted twice in a phase, an accepted vote
  stays in its slot for good, and neither count exceeds the required votes.
\<close>

theorem ballot_counts_votes:
  assumes "ballot_trace F (newBallot fe n ttl) tr b" and "0 < n" and "named tr"
  shows "let ps = List.map_filter voted_propose tr; cs = List.map_filter voted_commit tr
    in Ballot_Proposals b = length ps \<and> Ballot_Commits b = length cs \<and>
       length ps \<le> n \<and> length cs \<le> n \<and> distinct (map fst ps) \<and> distinct (map fst cs) \<and>
       (\<forall>(i, v)\<in>set ps. proposed b ! nat i = v) \<and> (\<forall>(i, v)\<in>set cs. committed b ! nat i = v)"
proof -
  have "tallies tr b" using tallies_trace [OF assms(1) refl assms(3)] .
  moreover have "ballot_ok n b" using ballot_trace_ok [OF assms(1)] assms(2) by simp
  ultimately show ?thesis
    using countVotes_le [of "proposed b"] countVotes_le [of "committed b"]
    by (auto simp: tallies_def tally_def ballot_ok_def Ballot_Proposals_def Ballot_Commits_def Let_def)
qed

theorem ballot_counts_votes_witness: "Ballot_Proposals one_ballot = 1"
  using ballot_counts_votes [OF one_trace] by (simp add: named_def map_filter_def Let_def)

text \<open>
  C33: A timeout closes the ballot without recording why. The waiter gets
  \<open>errBallotTimedOut\<close>, but \<open>Error\<close> still returns nil, later votes are refused with
  \<open>errBallotClosed\<close> and a later \<open>close\<close>, whatever its error, reports nil and changes
  nothing; the time of completion is never set.
\<close>

theorem timeout_hides_error:
  assumes "ballot_ok n b" and "0 < n" and "\<not> b_closed b" and "Ballot_timeout b = Ret () b'"
  shows "Ballot_Closed b' \<and> Ballot_Error b' = None \<and>
    (\<exists>b''. Ballot_Wait Arm_err b' = Ret (Some errBallotTimedOut) b'') \<and>
    Ballot_close now err b' = Ret None b' \<and> b_completed b' = b_completed b \<and>
    voteCommit F (fe_id (F (fentry b))) voter i b' = Ret (-1, False, Some errBallotClosed) b'"
proof -
  have "b' = b\<lparr>b_timer := Timer_fired, b_closed := True, errc := (errc b)\<lparr>buf := [errBallotTimedOut]\<rparr>\<rparr>"
    "b_err b = None"
    using assms by (auto simp: ballot_ok_def Ballot_timeout_eq zoom_eq_Ret_iff chan_send_eq_Ret_iff Let_def)
  then show ?thesis
    by (simp add: Ballot_Closed_def Ballot_Error_def Ballot_close_eq voteCommit_eq closed_error_def
        zoom_def chan_recv_def)
qed

theorem timeout_hides_error_witness:
  "Ballot_Error (after (Ballot_timeout one_ballot)) = None \<and> Ballot_Closed (after (Ballot_timeout one_ballot))"
proof -
  have o: "ballot_ok 1 one_ballot" using ballot_trace_ok [OF one_trace] by simp
  have c: "\<not> b_closed one_ballot" "Ballot_timeout one_ballot = Ret () (after (Ballot_timeout one_ballot))"
    by (simp_all add: one_ballot_def bind_def votePropose_eq one_future_def NewFutureEntry_def newBallot_def
        setTTL_def Let_def Ballot_timeout_eq zoom_def)
  from timeout_hides_error [OF o _ c, of 0 None one_future "[]" 0] show ?thesis by simp
qed

end
