(* ===== verification/Node.thy ===== *)
theory Node
  imports Log_Runs Ballot
begin

section \<open>The state of a node\<close>

text \<open>
  What a \<open>Hexalog\<close> of hexalog.go holds, together with the parts of the \<open>fsm\<close> of fsm.go,
  over the in-memory stores. Ballots and futures are shared through pointers: each has a
  heap of its own and a pointer is an index below the next free one. The application, the
  Lamport clock of the package hexatype and the empty struct as a response are parameters:
  an \<open>Env\<close>. The clock lives in the configuration, as in the code.
\<close>

record ('a, 'd, 'c) Env =
  app_Apply :: "bytes \<Rightarrow> Entry \<Rightarrow> 'a \<Rightarrow> (error + 'd) option \<times> 'a"
  no_data :: 'd
  clock_Increment :: "'c \<Rightarrow> 'c"
  clock_Witness :: "64 word \<Rightarrow> 'c \<Rightarrow> 'c"
  clock_Time :: "'c \<Rightarrow> 64 word"

record ('a, 'd, 'c) Node =
  h_conf :: "'c Config"
  h_app :: 'a
  applyCh :: "nat chan"
  h_ss :: InMemStableStore
  h_store :: mem_state
  h_futures :: "nat \<Rightarrow> 'd FutureEntry"
  h_nfutures :: nat
  h_ballots :: "(byte list, nat) gomap"
  h_bheap :: "nat \<Rightarrow> Ballot"
  h_nballots :: nat
  pch :: "ReqResp chan"
  cch :: "ReqResp chan"
  hch :: "ReqResp chan"
  h_shutdown :: bool
  shutdownCh :: "unit chan"

abbreviation hasher :: "('a, 'd, 'c) Node \<Rightarrow> hash_fn" where
  "hasher n \<equiv> Hasher (h_conf n)"

abbreviation hlog_log :: "('a, 'd, 'c) Node \<Rightarrow> (InMemEntryStore, InMemIndexStore, nat) LogStore" where
  "hlog_log n \<equiv> mem_log (hasher n)"

text \<open>A node before its queues, ballots and futures exist.\<close>

definition bare_node :: "'c Config \<Rightarrow> 'a \<Rightarrow> InMemStableStore \<Rightarrow> mem_state \<Rightarrow> ('a, 'd, 'c) Node" where
  "bare_node conf app ss store =
     \<lparr>h_conf = conf, h_app = app, applyCh = make_chan 0, h_ss = ss, h_store = store,
      h_futures = (\<lambda>_. NewFutureEntry None zero_Entry), h_nfutures = 0,
      h_ballots = [], h_bheap = (\<lambda>_. newBallot 0 0 0), h_nballots = 0,
      pch = make_chan 0, cch = make_chan 0, hch = make_chan 0,
      h_shutdown = False, shutdownCh = make_chan 0\<rparr>"

text \<open>\<open>hlog.conf.LamportClock.Witness(t)\<close> and \<open>Increment()\<close>.\<close>

definition Witness :: "('a, 'd, 'c) Env \<Rightarrow> 64 word \<Rightarrow> ('a, 'd, 'c) Node \<Rightarrow> ('a, 'd, 'c) Node" where
  "Witness E t n = n\<lparr>h_conf := (h_conf n)\<lparr>LamportClock := clock_Witness E t (LamportClock (h_conf n))\<rparr>\<rparr>"

definition Increment :: "('a, 'd, 'c) Env \<Rightarrow> ('a, 'd, 'c) Node \<Rightarrow> ('a, 'd, 'c) Node" where
  "Increment E n = n\<lparr>h_conf := (h_conf n)\<lparr>LamportClock := clock_Increment E (LamportClock (h_conf n))\<rparr>\<rparr>"

text \<open>Allocating, and calling a method through a pointer or on a channel of the node.\<close>

definition new_future :: "'d FutureEntry \<Rightarrow> ('a, 'd, 'c) Node \<Rightarrow> nat \<times> ('a, 'd, 'c) Node" where
  "new_future fe n =
     (h_nfutures n, n\<lparr>h_futures := (h_futures n)(h_nfutures n := fe), h_nfutures := Suc (h_nfutures n)\<rparr>)"

definition new_ballot :: "Ballot \<Rightarrow> ('a, 'd, 'c) Node \<Rightarrow> nat \<times> ('a, 'd, 'c) Node" where
  "new_ballot b n =
     (h_nballots n, n\<lparr>h_bheap := (h_bheap n)(h_nballots n := b), h_nballots := Suc (h_nballots n)\<rparr>)"

definition on_future :: "nat \<Rightarrow> ('d FutureEntry, 'r) call \<Rightarrow> (('a, 'd, 'c) Node, 'r) call" where
  "on_future r = zoom (\<lambda>n. h_futures n r) (\<lambda>f n. n\<lparr>h_futures := (h_futures n)(r := f)\<rparr>)"

definition on_ballot :: "nat \<Rightarrow> (Ballot, 'r) call \<Rightarrow> (('a, 'd, 'c) Node, 'r) call" where
  "on_ballot r = zoom (\<lambda>n. h_bheap n r) (\<lambda>b n. n\<lparr>h_bheap := (h_bheap n)(r := b)\<rparr>)"

definition on_applyCh :: "(nat chan, 'r) call \<Rightarrow> (('a, 'd, 'c) Node, 'r) call" where
  "on_applyCh = zoom applyCh (\<lambda>c n. n\<lparr>applyCh := c\<rparr>)"

definition on_pch :: "(ReqResp chan, 'r) call \<Rightarrow> (('a, 'd, 'c) Node, 'r) call" where
  "on_pch = zoom pch (\<lambda>c n. n\<lparr>pch := c\<rparr>)"

definition on_cch :: "(ReqResp chan, 'r) call \<Rightarrow> (('a, 'd, 'c) Node, 'r) call" where
  "on_cch = zoom cch (\<lambda>c n. n\<lparr>cch := c\<rparr>)"

definition on_hch :: "(ReqResp chan, 'r) call \<Rightarrow> (('a, 'd, 'c) Node, 'r) call" where
  "on_hch = zoom hch (\<lambda>c n. n\<lparr>hch := c\<rparr>)"

definition on_ss :: "(InMemStableStore, 'r) call \<Rightarrow> (('a, 'd, 'c) Node, 'r) call" where
  "on_ss = zoom h_ss (\<lambda>s n. n\<lparr>h_ss := s\<rparr>)"

lemmas on_defs = on_future_def on_ballot_def on_applyCh_def on_pch_def on_cch_def on_hch_def on_ss_def

text \<open>What each of these leaves alone follows from \<open>after_zoom\<close>.\<close>

lemma after_on:
  "after (on_future r f n) = n\<lparr>h_futures := (h_futures n)(r := after (f (h_futures n r)))\<rparr>"
  "after (on_ballot r b n) = n\<lparr>h_bheap := (h_bheap n)(r := after (b (h_bheap n r)))\<rparr>"
  "after (on_applyCh m n) = n\<lparr>applyCh := after (m (applyCh n))\<rparr>"
  "after (on_pch q n) = n\<lparr>pch := after (q (pch n))\<rparr>"
  "after (on_cch q n) = n\<lparr>cch := after (q (cch n))\<rparr>"
  "after (on_hch q n) = n\<lparr>hch := after (q (hch n))\<rparr>"
  "after (on_ss s n) = n\<lparr>h_ss := after (s (h_ss n))\<rparr>"
  by (simp_all add: on_defs after_zoom)

end
