(* ===== verification/Fsm.thy ===== *)
theory Fsm
  imports Node
begin

section \<open>The application loop (fsm.go)\<close>

text \<open>
  \<open>apply\<close> queues a future; the goroutine \<open>start\<close> takes futures in order, applies the entry
  to the application, witnesses its time, records it in the stable store and completes the
  future; \<open>check\<close> queues at the start of a node what the stable store says was not applied.
\<close>

definition fsm_apply :: "int \<Rightarrow> nat \<Rightarrow> (('a, 'd, 'c) Node, unit) call" where
  "fsm_apply now r n =
     (let n = n\<lparr>h_futures := (h_futures n)(r := FutureEntry_dispatch now (h_futures n r))\<rparr>
      in on_applyCh (chan_send r) n)"

text \<open>The part of \<open>newFsm\<close> that is not in the record: the queue and the opening of the store.\<close>

definition newFsm :: "('a, 'd, 'c) Node \<Rightarrow> error option \<times> ('a, 'd, 'c) Node" where
  "newFsm n =
     (case InMemStableStore_Open (h_ss n) of
        (Some err, ss) \<Rightarrow> (Some err, n\<lparr>applyCh := make_chan 16, h_ss := ss\<rparr>)
      | (None, ss) \<Rightarrow> (None, n\<lparr>applyCh := make_chan 16, h_ss := ss\<rparr>))"

text \<open>One turn of the loop of \<open>start\<close>; false is the end of the loop, at a closed channel.\<close>

definition fsm_step :: "('a, 'd, 'c) Env \<Rightarrow> int \<Rightarrow> (('a, 'd, 'c) Node, bool) call" where
  "fsm_step E now =
     bind (on_applyCh chan_recv) (\<lambda>msg.
       case msg of
         None \<Rightarrow> Ret False
       | Some r \<Rightarrow> (\<lambda>n.
           let fe = h_futures n r;
               entry = fe_Entry fe;
               (resp, app) = app_Apply E (fe_id fe) entry (h_app n);
               n = n\<lparr>h_app := app\<rparr>;
               (data, e1) = (case resp of
                   None \<Rightarrow> (no_data E, None)
                 | Some (Inl e) \<Rightarrow> (no_data E, Some e)
                 | Some (Inr d) \<Rightarrow> (d, None));
               n = Witness E (LTime entry) n
           in bind (on_ss (InMemStableStore_Set (Key entry) (fe_id fe))) (\<lambda>e2.
                bind (on_future r (FutureEntry_applied now data (mergeErrors e1 e2))) (\<lambda>_. Ret True)) n))"

text \<open>
  What \<open>check\<close> queues for one key: the ids from \<open>seek\<close> on, when the last id is not the one
  in the stable store. Ids without an entry are skipped and a failed search is ignored.
\<close>

definition check_key :: "('a, 'd, 'c) Node \<Rightarrow> bytes \<times> nat \<Rightarrow> (bytes \<times> Entry) list" where
  "check_key n kv =
     (case kv of (key, ki) \<Rightarrow>
        (let last1 = KI_Last mem_keylog_index ki (ls_index (h_store n));
             got = InMemStableStore_Get key (h_ss n);
             seek = (case got of Inl _ \<Rightarrow> None | Inr v \<Rightarrow> v)
         in if (case got of Inl _ \<Rightarrow> False | Inr v \<Rightarrow> bytes_Compare v last1 = 0) then []
            else (case KI_visits mem_keylog_index ki seek (ls_index (h_store n)) of
                    Inl _ \<Rightarrow> []
                  | Inr ids \<Rightarrow>
                      List.map_filter
                        (\<lambda>eid. case InMemEntryStore_Get eid (ls_entries (h_store n)) of
                                 Inl _ \<Rightarrow> None
                               | Inr ent \<Rightarrow> Some (eid, ent)) ids)))"

definition check_list :: "('a, 'd, 'c) Node \<Rightarrow> (bytes \<times> Entry) list" where
  "check_list n = concat (map (check_key n) (InMemIndexStore_visits (ls_index (h_store n))))"

definition fsm_replay :: "int \<Rightarrow> bytes \<times> Entry \<Rightarrow> (('a, 'd, 'c) Node, unit) call" where
  "fsm_replay now ie n =
     (case new_future (NewFutureEntry (fst ie) (snd ie)) n of (r, n) \<Rightarrow> fsm_apply now r n)"

text \<open>
  While \<open>check\<close> queues, the loop already runs: when the queue is full, the send waits until the
  loop has taken one. Turns it takes before that leave the same behind, as what is replayed
  for a key was determined before its first entry was queued.
\<close>

definition replay_running :: "('a, 'd, 'c) Env \<Rightarrow> int \<Rightarrow> bytes \<times> Entry \<Rightarrow> (('a, 'd, 'c) Node, unit) call" where
  "replay_running E now ie n =
     bind (if length (buf (applyCh n)) < cap (applyCh n) then Ret () else bind (fsm_step E now) (\<lambda>_. Ret ()))
       (\<lambda>_. fsm_replay now ie) n"

definition fsm_check :: "('a, 'd, 'c) Env \<Rightarrow> int \<Rightarrow> (('a, 'd, 'c) Node, error option) call" where
  "fsm_check E now n = bind (each (replay_running E now) (check_list n)) (\<lambda>_. Ret None) n"

subsection \<open>Entries are applied in the order they were queued\<close>

text \<open>
  The queue of a node: the futures in it are allocated, distinct and not applied yet, and
  the stable store is open. Then a turn of the loop always returns.
\<close>

definition fsm_ok :: "('a, 'd, 'c) Node \<Rightarrow> bool" where
  "fsm_ok n \<longleftrightarrow> mem_ss_ok (h_ss n) \<and> \<not> is_closed (applyCh n) \<and> distinct (buf (applyCh n)) \<and>
     (\<forall>r\<in>set (buf (applyCh n)). r < h_nfutures n \<and> pending (h_futures n r))"

definition queued :: "('a, 'd, 'c) Node \<Rightarrow> (bytes \<times> Entry) list" where
  "queued n = map (\<lambda>r. (fe_id (h_futures n r), fe_Entry (h_futures n r))) (buf (applyCh n))"

type_synonym ('a, 'c) applied_state = "'a \<times> (byte list \<rightharpoonup> bytes) \<times> 'c"

definition applied_state :: "('a, 'd, 'c) Node \<Rightarrow> ('a, 'c) applied_state" where
  "applied_state n = (h_app n, mem_ss_ids (h_ss n), LamportClock (h_conf n))"

fun apply_spec :: "('a, 'd, 'c) Env \<Rightarrow> bytes \<times> Entry \<Rightarrow> ('a, 'c) applied_state \<Rightarrow> ('a, 'c) applied_state" where
  "apply_spec E (eid, entry) (a, m, c) =
     (snd (app_Apply E eid entry a), m(els (Key entry) \<mapsto> eid), clock_Witness E (LTime entry) c)"

lemma ss_Set_effect:
  assumes "mem_ss_ok s"
  obtains s' where "InMemStableStore_Set key v s = Ret None s'" "mem_ss_ok s'"
    "mem_ss_ids s' = (mem_ss_ids s)(els key \<mapsto> v)"
  using mem_ss.SS_Set [OF assms, of key v] by (auto simp: mem_stable_def)

lemma fsm_step_effect:
  assumes "fsm_ok n" and "buf (applyCh n) = r # rs"
  obtains n' where "fsm_step E now n = Ret True n'" "fsm_ok n'" "buf (applyCh n') = rs"
    "queued n' = tl (queued n)" "applied_state n' = apply_spec E (hd (queued n)) (applied_state n)"
    "h_nfutures n' = h_nfutures n" "\<And>q. q \<noteq> r \<Longrightarrow> h_futures n' q = h_futures n q"
    "h_store n' = h_store n \<and> h_ballots n' = h_ballots n \<and> h_bheap n' = h_bheap n \<and>
     h_nballots n' = h_nballots n \<and> hasher n' = hasher n"
    "\<And>q. fe_id (h_futures n' q) = fe_id (h_futures n q) \<and> fe_Entry (h_futures n' q) = fe_Entry (h_futures n q)"
proof -
  let ?fe = "h_futures n r"
  obtain resp app where app: "app_Apply E (fe_id ?fe) (fe_Entry ?fe) (h_app n) = (resp, app)" by (metis prod.collapse)
  define d where "d = (case resp of Some (Inr x) \<Rightarrow> x | _ \<Rightarrow> no_data E)"
  define e1 where "e1 = (case resp of Some (Inl e) \<Rightarrow> Some e | _ \<Rightarrow> None)"
  obtain s' where s': "InMemStableStore_Set (Key (fe_Entry ?fe)) (fe_id ?fe) (h_ss n) = Ret None s'"
    "mem_ss_ok s'" "mem_ss_ids s' = (mem_ss_ids (h_ss n))(els (Key (fe_Entry ?fe)) \<mapsto> fe_id ?fe)"
    using ss_Set_effect assms(1) by (metis fsm_ok_def)
  have p: "pending ?fe" using assms by (simp add: fsm_ok_def)
  obtain f' where f': "FutureEntry_applied now d e1 ?fe = Ret () f'" "fe_id f' = fe_id ?fe" "fe_Entry f' = fe_Entry ?fe"
    using applied_pending [OF p, of now d e1] by (auto split: option.splits)
  define n' where "n' = n\<lparr>applyCh := (applyCh n)\<lparr>buf := rs\<rparr>, h_app := app,
     h_conf := (h_conf n)\<lparr>LamportClock := clock_Witness E (LTime (fe_Entry ?fe)) (LamportClock (h_conf n))\<rparr>,
     h_ss := s', h_futures := (h_futures n)(r := f')\<rparr>"
  have "fsm_step E now n = Ret True n'"
    using app s' f' assms(2)
    by (cases resp) (auto simp: fsm_step_def on_defs zoom_def chan_recv_def bind_def Let_def
      Witness_def n'_def d_def e1_def split: sum.splits)
  moreover have "fsm_ok n'" "buf (applyCh n') = rs"
    "queued n' = tl (queued n)" "applied_state n' = apply_spec E (hd (queued n)) (applied_state n)"
    "h_nfutures n' = h_nfutures n"
    using assms s' f' app by (auto simp: n'_def fsm_ok_def queued_def applied_state_def)
  moreover have "h_futures n' q = h_futures n q" if "q \<noteq> r" for q
    using that by (simp add: n'_def)
  moreover have "h_store n' = h_store n \<and> h_ballots n' = h_ballots n \<and> h_bheap n' = h_bheap n \<and>
     h_nballots n' = h_nballots n \<and> hasher n' = hasher n"
    by (simp add: n'_def)
  moreover have "fe_id (h_futures n' q) = fe_id (h_futures n q) \<and> fe_Entry (h_futures n' q) = fe_Entry (h_futures n q)" for q
    using f' by (simp add: n'_def)
  ultimately show ?thesis by (rule that)
qed

lemma fsm_replay_effect:
  assumes "fsm_ok n" and "\<forall>r\<in>set (buf (applyCh n)). r < h_nfutures n"
    and "fsm_replay now ie n = Ret u n'"
  shows "fsm_ok n'" and "queued n' = queued n @ [ie]" and "applied_state n' = applied_state n"
    and "cap (applyCh n') = cap (applyCh n)" and "length (buf (applyCh n)) < cap (applyCh n)"
proof -
  let ?r = "h_nfutures n"
  have n': "n' = n\<lparr>h_futures := (h_futures n)(?r := FutureEntry_dispatch now (NewFutureEntry (fst ie) (snd ie))),
      h_nfutures := Suc ?r, applyCh := (applyCh n)\<lparr>buf := buf (applyCh n) @ [?r]\<rparr>\<rparr>"
    and room: "has_room (applyCh n)"
    using assms(3) by (auto simp: fsm_replay_def new_future_def fsm_apply_def Let_def on_defs
        zoom_eq_Ret_iff chan_send_eq_Ret_iff)
  show "length (buf (applyCh n)) < cap (applyCh n)" using room by (simp add: has_room_def)
  have q: "x \<noteq> ?r" if "x \<in> set (buf (applyCh n))" for x using that assms(2) by auto
  then show "queued n' = queued n @ [ie]"
    by (auto simp: queued_def n' FutureEntry_dispatch_def NewFutureEntry_def)
  show "applied_state n' = applied_state n" "cap (applyCh n') = cap (applyCh n)"
    by (simp_all add: applied_state_def n')
  show "fsm_ok n'" using assms(1) q by (auto simp: fsm_ok_def n' less_Suc_eq)
qed

subsection \<open>The replay returns\<close>

lemma fsm_step_cap: "fsm_step E now n = Ret b n' \<Longrightarrow> cap (applyCh n') = cap (applyCh n)"
  by (auto simp: fsm_step_def on_defs bind_eq_Ret_iff zoom_eq_Ret_iff chan_recv_def Let_def Witness_def
      split: list.splits if_splits option.splits prod.splits)

text \<open>
  A turn of the loop while entries are replayed takes the oldest queued entry. What was applied
  is a prefix of what was queued, and the rest is still in the queue.
\<close>

definition moves :: "('a, 'd, 'c) Env \<Rightarrow> (bytes \<times> Entry) list \<Rightarrow> ('a, 'd, 'c) Node \<Rightarrow> ('a, 'd, 'c) Node \<Rightarrow> bool" where
  "moves E new n n' \<longleftrightarrow> fsm_ok n' \<and> cap (applyCh n') = cap (applyCh n) \<and>
     length (buf (applyCh n')) \<le> cap (applyCh n') \<and>
     (\<exists>done. queued n @ new = done @ queued n' \<and> applied_state n' = fold (apply_spec E) done (applied_state n))"

lemma moves_trans: "moves E xs n n1 \<Longrightarrow> moves E ys n1 n2 \<Longrightarrow> moves E (xs @ ys) n n2"
proof -
  assume a: "moves E xs n n1" and b: "moves E ys n1 n2"
  then obtain d1 d2 where d: "queued n @ xs = d1 @ queued n1" "applied_state n1 = fold (apply_spec E) d1 (applied_state n)"
    "queued n1 @ ys = d2 @ queued n2" "applied_state n2 = fold (apply_spec E) d2 (applied_state n1)"
    by (auto simp: moves_def)
  have "queued n @ xs @ ys = (d1 @ d2) @ queued n2" using d(1,3) by (metis append.assoc)
  moreover have "applied_state n2 = fold (apply_spec E) (d1 @ d2) (applied_state n)" using d(2,4) by simp
  ultimately show ?thesis using a b unfolding moves_def by metis
qed

lemma replay_moves:
  assumes "fsm_ok n" and "length (buf (applyCh n)) < cap (applyCh n)"
  shows "\<exists>n'. fsm_replay now ie n = Ret () n' \<and> moves E [ie] n n'"
proof -
  obtain n' where r: "fsm_replay now ie n = Ret () n'"
    using assms by (simp add: fsm_replay_def new_future_def fsm_apply_def Let_def on_defs zoom_def chan_send_def
      has_room_def fsm_ok_def)
  have "\<forall>r\<in>set (buf (applyCh n)). r < h_nfutures n" using assms(1) by (simp add: fsm_ok_def)
  note e = fsm_replay_effect [OF assms(1) this r]
  have "length (queued n') = Suc (length (queued n))" using e(2) by simp
  then have "length (buf (applyCh n')) \<le> cap (applyCh n')" using e(4) assms(2) by (simp add: queued_def)
  with e r show ?thesis by (auto simp: moves_def intro!: exI [of _ "[]"])
qed

lemma turn_moves:
  assumes "fsm_ok n" and "buf (applyCh n) \<noteq> []" and "length (buf (applyCh n)) \<le> cap (applyCh n)"
  shows "\<exists>n'. fsm_step E now n = Ret True n' \<and> moves E [] n n' \<and> length (buf (applyCh n')) < length (buf (applyCh n))"
proof -
  obtain r rs where b: "buf (applyCh n) = r # rs" using assms(2) by (cases "buf (applyCh n)") auto
  obtain n' where n': "fsm_step E now n = Ret True n'" "fsm_ok n'" "buf (applyCh n') = rs"
    "queued n' = tl (queued n)" "applied_state n' = apply_spec E (hd (queued n)) (applied_state n)"
    using fsm_step_effect [OF assms(1) b, of E now] by metis
  have "queued n = [hd (queued n)] @ queued n'" using b n'(4) by (simp add: queued_def)
  with n' b assms(3) fsm_step_cap [OF n'(1)] show ?thesis
    unfolding moves_def by (intro exI [of _ n']) (auto intro!: exI [of _ "[hd (queued n)]"])
qed

lemma replay_running_moves:
  assumes "fsm_ok n" and "0 < cap (applyCh n)" and "length (buf (applyCh n)) \<le> cap (applyCh n)"
  shows "\<exists>n'. replay_running E now ie n = Ret () n' \<and> moves E [ie] n n'"
proof (cases "length (buf (applyCh n)) < cap (applyCh n)")
  case True
  with replay_moves [OF assms(1) True] show ?thesis by (simp add: replay_running_def bind_def)
next
  case False
  with assms have "buf (applyCh n) \<noteq> []" by auto
  from turn_moves [OF assms(1) this assms(3), of E now] obtain n1 where n1: "fsm_step E now n = Ret True n1" "moves E [] n n1"
    "length (buf (applyCh n1)) < length (buf (applyCh n))" by blast
  then have "fsm_ok n1" "length (buf (applyCh n1)) < cap (applyCh n1)" using assms(3) by (simp_all add: moves_def)
  from replay_moves [OF this, of now ie E] obtain n' where n': "fsm_replay now ie n1 = Ret () n'" "moves E [ie] n1 n'" by blast
  with moves_trans [OF n1(2) n'(2)] n1(1) False show ?thesis by (simp add: replay_running_def bind_def)
qed

text \<open>
  The replay at the start of a node returns whatever its length, although the queue is
  bounded; what the loop has applied by then and what is still queued is what was queued
  before followed by the entries to replay, in order.
\<close>

lemma fsm_check_returns:
  assumes "fsm_ok n" and "0 < cap (applyCh n)" and "length (buf (applyCh n)) \<le> cap (applyCh n)"
  shows "\<exists>n'. fsm_check E now n = Ret None n' \<and> moves E (check_list n) n n'"
proof -
  have "\<exists>n'. each (replay_running E now) ies m = Ret () n' \<and> moves E ies m n'"
    if "fsm_ok m" "0 < cap (applyCh m)" "length (buf (applyCh m)) \<le> cap (applyCh m)" for ies and m :: "('a, 'b, 'c) Node"
    using that
  proof (induction ies arbitrary: m)
    case Nil
    then show ?case by (simp add: moves_def)
  next
    case (Cons ie ies)
    from replay_running_moves [OF Cons.prems, of E now ie] obtain m1 where m1: "replay_running E now ie m = Ret () m1"
      "moves E [ie] m m1" by blast
    with Cons.IH [of m1] Cons.prems obtain n' where "each (replay_running E now) ies m1 = Ret () n'" "moves E ies m1 n'"
      by (auto simp: moves_def)
    with m1 moves_trans [OF m1(2), of ies n'] show ?case by (simp add: bind_def)
  qed
  from this [OF assms, of "check_list n"] show ?thesis by (auto simp: fsm_check_def bind_def)
qed

subsection \<open>Any order of queueing and turns\<close>

datatype fsm_op = Queue int bytes Entry | Turn int

fun fsm_call :: "('a, 'd, 'c) Env \<Rightarrow> fsm_op \<Rightarrow> (('a, 'd, 'c) Node, unit) call" where
  "fsm_call E (Queue now eid e) = fsm_replay now (eid, e)"
| "fsm_call E (Turn now) = bind (fsm_step E now) (\<lambda>_. Ret ())"

inductive fsm_trace ::
  "('a, 'd, 'c) Env \<Rightarrow> ('a, 'd, 'c) Node \<Rightarrow> fsm_op list \<Rightarrow> ('a, 'd, 'c) Node \<Rightarrow> bool"
  for E :: "('a, 'd, 'c) Env" and n0 :: "('a, 'd, 'c) Node" where
  start: "fsm_trace E n0 [] n0"
| step: "fsm_trace E n0 ops n \<Longrightarrow> fsm_call E x n = Ret u n' \<Longrightarrow> fsm_trace E n0 (ops @ [x]) n'"

fun queue_of :: "fsm_op \<Rightarrow> (bytes \<times> Entry) list" where
  "queue_of (Queue _ eid e) = [(eid, e)]"
| "queue_of (Turn _) = []"

fun is_turn :: "fsm_op \<Rightarrow> bool" where
  "is_turn (Turn _) = True"
| "is_turn (Queue _ _ _) = False"

definition turns :: "fsm_op list \<Rightarrow> nat" where
  "turns ops = length (filter is_turn ops)"

lemma fsm_trace_inv:
  assumes "fsm_trace E n0 ops n" and "fsm_ok n0" and "buf (applyCh n0) = []"
  shows "fsm_ok n \<and> turns ops \<le> length (concat (map queue_of ops)) \<and>
    queued n = drop (turns ops) (concat (map queue_of ops)) \<and> cap (applyCh n) = cap (applyCh n0) \<and>
    applied_state n = fold (apply_spec E) (take (turns ops) (concat (map queue_of ops))) (applied_state n0)"
  using assms(1)
proof induction
  case start
  with assms(2,3) show ?case by (simp add: turns_def queued_def)
next
  case (step ops n x u n')
  let ?q = "concat (map queue_of ops)" and ?k = "turns ops"
  note IH = step.IH
  show ?case
  proof (cases x)
    case (Queue now eid e)
    then have r: "fsm_replay now (eid, e) n = Ret u n'" using step.hyps(2) by simp
    have lt: "\<forall>r\<in>set (buf (applyCh n)). r < h_nfutures n" using IH by (simp add: fsm_ok_def)
    note eff = fsm_replay_effect [OF conjunct1 [OF IH] lt r]
    have "turns (ops @ [x]) = ?k" by (simp add: turns_def Queue)
    with IH eff show ?thesis by (simp add: Queue)
  next
    case (Turn now)
    then obtain v where s: "fsm_step E now n = Ret v n'"
      using step.hyps(2) by (auto simp: bind_eq_Ret_iff)
    have nc: "\<not> is_closed (applyCh n)" using IH by (simp add: fsm_ok_def)
    have k: "turns (ops @ [x]) = Suc ?k" by (simp add: turns_def Turn)
    show ?thesis
    proof (cases "buf (applyCh n)")
      case Nil
      with s nc show ?thesis by (simp add: fsm_step_def on_defs zoom_def chan_recv_def bind_def)
    next
      case (Cons r rs)
      obtain n2 where n2: "fsm_step E now n = Ret True n2" "fsm_ok n2" "buf (applyCh n2) = rs"
        "queued n2 = tl (queued n)" "applied_state n2 = apply_spec E (hd (queued n)) (applied_state n)"
        using fsm_step_effect [OF conjunct1 [OF IH] Cons, of E now] by metis
      have eq: "n2 = n'" using n2(1) s by simp
      have "queued n \<noteq> []" using Cons by (simp add: queued_def)
      then have lt: "?k < length ?q" using IH by simp
      then have hd: "hd (queued n) = ?q ! ?k" and tl: "tl (queued n) = drop (Suc ?k) ?q"
        using IH by (simp_all add: hd_drop_conv_nth drop_Suc tl_drop)
      have "cap (applyCh n') = cap (applyCh n)"
        using s by (auto simp: fsm_step_def on_defs bind_eq_Ret_iff zoom_eq_Ret_iff chan_recv_def Let_def Witness_def
            split: list.splits if_splits option.splits prod.splits)
      with IH n2 eq k lt hd tl show ?thesis
        by (simp add: Turn take_Suc_conv_app_nth)
    qed
  qed
qed

text \<open>
  C29: Entries reach the application in the order they were queued, each once. However
  queuing and the loop interleave, after \<open>k\<close> turns of the loop the application, the stable
  store and the clock are those after the first \<open>k\<close> queued entries applied one by one; the
  queue holds the rest, never more than its capacity beyond what fits, and as long as it
  holds any the next turn returns.
\<close>

theorem fsm_applies_in_order:
  assumes "fsm_trace E n0 ops n" and "fsm_ok n0" and "buf (applyCh n0) = []"
  shows "let q = concat (map queue_of ops); k = turns ops in
    k \<le> length q \<and> applied_state n = fold (apply_spec E) (take k q) (applied_state n0) \<and>
    queued n = drop k q \<and> (k < length q \<longrightarrow> (\<exists>n'. fsm_step E now n = Ret True n'))"
proof -
  note inv = fsm_trace_inv [OF assms]
  have "\<exists>n'. fsm_step E now n = Ret True n'" if "turns ops < length (concat (map queue_of ops))"
  proof -
    have "queued n \<noteq> []" using inv that by simp
    then obtain r rs where "buf (applyCh n) = r # rs" by (cases "buf (applyCh n)") (auto simp: queued_def)
    from fsm_step_effect [OF conjunct1 [OF inv] this, of E now] show ?thesis by blast
  qed
  with inv show ?thesis by (simp add: Let_def)
qed

subsection \<open>What a node replays when it starts\<close>

lemma seek_from_dropWhile:
  "(case seek_from v ids of None \<Rightarrow> [] | Some xs \<Rightarrow> xs) = dropWhile (\<lambda>i. els i \<noteq> els v) ids"
  by (induction ids) auto

text \<open>
  C30: For a key of a consistent log store the start-up check replays: the whole log when the
  stable store has nothing for the key; nothing when it has the last id, and also when it
  has an id that is not in the log; otherwise the log from the recorded entry on, that entry
  included, although it was applied already.
\<close>

theorem fsm_check_replays:
  assumes "good_hash (hasher n) U" and "mem_good (hasher n) U (h_store n)"
    and "mem_logs (h_store n) (els key) = Some es" and "mem_lookup (ls_index (h_store n)) (els key) = Some h"
  shows "check_key n (key, h) =
    (let all = map (\<lambda>e. (Entry_Hash (hasher n) e, e)) es
     in case InMemStableStore_Get key (h_ss n) of
          Inl _ \<Rightarrow> all
        | Inr v \<Rightarrow>
            if v = None then all
            else if es \<noteq> [] \<and> els (Entry_Hash (hasher n) (last es)) = els v then []
            else dropWhile (\<lambda>(i, e). els i \<noteq> els v) all)"
proof -
  let ?H = "hasher n" and ?C = "mem_contents (ls_entries (h_store n))" and ?i = "ls_index (h_store n)"
  let ?ids = "idx_Entries (is_heap ?i h)"
  have V: "mem_view ?i (els key) = Some (is_heap ?i h)" using assms(4) by simp
  have es: "es = map (\<lambda>i. the (?C (els i))) ?ids"
    using assms(3) V by (simp add: mem_logs_def abs_logs_def)
  have lo: "log_ok ?H U ?C (mem_view ?i)" using assms(2) by (simp add: mem_good_def)
  note ch = log_okD(4) [OF lo V]
  have ne: "els (Entry_Hash ?H e) \<noteq> []" for e
    using length_Entry_Hash [OF good_hash_ok [OF assms(1)], of e] good_hash_ok [OF assms(1)]
    by (auto simp: hash_fn_ok_def)
  have last: "idx_Last (is_heap ?i h) = (if es = [] then None else Entry_Hash ?H (last es))"
    using last_id_hash [OF ch] es by (auto simp: idx_Last_conv)
  define g where "g = (\<lambda>eid. case ?C (els eid) of None \<Rightarrow> None | Some ent \<Rightarrow> Some (eid, ent))"
  have g: "(\<lambda>eid. case InMemEntryStore_Get eid (ls_entries (h_store n)) of
      Inl _ \<Rightarrow> None | Inr ent \<Rightarrow> Some (eid, ent)) = g"
    by (auto simp: fun_eq_iff g_def InMemEntryStore_Get_def split: option.split)
  let ?f = "\<lambda>i. (i, the (?C (els i)))"
  have sub: "List.map_filter g xs = map ?f xs" if "set xs \<subseteq> set ?ids" for xs
    using that
  proof (induction xs)
    case (Cons i xs)
    then obtain e where "?C (els i) = Some e" using chained_memD [OF ch, of i] by auto
    with Cons show ?case by (simp add: map_filter_def g_def)
  qed (simp add: map_filter_def)
  have "Entry_Hash ?H (the (?C (els i))) = i" if "i \<in> set ?ids" for i
    using chained_memD [OF ch that] by auto
  then have all: "map (\<lambda>e. (Entry_Hash ?H e, e)) es = map ?f ?ids"
    unfolding es by simp
  have dw: "dropWhile (\<lambda>(i, e). els i \<noteq> v) (map ?f ?ids) = map ?f (dropWhile (\<lambda>i. els i \<noteq> v) ?ids)" for v
    by (simp add: dropWhile_map o_def)
  have dsub: "set (dropWhile (\<lambda>i. els i \<noteq> v) ?ids) \<subseteq> set ?ids" for v by (auto dest: set_dropWhileD)
  have it: "(case KI_visits mem_keylog_index h seek ?i of Inl _ \<Rightarrow> [] | Inr ids \<Rightarrow> List.map_filter g ids) =
      map ?f (if seek = None then ?ids else dropWhile (\<lambda>i. els i \<noteq> els seek) ?ids)" for seek
  proof (cases "seek = None")
    case True
    then show ?thesis using sub [of ?ids] by (simp add: mem_keylog_index_def idx_visits_def)
  next
    case False
    with seek_from_dropWhile [of seek ?ids] sub [OF dsub, of "els seek"] show ?thesis
      by (cases "seek_from seek ?ids") (auto simp add: mem_keylog_index_def idx_visits_def)
  qed
  have key: "check_key n (key, h) =
    (let got = InMemStableStore_Get key (h_ss n); seek = (case got of Inl _ \<Rightarrow> None | Inr v \<Rightarrow> v)
     in if (case got of Inl _ \<Rightarrow> False | Inr v \<Rightarrow> els v = els (idx_Last (is_heap ?i h))) then []
        else map ?f (if seek = None then ?ids else dropWhile (\<lambda>i. els i \<noteq> els seek) ?ids))"
    unfolding check_key_def Let_def prod.case g it
    by (simp add: mem_keylog_index_def split: sum.split)
  show ?thesis
    unfolding key all Let_def
    using last ne ne [symmetric] dw es by (auto split: sum.splits)
qed

text \<open>A concrete node: its application collects the ids it is given, its clock keeps the maximum.\<close>

definition demo_env :: "(bytes list, unit, 64 word) Env" where
  "demo_env = \<lparr>app_Apply = (\<lambda>eid e a. (None, a @ [eid])), no_data = (), clock_Increment = (\<lambda>c. c + 1),
     clock_Witness = (\<lambda>t c. max t c), clock_Time = (\<lambda>c. c)\<rparr>"

definition demo_conf :: "64 word Config" where
  "demo_conf = (DefaultConfig last_byte 0 ''a'')\<lparr>hashSize := 1\<rparr>"

definition demo_fsm :: "mem_state \<Rightarrow> (bytes list, unit, 64 word) Node" where
  "demo_fsm store = snd (newFsm (bare_node demo_conf [] zero_InMemStableStore store))"

lemma demo_fsm_ok [simp]: "fsm_ok (demo_fsm store)" "buf (applyCh (demo_fsm store)) = []"
  "h_store (demo_fsm store) = store" "hasher (demo_fsm store) = last_byte"
  "InMemStableStore_Get key (h_ss (demo_fsm store)) = Inl ErrKeyNotFound" "h_app (demo_fsm store) = []"
  by (simp_all add: demo_fsm_def newFsm_def InMemStableStore_Open_def fsm_ok_def mem_ss_ok_def
      InMemStableStore_Get_def bare_node_def demo_conf_def DefaultConfig_def)

lemma demo_queue:
  "fsm_trace demo_env (demo_fsm node_b) [Queue 0 (Some [1]) entry1] (after (fsm_replay 0 (Some [1], entry1) (demo_fsm node_b)))"
proof -
  have "fsm_call demo_env (Queue 0 (Some [1]) entry1) (demo_fsm node_b) =
      Ret () (after (fsm_replay 0 (Some [1], entry1) (demo_fsm node_b)))"
    by (simp add: fsm_replay_def new_future_def fsm_apply_def on_defs zoom_def demo_fsm_def newFsm_def
        InMemStableStore_Open_def bare_node_def Let_def)
  from fsm_trace.step [OF fsm_trace.start this] show ?thesis by simp
qed

theorem fsm_applies_in_order_witness:
  "\<exists>n'. fsm_step demo_env 5 (after (fsm_replay 0 (Some [1], entry1) (demo_fsm node_b))) = Ret True n'"
  using fsm_applies_in_order [OF demo_queue, of 5] by (simp add: turns_def Let_def)

lemma node_b_lookup: "mem_lookup (ls_index node_b) [7] \<noteq> None"
proof
  assume a: "mem_lookup (ls_index node_b) [7] = None"
  have "mem_logs node_b [7] = Some [entry1]" by simp
  then show False using a by (simp add: mem_logs_def abs_logs_def index_view_def del: nodes_logs)
qed

theorem fsm_check_replays_witness:
  "check_key (demo_fsm node_b) (Some [7], the (mem_lookup (ls_index node_b) [7])) = [(Some [1], entry1)]"
proof -
  have g: "good_hash (hasher (demo_fsm node_b)) {entry1, entry2}"
    "mem_good (hasher (demo_fsm node_b)) {entry1, entry2} (h_store (demo_fsm node_b))"
    "mem_logs (h_store (demo_fsm node_b)) (els (Some [7])) = Some [entry1]"
    "mem_lookup (ls_index (h_store (demo_fsm node_b))) (els (Some [7])) = Some (the (mem_lookup (ls_index node_b) [7]))"
    using node_b_lookup by simp_all
  from fsm_check_replays [OF g] show ?thesis by simp
qed

end
