(* ===== verification/Hexalog.thy ===== *)
theory Hexalog
  imports Fsm
begin

section \<open>Proposals, commits and the ballots of a node (hexalog.go, hexalog\_utils.go)\<close>

text \<open>
  The operations of \<open>Hexalog\<close> on the state of one node. Each runs as one step; \<open>now\<close>
  is the wall clock. A send on a full queue blocks the caller and a panic ends the process:
  both keep what was done until then. \<open>int32\<close> indexes of peers are taken as integers, as
  peer sets are far smaller than \<open>2^31\<close>. The options of \<open>Propose\<close> are passed by pointer
  and come back with the source index it may set.
\<close>

definition getBallot :: "bytes \<Rightarrow> ('a, 'd, 'c) Node \<Rightarrow> nat option" where
  "getBallot key n = map_of (h_ballots n) (els key)"

definition removeBallot :: "bytes \<Rightarrow> ('a, 'd, 'c) Node \<Rightarrow> ('a, 'd, 'c) Node" where
  "removeBallot key n =
     (if map_of (h_ballots n) (els key) \<noteq> None
      then n\<lparr>h_ballots := AList.delete (els key) (h_ballots n)\<rparr> else n)"

definition checkOptions :: "RequestOptions \<Rightarrow> ('a, 'd, 'c) Node \<Rightarrow> error option" where
  "checkOptions opts n =
     (if PeerSet opts = None \<or> int (length (peers opts)) < Votes (h_conf n)
      then Some ErrInsufficientPeers else None)"

fun self_from :: "nat \<Rightarrow> string \<Rightarrow> Participant list \<Rightarrow> nat option" where
  "self_from i host [] = None"
| "self_from i host (p # ps) = (if Host p = host then Some i else self_from (Suc i) host ps)"

definition getSelfIndex :: "Participant list \<Rightarrow> ('a, 'd, 'c) Node \<Rightarrow> nat option" where
  "getSelfIndex peerset n = self_from 0 (AdvertiseHost (h_conf n)) peerset"

definition ballotGetClose ::
  "int \<Rightarrow> bytes \<Rightarrow> error option \<Rightarrow> (('a, 'd, 'c) Node, unit) call" where
  "ballotGetClose now key err n =
     (case getBallot key n of
        None \<Rightarrow> Ret () n
      | Some b \<Rightarrow> bind (on_ballot b (Ballot_close now err)) (\<lambda>_. Ret ()) n)"

text \<open>The previous height and the error; closing the keylog has no effect.\<close>

definition verifyEntry :: "Entry \<Rightarrow> ('a, 'd, 'c) Node \<Rightarrow> 32 word \<times> error option" where
  "verifyEntry entry n =
     (let rest =
            (let (prevHeight, lastID) =
                   (case LogStore_LastEntry (hlog_log n) (Key entry) (h_store n) of
                      None \<Rightarrow> (0, make_bytes (hashSize (h_conf n)))
                    | Some l \<Rightarrow> (Height l, Entry_Hash (hasher n) l))
             in (prevHeight,
                 if bytes_Compare (Previous entry) lastID \<noteq> 0 then Some ErrPreviousHash else None))
      in case IS_GetKey mem_index (Key entry) (ls_index (h_store n)) of
           Inl err \<Rightarrow> if err \<noteq> ErrKeyNotFound then (0, Some err) else rest
         | Inr kl \<Rightarrow>
             if KI_Marker mem_keylog_index kl (ls_index (h_store n)) \<noteq> None
             then (0, Some ErrKeyDegraded) else rest)"

text \<open>\<open>append\<close> of hexalog\_utils.go: the direct append of healing, without votes.\<close>

definition hlog_append ::
  "int \<Rightarrow> bytes \<Rightarrow> Entry \<Rightarrow> (('a, 'd, 'c) Node, nat option \<times> error option) call" where
  "hlog_append now eid entry n =
     (case LogStore_AppendEntry (hlog_log n) entry (h_store n) of
        (Some err, s) \<Rightarrow> Ret (None, Some err) (n\<lparr>h_store := s\<rparr>)
      | (None, s) \<Rightarrow>
          (case new_future (NewFutureEntry eid entry) (n\<lparr>h_store := s\<rparr>) of
             (fe, n) \<Rightarrow> bind (fsm_apply now fe) (\<lambda>_. Ret (Some fe, None)) n))"

definition upsertKeyAndBroadcast ::
  "32 word \<Rightarrow> Entry \<Rightarrow> RequestOptions \<Rightarrow> (('a, 'd, 'c) Node, error option) call" where
  "upsertKeyAndBroadcast prevHeight entry opts =
     (let broadcast =
            bind (on_pch (chan_send (zero_ReqResp\<lparr>rr_Entry := Some entry, rr_Options := Some opts\<rparr>)))
              (\<lambda>_. Ret None)
      in if prevHeight = 0 then
           (\<lambda>n. case LogStore_NewKey (hlog_log n) (Key entry) (h_store n) of
                  (Inr kli, s) \<Rightarrow> broadcast (n\<lparr>h_store := snd (Keylog_Close (hlog_log n) kli s)\<rparr>)
                | (Inl err, s) \<Rightarrow>
                    if err \<noteq> ErrKeyExists then Ret (Some err) (n\<lparr>h_store := s\<rparr>)
                    else broadcast (n\<lparr>h_store := s\<rparr>))
         else broadcast)"

definition checkVotesAndCommit ::
  "('a, 'd, 'c) Env \<Rightarrow> int \<Rightarrow> nat \<Rightarrow> (('a, 'd, 'c) Node, bool) call" where
  "checkVotesAndCommit E now ballot n =
     (if Ballot_Proposals (h_bheap n ballot) \<noteq> Ballot_Commits (h_bheap n ballot) then Ret False n
      else
        (let fe = fentry (h_bheap n ballot);
             entry = fe_Entry (h_futures n fe)
         in case LogStore_AppendEntry (hlog_log n) entry (h_store n) of
              (Some err, s) \<Rightarrow>
                bind (on_ballot ballot (Ballot_close now (Some err))) (\<lambda>_. Ret False) (n\<lparr>h_store := s\<rparr>)
            | (None, s) \<Rightarrow>
                bind (fsm_apply now fe) (\<lambda>_.
                  bind (on_ballot ballot (Ballot_close now None)) (\<lambda>_. Ret True))
                  (Witness E (LTime entry) (n\<lparr>h_store := s\<rparr>))))"

definition queueBroadcastOrCommit ::
  "('a, 'd, 'c) Env \<Rightarrow> int \<Rightarrow> int \<Rightarrow> nat \<Rightarrow> RequestOptions \<Rightarrow> (('a, 'd, 'c) Node, unit) call" where
  "queueBroadcastOrCommit E now currVotes ballot opts n =
     (if currVotes = 1 then
        (let entry = fe_Entry (h_futures n (fentry (h_bheap n ballot)))
         in on_cch (chan_send (zero_ReqResp\<lparr>rr_Entry := Some entry, rr_Options := Some opts\<rparr>)) n)
      else if currVotes = int (length (peers opts)) then
        bind (checkVotesAndCommit E now ballot) (\<lambda>_. Ret ()) n
      else Ret () n)"

text \<open>\<open>reapBallotsOnce\<close> and the guard of the loop \<open>reapBallots\<close>.\<close>

definition reapBallotsOnce :: "('a, 'd, 'c) Node \<Rightarrow> nat \<times> ('a, 'd, 'c) Node" where
  "reapBallotsOnce n =
     (length (filter (\<lambda>(k, b). Ballot_Closed (h_bheap n b)) (h_ballots n)),
      n\<lparr>h_ballots := filter (\<lambda>(k, b). \<not> Ballot_Closed (h_bheap n b)) (h_ballots n)\<rparr>)"

definition reapBallots_turn :: "(('a, 'd, 'c) Node, bool) call" where
  "reapBallots_turn n =
     (if h_shutdown n
      then bind (zoom shutdownCh (\<lambda>c n. n\<lparr>shutdownCh := c\<rparr>) (chan_send ())) (\<lambda>_. Ret False) n
      else if 0 < length (h_ballots n) then Ret True (snd (reapBallotsOnce n))
      else Ret True n)"

definition hlog_Stats :: "('a, 'd, 'c) Node \<Rightarrow> Stats" where
  "hlog_Stats n =
     (LogStore_Stats (hlog_log n) (h_store n))
       \<lparr>st_Ballots := int (length (h_ballots n)), st_Proposals := int (length (buf (pch n))),
        st_Commits := int (length (buf (cch n))), st_Heals := int (length (buf (hch n)))\<rparr>"

definition hlog_New :: "('a, 'd, 'c) Env \<Rightarrow> int \<Rightarrow> bytes \<Rightarrow> ('a, 'd, 'c) Node \<Rightarrow> Entry" where
  "hlog_New E now key n =
     (LogStore_NewEntry (hlog_log n) now key (h_store n))\<lparr>LTime := clock_Time E (LamportClock (h_conf n))\<rparr>"

definition hlog_Get :: "bytes \<Rightarrow> bytes \<Rightarrow> ('a, 'd, 'c) Node \<Rightarrow> error + Entry" where
  "hlog_Get key eid n = LogStore_GetEntry (hlog_log n) key eid (h_store n)"

definition hlog_Heal :: "bytes \<Rightarrow> RequestOptions \<Rightarrow> (('a, 'd, 'c) Node, error option) call" where
  "hlog_Heal key opts n =
     (case checkOptions opts n of
        Some err \<Rightarrow> Ret (Some err) n
      | None \<Rightarrow>
          bind (on_hch (chan_send
                  (zero_ReqResp\<lparr>rr_Options := Some opts, rr_Entry := Some (zero_Entry\<lparr>Key := key\<rparr>)\<rparr>)))
            (\<lambda>_. Ret None) n)"

text \<open>The signal of \<open>Shutdown\<close>, and one of the three receives it then waits for.\<close>

definition Shutdown_signal :: "(('a, 'd, 'c) Node, unit) call" where
  "Shutdown_signal n =
     bind (on_pch chan_close) (\<lambda>_. bind (on_cch chan_close) (\<lambda>_. on_hch chan_close)) (n\<lparr>h_shutdown := True\<rparr>)"

definition Shutdown_wait :: "(('a, 'd, 'c) Node, unit option) call" where
  "Shutdown_wait = zoom shutdownCh (\<lambda>c n. n\<lparr>shutdownCh := c\<rparr>) chan_recv"

definition NewHexalog ::
  "('a, 'd, 'c) Env \<Rightarrow> int \<Rightarrow> 'c Config \<Rightarrow> 'a \<Rightarrow> mem_state \<Rightarrow> InMemStableStore \<Rightarrow>
   (('a, 'd, 'c) Node, error option) outcome" where
  "NewHexalog E now conf app stores ss =
     (let conf = conf\<lparr>hashSize := Size (Hasher conf)\<rparr>
      in case newFsm (bare_node conf app ss stores) of
           (Some err, n) \<Rightarrow> Ret (Some err) n
         | (None, n) \<Rightarrow>
             (let n = n\<lparr>pch := make_chan (BroadcastBufSize conf), cch := make_chan (BroadcastBufSize conf),
                       hch := make_chan (HealBufSize conf), shutdownCh := make_chan 4\<rparr>
              in bind (fsm_check E now) (\<lambda>err.
                   case err of
                     Some e \<Rightarrow> Ret (Some e)
                   | None \<Rightarrow> (\<lambda>n. Ret None (Increment E n))) n))"

subsection \<open>Propose\<close>

text \<open>
  The vote of the node itself on a ballot it has just made, when another peer sent the
  proposal: \<open>Some err\<close> ends \<open>Propose\<close> with that error. The error of the vote is not looked
  at, as in the code, which tests an earlier one that is nil here.
\<close>

definition Propose_self_vote ::
  "('a, 'd, 'c) Env \<Rightarrow> int \<Rightarrow> Entry \<Rightarrow> bytes \<Rightarrow> 32 word \<Rightarrow> nat \<Rightarrow> RequestOptions \<Rightarrow> nat \<Rightarrow>
   (('a, 'd, 'c) Node, error option) call" where
  "Propose_self_vote E now entry eid prevHeight idx opts ballot n =
     bind (on_ballot ballot
             (votePropose (h_futures n) now eid (Host (peers opts ! idx)) (int idx)))
       (\<lambda>(_, voted, er).
          if voted then
            bind (upsertKeyAndBroadcast prevHeight entry (CloneWithSourceIndex opts (int idx)))
              (\<lambda>err. case err of
                 Some e \<Rightarrow> bind (on_ballot ballot (Ballot_close now err)) (\<lambda>_. Ret (Some e))
               | None \<Rightarrow> Ret None)
          else Ret None) n"

text \<open>The vote of the source, and what follows from the count.\<close>

definition Propose_source_vote ::
  "('a, 'd, 'c) Env \<Rightarrow> int \<Rightarrow> Entry \<Rightarrow> bytes \<Rightarrow> 32 word \<Rightarrow> nat \<Rightarrow> RequestOptions \<Rightarrow> nat \<Rightarrow>
   (('a, 'd, 'c) Node, nat option \<times> error option) call" where
  "Propose_source_vote E now entry eid prevHeight idx opts ballot n =
     (case SourcePeer opts of
        None \<Rightarrow> Panic n
      | Some source \<Rightarrow>
          bind (on_ballot ballot
                  (votePropose (h_futures n) now eid (Host source) (SourceIndex opts)))
            (\<lambda>(pvotes, voted, err).
               if err \<noteq> None then Ret (Some ballot, err)
               else if pvotes = 1 then
                 (if voted then
                    bind (upsertKeyAndBroadcast prevHeight entry (CloneWithSourceIndex opts (int idx)))
                      (\<lambda>err. case err of
                         Some e \<Rightarrow> bind (on_ballot ballot (Ballot_close now err)) (\<lambda>_. Ret (None, Some e))
                       | None \<Rightarrow> Ret (Some ballot, None))
                  else Ret (Some ballot, None))
               else if pvotes = int (length (peers opts)) then
                 bind (checkVotesAndCommit E now ballot) (\<lambda>_. Ret (Some ballot, None))
               else Ret (Some ballot, None)) n)"

text \<open>A new ballot for an entry, put in the table of ballots under its id.\<close>

definition track_ballot ::
  "bytes \<Rightarrow> Entry \<Rightarrow> nat \<Rightarrow> ('a, 'd, 'c) Node \<Rightarrow> nat \<times> ('a, 'd, 'c) Node" where
  "track_ballot eid entry peerSetSize n =
     (case new_future (NewFutureEntry eid entry) n of (fe, n) \<Rightarrow>
        (case new_ballot (newBallot fe peerSetSize (TTL (h_conf n))) n of (b, n) \<Rightarrow>
           (b, n\<lparr>h_ballots := AList.update (els eid) b (h_ballots n)\<rparr>)))"

text \<open>What happens to an entry that is refused: a request to heal, or the end of its ballot.\<close>

definition Propose_refused ::
  "int \<Rightarrow> Entry \<Rightarrow> bytes \<Rightarrow> 32 word \<Rightarrow> error \<Rightarrow> RequestOptions \<Rightarrow>
   (('a, 'd, 'c) Node, nat option \<times> error option \<times> RequestOptions) call" where
  "Propose_refused now entry eid prevHeight err opts =
     (if (err = ErrPreviousHash \<or> err = ErrKeyDegraded) \<and> prevHeight < Height entry then
        bind (on_hch (chan_send
               (zero_ReqResp\<lparr>rr_ID := eid, rr_Entry := Some entry, rr_Options := Some opts\<rparr>)))
          (\<lambda>_. Ret (None, Some err, opts))
      else bind (ballotGetClose now eid (Some err)) (\<lambda>_. Ret (None, Some err, opts)))"

text \<open>The votes on an entry that is accepted, on the ballot of its id or a new one.\<close>

definition Propose_votes ::
  "('a, 'd, 'c) Env \<Rightarrow> int \<Rightarrow> Entry \<Rightarrow> bytes \<Rightarrow> 32 word \<Rightarrow> nat \<Rightarrow> RequestOptions \<Rightarrow>
   (('a, 'd, 'c) Node, nat option \<times> error option \<times> RequestOptions) call" where
  "Propose_votes E now entry eid prevHeight idx opts n =
     (let source = (\<lambda>ballot.
            bind (Propose_source_vote E now entry eid prevHeight idx opts ballot)
              (\<lambda>r. Ret (fst r, snd r, opts)))
      in case map_of (h_ballots n) (els eid) of
           Some ballot \<Rightarrow> source ballot n
         | None \<Rightarrow>
             (case track_ballot eid entry (length (peers opts)) n of
                (ballot, n) \<Rightarrow>
                  bind (if int idx \<noteq> SourceIndex opts
                        then Propose_self_vote E now entry eid prevHeight idx opts ballot
                        else Ret None)
                    (\<lambda>stop. case stop of
                       Some e \<Rightarrow> Ret (None, Some e, opts)
                     | None \<Rightarrow> source ballot) n))"

definition Propose ::
  "('a, 'd, 'c) Env \<Rightarrow> int \<Rightarrow> Entry \<Rightarrow> RequestOptions \<Rightarrow>
   (('a, 'd, 'c) Node, nat option \<times> error option \<times> RequestOptions) call" where
  "Propose E now entry opts n =
     (case checkOptions opts n of
        Some err \<Rightarrow> Ret (None, Some err, opts) n
      | None \<Rightarrow>
     (case getSelfIndex (peers opts) n of
        None \<Rightarrow> Ret (None, Some (Errorf_not_in_peer_set (AdvertiseHost (h_conf n))), opts) n
      | Some idx \<Rightarrow>
     (let opts = (if SourceIndex opts < 0 then opts\<lparr>SourceIndex := int idx\<rparr> else opts);
          eid = Entry_Hash (hasher n) entry
      in case verifyEntry entry n of
           (prevHeight, Some err) \<Rightarrow> Propose_refused now entry eid prevHeight err opts n
         | (prevHeight, None) \<Rightarrow> Propose_votes E now entry eid prevHeight idx opts n)))"

subsection \<open>Commit\<close>

text \<open>A commit vote of one peer, with what its count leads to.\<close>

definition Commit_vote ::
  "('a, 'd, 'c) Env \<Rightarrow> int \<Rightarrow> bytes \<Rightarrow> nat \<Rightarrow> RequestOptions \<Rightarrow> nat \<Rightarrow> string \<Rightarrow> int \<Rightarrow>
   (('a, 'd, 'c) Node, error option) call" where
  "Commit_vote E now eid selfIndex opts ballot voter voterIdx n =
     bind (on_ballot ballot (voteCommit (h_futures n) eid voter voterIdx))
       (\<lambda>(votes1, voted, err).
          if err \<noteq> None then Ret err
          else if voted then
            bind (queueBroadcastOrCommit E now votes1 ballot (CloneWithSourceIndex opts (int selfIndex)))
              (\<lambda>_. Ret None)
          else Ret None) n"

definition Commit ::
  "('a, 'd, 'c) Env \<Rightarrow> int \<Rightarrow> Entry \<Rightarrow> RequestOptions \<Rightarrow>
   (('a, 'd, 'c) Node, nat option \<times> error option) call" where
  "Commit E now entry opts n =
     (case checkOptions opts n of
        Some err \<Rightarrow> Ret (None, Some err) n
      | None \<Rightarrow>
     (case getSelfIndex (peers opts) n of
        None \<Rightarrow> Ret (None, Some (Errorf_not_in_peer_set (AdvertiseHost (h_conf n)))) n
      | Some selfIndex \<Rightarrow>
     (let eid = Entry_Hash (hasher n) entry
      in case getBallot eid n of
           None \<Rightarrow> Ret (None, Some errBallotNotFound) n
         | Some ballot \<Rightarrow>
             bind (if int selfIndex \<noteq> SourceIndex opts
                   then Commit_vote E now eid selfIndex opts ballot
                          (Host (peers opts ! selfIndex)) (int selfIndex)
                   else Ret None)
               (\<lambda>err. if err \<noteq> None then Ret (Some ballot, err)
                 else (case SourcePeer opts of
                         None \<Rightarrow> Panic
                       | Some sloc \<Rightarrow>
                           bind (Commit_vote E now eid selfIndex opts ballot (Host sloc) (SourceIndex opts))
                             (\<lambda>err. Ret (Some ballot, err)))) n)))"

end
