(* ===== verification/Node_Invariant.thy ===== *)
theory Node_Invariant
  imports Hexalog
begin

section \<open>What every step of a node keeps\<close>

text \<open>
  The invariant of a node and the proof that its operations keep it. Besides the consistency
  of the log store, the ballots and the queue of the application it says that every
  entry in the log was voted for by every peer in both phases, unless it came by a direct
  append, and that what the application was given, followed by what is queued for it, is for
  each key the log of the key.

  A \<open>Setup\<close> fixes what a run is about: the hash function, the entries that occur, the number of
  peers of the requests about an entry, by its id, and the entries appended without votes.
\<close>

record Setup =
  su_hash :: hash_fn
  su_entries :: "Entry set"
  su_size :: "byte list \<Rightarrow> nat"
  su_direct :: "Entry set"

definition full :: "Ballot \<Rightarrow> bool" where
  "full b \<longleftrightarrow> [] \<notin> set (proposed b) \<and> [] \<notin> set (committed b)"

definition log_of :: "('a, 'd, 'c) Node \<Rightarrow> byte list \<Rightarrow> Entry list" where
  "log_of n k = (case mem_logs (h_store n) k of None \<Rightarrow> [] | Some es \<Rightarrow> es)"

definition elected :: "('a, 'd, 'c) Node \<Rightarrow> Entry \<Rightarrow> bool" where
  "elected n e \<longleftrightarrow>
     (\<exists>b<h_nballots n. fe_Entry (h_futures n (fentry (h_bheap n b))) = e \<and> full (h_bheap n b))"

definition ballot_inv :: "Setup \<Rightarrow> ('a, 'd, 'c) Node \<Rightarrow> nat \<Rightarrow> bool" where
  "ballot_inv S n b \<longleftrightarrow>
     (let B = h_bheap n b; fe = h_futures n (fentry B); m = su_size S (els (fe_id fe))
      in fentry B < h_nfutures n \<and> fe_Entry fe \<in> su_entries S \<and>
         fe_id fe = Entry_Hash (su_hash S) (fe_Entry fe) \<and> 0 < m \<and> ballot_ok m B \<and>
         (\<not> b_closed B \<longrightarrow> pending fe \<and> fentry B \<notin> set (buf (applyCh n))))"

definition base_inv :: "Setup \<Rightarrow> ('a, 'd, 'c) Node \<Rightarrow> bool" where
  "base_inv S n \<longleftrightarrow> hasher n = su_hash S \<and> good_hash (su_hash S) (su_entries S) \<and>
     mem_good (su_hash S) (su_entries S) (h_store n) \<and> fsm_ok n"

definition ballots_inv :: "Setup \<Rightarrow> ('a, 'd, 'c) Node \<Rightarrow> bool" where
  "ballots_inv S n \<longleftrightarrow> (\<forall>b<h_nballots n. ballot_inv S n b) \<and>
     inj_on (\<lambda>b. fentry (h_bheap n b)) {..<h_nballots n}"

definition table_inv :: "('a, 'd, 'c) Node \<Rightarrow> bool" where
  "table_inv n \<longleftrightarrow> map_ok (h_ballots n) \<and>
     (\<forall>k b. map_of (h_ballots n) k = Some b \<longrightarrow>
        b < h_nballots n \<and> els (fe_id (h_futures n (fentry (h_bheap n b)))) = k)"

definition voted_inv :: "Setup \<Rightarrow> ('a, 'd, 'c) Node \<Rightarrow> bool" where
  "voted_inv S n \<longleftrightarrow> (\<forall>k e. e \<in> set (log_of n k) \<longrightarrow> e \<in> su_direct S \<or> elected n e)"

definition node_inv :: "Setup \<Rightarrow> ('a, 'd, 'c) Node \<Rightarrow> bool" where
  "node_inv S n \<longleftrightarrow> base_inv S n \<and> ballots_inv S n \<and> table_inv n \<and> voted_inv S n"

definition of_key :: "byte list \<Rightarrow> (bytes \<times> Entry) list \<Rightarrow> (bytes \<times> Entry) list" where
  "of_key k xs = filter (\<lambda>(i, e). els (Key e) = k) xs"

definition hist_inv :: "Setup \<Rightarrow> (bytes \<times> Entry) list \<Rightarrow> ('a, 'd, 'c) Node \<Rightarrow> bool" where
  "hist_inv S hist n \<longleftrightarrow>
     (\<forall>k. of_key k (hist @ queued n) = map (\<lambda>e. (Entry_Hash (su_hash S) e, e)) (log_of n k))"

text \<open>The history is claimed only for runs in which no step was left blocked half way.\<close>

definition node_ok :: "Setup \<Rightarrow> bool \<Rightarrow> (bytes \<times> Entry) list \<Rightarrow> ('a, 'd, 'c) Node \<Rightarrow> bool" where
  "node_ok S fl hist n \<longleftrightarrow> node_inv S n \<and> (fl \<longrightarrow> hist_inv S hist n)"

lemma inv_False: "node_ok S fl hist n \<Longrightarrow> node_ok S False hist n"
  by (simp add: node_ok_def)

lemma node_invD:
  assumes "node_inv S n"
  shows "hasher n = su_hash S" "good_hash (su_hash S) (su_entries S)"
    "mem_good (su_hash S) (su_entries S) (h_store n)" "fsm_ok n"
    "b < h_nballots n \<Longrightarrow> ballot_inv S n b"
    "map_of (h_ballots n) k = Some b \<Longrightarrow> b < h_nballots n \<and> els (fe_id (h_futures n (fentry (h_bheap n b)))) = k"
  using assms by (simp_all add: node_inv_def base_inv_def ballots_inv_def table_inv_def)

lemma ballot_invD:
  assumes "ballot_inv S n b"
  shows "fentry (h_bheap n b) < h_nfutures n"
    "fe_Entry (h_futures n (fentry (h_bheap n b))) \<in> su_entries S"
    "fe_id (h_futures n (fentry (h_bheap n b))) = Entry_Hash (su_hash S) (fe_Entry (h_futures n (fentry (h_bheap n b))))"
    "0 < su_size S (els (fe_id (h_futures n (fentry (h_bheap n b)))))"
    "ballot_ok (su_size S (els (fe_id (h_futures n (fentry (h_bheap n b)))))) (h_bheap n b)"
    "\<not> b_closed (h_bheap n b) \<Longrightarrow> pending (h_futures n (fentry (h_bheap n b))) \<and>
       fentry (h_bheap n b) \<notin> set (buf (applyCh n))"
  using assms unfolding ballot_inv_def Let_def by blast+

subsection \<open>Changes of parts of a node\<close>

lemma log_of_upd [simp]:
  "log_of (n\<lparr>h_bheap := x\<rparr>) k = log_of n k" "log_of (n\<lparr>h_futures := f\<rparr>) k = log_of n k"
  "log_of (n\<lparr>h_nballots := i\<rparr>) k = log_of n k" "log_of (n\<lparr>h_nfutures := i\<rparr>) k = log_of n k"
  "log_of (n\<lparr>applyCh := c\<rparr>) k = log_of n k" "log_of (n\<lparr>h_ballots := m\<rparr>) k = log_of n k"
  by (simp_all add: log_of_def)

text \<open>Queues, clock and shutdown flag are in no part of the invariant.\<close>

lemmas parts = base_inv_def ballots_inv_def ballot_inv_def table_inv_def voted_inv_def

lemma inv_queues [simp]:
  "node_ok S fl hist (n\<lparr>pch := c\<rparr>) = node_ok S fl hist n"
  "node_ok S fl hist (n\<lparr>cch := c\<rparr>) = node_ok S fl hist n"
  "node_ok S fl hist (n\<lparr>hch := c\<rparr>) = node_ok S fl hist n"
  "node_ok S fl hist (n\<lparr>shutdownCh := d\<rparr>) = node_ok S fl hist n"
  "node_ok S fl hist (n\<lparr>h_shutdown := f\<rparr>) = node_ok S fl hist n"
  "node_ok S fl hist (Witness E t n) = node_ok S fl hist n"
  by (simp_all add: node_ok_def node_inv_def parts hist_inv_def queued_def log_of_def elected_def
      fsm_ok_def Witness_def)

text \<open>A store with the same logs, keys without entries apart.\<close>

lemma inv_store:
  assumes "node_ok S fl hist n" and "mem_good (su_hash S) (su_entries S) s"
    and "\<And>k. log_of (n\<lparr>h_store := s\<rparr>) k = log_of n k"
  shows "node_ok S fl hist (n\<lparr>h_store := s\<rparr>)"
  using assms by (simp add: node_ok_def node_inv_def parts hist_inv_def queued_def elected_def fsm_ok_def)

text \<open>What a step of a ballot may do to it.\<close>

definition ballot_le :: "Ballot \<Rightarrow> Ballot \<Rightarrow> bool" where
  "ballot_le b b' \<longleftrightarrow> fentry b' = fentry b \<and> (b_closed b \<longrightarrow> b_closed b') \<and> (full b \<longrightarrow> full b') \<and>
     (\<forall>m>0. ballot_ok m b \<longrightarrow> ballot_ok m b')"

lemma inv_ballot:
  assumes "node_ok S fl hist n" and "ballot_le (h_bheap n b) B"
  shows "node_ok S fl hist (n\<lparr>h_bheap := (h_bheap n)(b := B)\<rparr>)"
proof -
  have f: "fentry (((h_bheap n)(b := B)) x) = fentry (h_bheap n x)" for x
    using assms(2) by (simp add: ballot_le_def)
  have N: "node_inv S n" using assms(1) by (simp add: node_ok_def)
  have "ballot_inv S (n\<lparr>h_bheap := (h_bheap n)(b := B)\<rparr>) x" if "ballot_inv S n x" for x
    using that assms(2) by (auto simp: ballot_inv_def Let_def ballot_le_def)
  then have "ballots_inv S (n\<lparr>h_bheap := (h_bheap n)(b := B)\<rparr>)"
    using N f by (simp add: node_inv_def ballots_inv_def f [abs_def] inj_on_def del: fun_upd_apply)
  moreover have "table_inv (n\<lparr>h_bheap := (h_bheap n)(b := B)\<rparr>)"
    using N by (simp add: node_inv_def table_inv_def f del: fun_upd_apply)
  moreover have "elected (n\<lparr>h_bheap := (h_bheap n)(b := B)\<rparr>) e" if e: "elected n e" for e
  proof -
    obtain x where x: "x < h_nballots n" "fe_Entry (h_futures n (fentry (h_bheap n x))) = e" "full (h_bheap n x)"
      using e by (auto simp: elected_def)
    then have "full (((h_bheap n)(b := B)) x)" using assms(2) by (auto simp: ballot_le_def)
    with x f [of x] show ?thesis unfolding elected_def by auto
  qed
  then have "voted_inv S (n\<lparr>h_bheap := (h_bheap n)(b := B)\<rparr>)"
    using N by (auto simp: node_inv_def voted_inv_def)
  moreover have "base_inv S (n\<lparr>h_bheap := (h_bheap n)(b := B)\<rparr>)"
    using N by (simp add: node_inv_def base_inv_def fsm_ok_def)
  ultimately show ?thesis
    using assms(1) by (simp add: node_ok_def node_inv_def hist_inv_def queued_def)
qed

lemma ballot_le_calls:
  "ballot_le b (after (votePropose F now eid v i b))"
  "ballot_le b (after (voteCommit F eid v i b))"
  "ballot_le b (after (Ballot_close now err b))"
  "b_timer b = Timer_armed t \<Longrightarrow> ballot_le b (after (Ballot_timeout b))"
proof -
  have ok: "ballot_ok m b \<Longrightarrow> 0 < m \<Longrightarrow> ballot_ok m (after (ballot_call F x b))" for m x
    by (rule ballot_ok_call)
  have slot: "[] \<in> set vs" if "vs ! nat i = []" "\<not> i < 0" "i < int (length vs)" for vs :: "string list"
    using that nth_mem [of "nat i" vs] by auto
  show "ballot_le b (after (votePropose F now eid v i b))"
    using ok [where x = "BPropose now eid v i"] slot [of "proposed b"]
    by (auto simp: ballot_le_def full_def votePropose_eq setTTL_def bind_def Let_def split: if_splits)
  show "ballot_le b (after (voteCommit F eid v i b))"
    using ok [where x = "BCommit eid v i"] slot [of "committed b"]
    by (auto simp: ballot_le_def full_def voteCommit_eq bind_def Let_def split: if_splits)
  have "after (ballot_call F (BClose now err) b) = after (Ballot_close now err b)"
    by (cases "Ballot_close now err b") (simp_all add: bind_def)
  moreover have "fentry (after (Ballot_close now err b)) = fentry b"
    "b_closed b \<Longrightarrow> b_closed (after (Ballot_close now err b))"
    "full (after (Ballot_close now err b)) = full b"
    by (auto simp: full_def Ballot_close_eq bind_def zoom_def Let_def split: option.split outcome.split)
  ultimately show "ballot_le b (after (Ballot_close now err b))"
    using ok [where x = "BClose now err"] by (auto simp: ballot_le_def)
  assume t: "b_timer b = Timer_armed t"
  have "after (ballot_call F BTimeout b) = after (Ballot_timeout b)"
    using t by (cases "Ballot_timeout b") (simp_all add: bind_def)
  moreover have "fentry (after (Ballot_timeout b)) = fentry b" "b_closed (after (Ballot_timeout b))"
    "full (after (Ballot_timeout b)) = full b"
    by (auto simp: full_def Ballot_timeout_eq zoom_def Let_def split: outcome.split)
  ultimately show "ballot_le b (after (Ballot_timeout b))"
    using ok [where x = BTimeout] by (auto simp: ballot_le_def)
qed

text \<open>Futures: setting the time of dispatch, allocating, queueing.\<close>

lemma FutureEntry_dispatch_simps [simp]:
  "fe_id (FutureEntry_dispatch now f) = fe_id f" "fe_Entry (FutureEntry_dispatch now f) = fe_Entry f"
  by (simp_all add: FutureEntry_dispatch_def)

lemma NewFutureEntry_simps [simp]: "fe_id (NewFutureEntry eid e) = eid" "fe_Entry (NewFutureEntry eid e) = e"
  by (simp_all add: NewFutureEntry_def)

lemma inv_dispatch:
  assumes "node_ok S fl hist n"
  shows "node_ok S fl hist (n\<lparr>h_futures := (h_futures n)(f := FutureEntry_dispatch now (h_futures n f))\<rparr>)"
    (is "node_ok S fl hist ?n")
proof -
  have same: "fe_id (h_futures ?n x) = fe_id (h_futures n x)" "fe_Entry (h_futures ?n x) = fe_Entry (h_futures n x)"
    "pending (h_futures ?n x) = pending (h_futures n x)" for x
    by simp_all
  have q: "queued ?n = queued n" unfolding queued_def same by simp
  have el: "elected ?n e = elected n e" for e unfolding elected_def same by simp
  have "ballot_inv S ?n b = ballot_inv S n b" for b unfolding ballot_inv_def Let_def same by simp
  with assms q el show ?thesis
    unfolding node_ok_def node_inv_def base_inv_def ballots_inv_def table_inv_def voted_inv_def fsm_ok_def hist_inv_def same
    by simp
qed

lemma voted_mono:
  "voted_inv S n \<Longrightarrow> (\<And>e. elected n e \<Longrightarrow> elected n' e) \<Longrightarrow> (\<And>k. log_of n' k = log_of n k) \<Longrightarrow> voted_inv S n'"
  unfolding voted_inv_def by metis

lemma elected_mono:
  assumes "elected n e" and "h_nballots n \<le> h_nballots n'"
    and "\<And>b. b < h_nballots n \<Longrightarrow> fe_Entry (h_futures n' (fentry (h_bheap n' b))) =
        fe_Entry (h_futures n (fentry (h_bheap n b))) \<and> (full (h_bheap n b) \<longrightarrow> full (h_bheap n' b))"
  shows "elected n' e"
  using assms unfolding elected_def by (metis order_less_le_trans)

lemma inv_new_future:
  assumes "node_ok S fl hist n"
  shows "node_ok S fl hist (n\<lparr>h_futures := (h_futures n)(h_nfutures n := fe), h_nfutures := Suc (h_nfutures n)\<rparr>)"
    (is "node_ok S fl hist ?n")
proof -
  have N: "node_inv S n" using assms by (simp add: node_ok_def)
  have old: "h_futures ?n r = h_futures n r" if "r < h_nfutures n" for r using that by simp
  have refs: "fentry (h_bheap n b) < h_nfutures n" if "b < h_nballots n" for b
    using ballot_invD(1) node_invD(5) [OF N that] by blast
  have buf: "r < h_nfutures n" if "r \<in> set (buf (applyCh n))" for r
    using that node_invD(4) [OF N] by (simp add: fsm_ok_def)
  have "queued ?n = queued n" unfolding queued_def using buf by (auto intro!: map_cong)
  moreover have "base_inv S ?n"
    using N buf by (auto simp: node_inv_def base_inv_def fsm_ok_def less_Suc_eq)
  moreover have "ballot_inv S ?n b" if "b < h_nballots n" for b
    using node_invD(5) [OF N that] refs [OF that] by (auto simp: ballot_inv_def Let_def)
  moreover have "table_inv ?n"
    using N refs by (fastforce simp: node_inv_def table_inv_def)
  moreover have el: "elected ?n e" if "elected n e" for e
  proof (rule elected_mono [OF that])
    show "fe_Entry (h_futures ?n (fentry (h_bheap ?n b))) = fe_Entry (h_futures n (fentry (h_bheap n b))) \<and>
        (full (h_bheap n b) \<longrightarrow> full (h_bheap ?n b))" if "b < h_nballots n" for b
      using refs [OF that] by simp
  qed simp
  moreover have "voted_inv S ?n"
    by (rule voted_mono [of S n]) (use N el in \<open>simp_all add: node_inv_def\<close>)
  ultimately show ?thesis
    using assms by (simp add: node_ok_def node_inv_def ballots_inv_def hist_inv_def)
qed

lemma inv_enqueue:
  assumes "node_ok S False hist n" and "f < h_nfutures n" and "pending (h_futures n f)"
    and "f \<notin> set (buf (applyCh n))"
    and "\<And>b. b < h_nballots n \<Longrightarrow> fentry (h_bheap n b) = f \<Longrightarrow> b_closed (h_bheap n b)"
  shows "node_ok S False hist (n\<lparr>applyCh := (applyCh n)\<lparr>buf := buf (applyCh n) @ [f]\<rparr>\<rparr>)"
    (is "node_ok S False hist ?n")
proof -
  have N: "node_inv S n" using assms(1) by (simp add: node_ok_def)
  have "ballot_inv S ?n b" if "b < h_nballots n" for b
    using node_invD(5) [OF N that] assms(5) [OF that] by (auto simp: ballot_inv_def Let_def)
  moreover have "elected ?n e = elected n e" for e by (simp add: elected_def)
  ultimately show ?thesis
    using N assms(2-4)
    by (simp add: node_ok_def node_inv_def ballots_inv_def base_inv_def table_inv_def voted_inv_def fsm_ok_def)
qed

text \<open>An entry appended to the store.\<close>

lemma inv_append_store:
  assumes "node_ok S fl hist n" and "e \<in> su_entries S" and "e \<in> su_direct S \<or> elected n e"
    and "LogStore_AppendEntry (hlog_log n) e (h_store n) = (None, s)"
  shows "node_ok S False hist (n\<lparr>h_store := s\<rparr>)"
    and "log_of (n\<lparr>h_store := s\<rparr>) k = log_of n k @ (if k = els (Key e) then [e] else [])"
proof -
  have N: "node_inv S n" using assms(1) by (simp add: node_ok_def)
  have g: "mem_good (su_hash S) (su_entries S) s"
    and sp: "spec_AppendEntry (su_hash S) e (mem_logs (h_store n)) = (None, mem_logs s)"
    using mem_AppendEntry [OF node_invD(2,3) [OF N] assms(2)] assms(4) node_invD(1) [OF N] by simp_all
  have log: "log_of (n\<lparr>h_store := s\<rparr>) k = log_of n k @ (if k = els (Key e) then [e] else [])" for k
    using sp by (auto simp: log_of_def spec_AppendEntry_def split: option.splits if_splits
        dest!: sym [where t = "mem_logs s"])
  then show "log_of (n\<lparr>h_store := s\<rparr>) k = log_of n k @ (if k = els (Key e) then [e] else [])" .
  show "node_ok S False hist (n\<lparr>h_store := s\<rparr>)"
    using assms(3) N g log
    by (auto simp: node_ok_def node_inv_def parts fsm_ok_def elected_def split: if_splits)
qed

lemma inv_store_calls:
  assumes "node_ok S fl hist n"
  shows "node_ok S fl hist (n\<lparr>h_store := snd (LogStore_NewKey (hlog_log n) key (h_store n))\<rparr>)"
    and "e \<in> su_entries S \<Longrightarrow> LogStore_AppendEntry (hlog_log n) e (h_store n) = (Some err, s) \<Longrightarrow>
      node_ok S fl hist (n\<lparr>h_store := s\<rparr>)"
proof -
  have N: "node_inv S n" using assms by (simp add: node_ok_def)
  note g = node_invD(2,3) [OF N] and H = node_invD(1) [OF N]
  show "node_ok S fl hist (n\<lparr>h_store := snd (LogStore_NewKey (hlog_log n) key (h_store n))\<rparr>)"
  proof (rule inv_store [OF assms])
    show "mem_good (su_hash S) (su_entries S) (snd (LogStore_NewKey (hlog_log n) key (h_store n)))"
      using mem_NewKey(1) [OF g(2)] H by simp
    show "log_of (n\<lparr>h_store := snd (LogStore_NewKey (hlog_log n) key (h_store n))\<rparr>) k = log_of n k" for k
      using mem_NewKey(2) [OF g(2), of key] H
      by (auto simp: log_of_def spec_NewKey_def split: if_splits dest!: sym [where t = "mem_logs x" for x])
  qed
  assume e: "e \<in> su_entries S" "LogStore_AppendEntry (hlog_log n) e (h_store n) = (Some err, s)"
  show "node_ok S fl hist (n\<lparr>h_store := s\<rparr>)"
  proof (rule inv_store [OF assms])
    show "mem_good (su_hash S) (su_entries S) s"
      using mem_AppendEntry(1) [OF g e(1)] H e(2) by simp
    show "log_of (n\<lparr>h_store := s\<rparr>) k = log_of n k" for k
      using mem_AppendEntry(2) [OF g e(1)] H e(2)
      by (auto simp: log_of_def spec_AppendEntry_def split: if_splits option.splits)
  qed
qed

subsection \<open>The operations keep the invariant\<close>

lemma ensures_after:
  "(\<And>s. P s \<Longrightarrow> Q (after (m s)) \<and> R (after (m s))) \<Longrightarrow> ensures P m (\<lambda>_. Q) R"
  by (rule ensuresI) (metis (mono_tags, lifting) outcome.case_eq_if outcome.exhaust_sel outcome.sel(2-4) outcome.simps(10-12))

lemma fsm_apply_cases:
  "fsm_apply now f n =
    (let n1 = n\<lparr>h_futures := (h_futures n)(f := FutureEntry_dispatch now (h_futures n f))\<rparr>
     in if is_closed (applyCh n) then Panic n1
        else if length (buf (applyCh n)) < cap (applyCh n)
        then Ret () (n1\<lparr>applyCh := (applyCh n)\<lparr>buf := buf (applyCh n) @ [f]\<rparr>\<rparr>)
        else Block n1)"
  by (simp add: fsm_apply_def on_defs zoom_def chan_send_def Let_def)

lemma ensures_on_ballot:
  assumes "\<And>B. ballot_le B (after (m B))"
  shows "ensures (\<lambda>n. node_ok S fl hist n \<and> b < h_nballots n) (on_ballot b m)
    (\<lambda>_ n. node_ok S fl hist n \<and> b < h_nballots n) (node_ok S False hist)"
proof (rule ensures_weaken [OF ensures_after [where Q = "\<lambda>n. node_ok S fl hist n \<and> b < h_nballots n"
      and R = "node_ok S False hist" and P = "\<lambda>n. node_ok S fl hist n \<and> b < h_nballots n"]])
  fix n assume "node_ok S fl hist n \<and> b < h_nballots n"
  then show "(node_ok S fl hist (after (on_ballot b m n)) \<and> b < h_nballots (after (on_ballot b m n))) \<and>
      node_ok S False hist (after (on_ballot b m n))"
    using inv_ballot [OF _ assms, of S fl hist n b] inv_False by (auto simp: after_on)
qed simp_all

lemma full_iff: "ballot_ok m B \<Longrightarrow> full B \<longleftrightarrow> Ballot_Proposals B = m \<and> Ballot_Commits B = m"
  unfolding full_def Ballot_Proposals_def Ballot_Commits_def ballot_ok_def
  by (metis countVotes_full)

abbreviation ballot_size :: "Setup \<Rightarrow> ('a, 'd, 'c) Node \<Rightarrow> nat \<Rightarrow> nat" where
  "ballot_size S n b \<equiv> su_size S (els (fe_id (h_futures n (fentry (h_bheap n b)))))"

lemma commit_outcome:
  assumes I: "node_ok S fl hist n" and b: "b < h_nballots n" and op: "\<not> b_closed (h_bheap n b)"
    and "Ballot_Proposals (h_bheap n b) = ballot_size S n b \<or> Ballot_Commits (h_bheap n b) = ballot_size S n b"
  shows "case checkVotesAndCommit E now b n of Ret _ n' \<Rightarrow> node_ok S fl hist n' | Panic _ \<Rightarrow> True
    | Block n' \<Rightarrow> node_ok S False hist n'"
proof (cases "Ballot_Proposals (h_bheap n b) = Ballot_Commits (h_bheap n b)")
  case False
  with I show ?thesis by (simp add: checkVotesAndCommit_def)
next
  case True
  define B f where "B = h_bheap n b" and "f = fentry B"
  define e where "e = fe_Entry (h_futures n f)"
  have N: "node_inv S n" using I by (simp add: node_ok_def)
  note D = ballot_invD [OF node_invD(5) [OF N b], folded B_def, folded f_def, folded e_def]
  have "full B" using full_iff [OF D(5)] True assms(4) by (simp add: B_def f_def)
  then have el: "elected n e" unfolding elected_def using b by (auto simp: B_def e_def f_def)
  have pend: "pending (h_futures n f)" "f \<notin> set (buf (applyCh n))" using D(6) op by (simp_all add: B_def)
  obtain r s where app: "LogStore_AppendEntry (hlog_log n) e (h_store n) = (r, s)" by (metis prod.collapse)
  show ?thesis
  proof (cases r)
    case (Some err)
    have i: "node_ok S fl hist (n\<lparr>h_store := s\<rparr>)" using inv_store_calls(2) [OF I D(2)] app Some by simp
    have c: "checkVotesAndCommit E now b n =
        bind (on_ballot b (Ballot_close now (Some err))) (\<lambda>_. Ret False) (n\<lparr>h_store := s\<rparr>)"
      using app Some True by (simp add: checkVotesAndCommit_def B_def f_def e_def Let_def)
    have ens: "ensures (\<lambda>n. node_ok S fl hist n \<and> b < h_nballots n)
        (bind (on_ballot b (Ballot_close now (Some err))) (\<lambda>_. Ret False))
        (\<lambda>_. node_ok S fl hist) (node_ok S False hist)"
      by (rule ensures_bind [OF ensures_on_ballot]) (auto intro!: ensures_return ballot_le_calls)
    show ?thesis unfolding c by (rule ensuresD [OF ens]) (use i b in simp)
  next
    case None
    let ?n1 = "Witness E (LTime e) (n\<lparr>h_store := s\<rparr>)"
    note ap = inv_append_store [OF I D(2) disjI2 [OF el], of s]
    have app': "LogStore_AppendEntry (hlog_log n) e (h_store n) = (None, s)" using app None by simp
    have i1: "node_ok S False hist ?n1" using ap(1) [OF app'] by simp
    have n1: "h_futures ?n1 = h_futures n" "applyCh ?n1 = applyCh n" "h_bheap ?n1 = h_bheap n"
      "h_nballots ?n1 = h_nballots n" "h_nfutures ?n1 = h_nfutures n" by (simp_all add: Witness_def)
    let ?n2 = "?n1\<lparr>h_futures := (h_futures n)(f := FutureEntry_dispatch now (h_futures n f))\<rparr>"
    have i2: "node_ok S False hist ?n2" using inv_dispatch [OF i1, of f now] n1 by simp
    have c: "checkVotesAndCommit E now b n =
        bind (fsm_apply now f) (\<lambda>_. bind (on_ballot b (Ballot_close now None)) (\<lambda>_. Ret True)) ?n1"
      using app None True by (simp add: checkVotesAndCommit_def B_def f_def e_def Let_def)
    have open1: "\<not> is_closed (applyCh n)" using node_invD(4) [OF N] by (simp add: fsm_ok_def)
    show ?thesis
    proof (cases "length (buf (applyCh n)) < cap (applyCh n)")
      case False
      then have "checkVotesAndCommit E now b n = Block ?n2"
        unfolding c using open1 n1 by (simp add: fsm_apply_cases bind_def Let_def)
      with i2 show ?thesis by simp
    next
      case room: True
      let ?n3 = "?n2\<lparr>applyCh := (applyCh n)\<lparr>buf := buf (applyCh n) @ [f]\<rparr>\<rparr>"
      have f3: "fsm_apply now f ?n1 = Ret () ?n3" using room open1 n1 by (simp add: fsm_apply_cases Let_def)
      show ?thesis
      proof (cases "Ballot_close now None B")
        case (Ret u B')
        have le: "ballot_le B B'" using ballot_le_calls(3) [where b = B and now = now and err = None] Ret by simp
        have cl: "b_closed B'" using Ret op
          by (auto simp: Ballot_close_eq bind_eq_Ret_iff zoom_eq_Ret_iff B_def Let_def split: if_splits)
        let ?m = "?n2\<lparr>h_bheap := (h_bheap n)(b := B')\<rparr>"
        let ?n4 = "?m\<lparr>applyCh := (applyCh n)\<lparr>buf := buf (applyCh n) @ [f]\<rparr>\<rparr>"
        have "checkVotesAndCommit E now b n = Ret True ?n4"
          unfolding c using f3 Ret n1 by (simp add: on_ballot_def zoom_def bind_def B_def)
        moreover have im: "node_ok S False hist ?m" using inv_ballot [OF i2, of b B'] le n1 by (simp add: B_def)
        have others: "b_closed (h_bheap ?m x)" if "x < h_nballots ?m" "fentry (h_bheap ?m x) = f" for x
        proof (cases "x = b")
          case False
          have "fentry (h_bheap n x) = fentry (h_bheap n b)" using that False by (simp add: f_def B_def)
          moreover have "inj_on (\<lambda>b. fentry (h_bheap n b)) {..<h_nballots n}"
            using N by (simp add: node_inv_def ballots_inv_def)
          ultimately have "x = b" using that(1) b n1 by (auto dest: inj_onD)
          with False show ?thesis by simp
        qed (use cl in simp)
        have "node_ok S False hist (?m\<lparr>applyCh := (applyCh ?m)\<lparr>buf := buf (applyCh ?m) @ [f]\<rparr>\<rparr>)"
          by (rule inv_enqueue [OF im _ _ _ others]) (use D(1) pend n1 in simp_all)
        then have i4: "node_ok S False hist ?n4" using n1 by simp
        moreover have "hist_inv S hist ?n4" if fl
        proof -
          have q: "queued ?n4 = queued n @ [(Entry_Hash (su_hash S) e, e)]"
            using pend(2) D(3) by (auto simp: queued_def e_def)
          have l: "log_of ?n4 k = log_of n k @ (if k = els (Key e) then [e] else [])" for k
            using ap(2) [OF app', of k] by (simp add: Witness_def log_of_def)
          have "hist_inv S hist n" using I that by (simp add: node_ok_def)
          then show ?thesis unfolding hist_inv_def q l by (simp add: of_key_def)
        qed
        ultimately show ?thesis by (simp add: node_ok_def)
      next
        case (Panic B')
        then show ?thesis unfolding c using f3 n1 by (simp add: on_ballot_def zoom_def bind_def B_def)
      next
        case (Block B')
        have "ballot_ok (su_size S (els (fe_id (h_futures n f)))) B" "0 < su_size S (els (fe_id (h_futures n f)))"
          using D(4,5) by simp_all
        with Block op show ?thesis
          by (simp add: Ballot_close_eq bind_def zoom_def chan_send_def ballot_ok_def B_def Let_def split: if_splits)
      qed
    qed
  qed
qed

text \<open>New ballots, and the table of ballots.\<close>

lemma inv_new_ballot:
  assumes "node_ok S fl hist n" and "f < h_nfutures n" and "pending (h_futures n f)"
    and "f \<notin> set (buf (applyCh n))" and "\<And>b. b < h_nballots n \<Longrightarrow> fentry (h_bheap n b) \<noteq> f"
    and "fe_Entry (h_futures n f) \<in> su_entries S"
    and "fe_id (h_futures n f) = Entry_Hash (su_hash S) (fe_Entry (h_futures n f))"
    and "0 < su_size S (els (fe_id (h_futures n f)))"
  shows "node_ok S fl hist (n\<lparr>h_bheap := (h_bheap n)(h_nballots n := newBallot f (su_size S (els (fe_id (h_futures n f)))) ttl),
    h_nballots := Suc (h_nballots n)\<rparr>)" (is "node_ok S fl hist ?n")
proof -
  have N: "node_inv S n" using assms(1) by (simp add: node_ok_def)
  have new: "fentry (newBallot f m ttl) = f" "ballot_ok m (newBallot f m ttl)" for m
    by (simp_all add: newBallot_def ballot_ok_def)
  have "ballot_inv S ?n b" if "b < h_nballots ?n" for b
  proof (cases "b = h_nballots n")
    case True
    with assms new show ?thesis by (simp add: ballot_inv_def Let_def)
  next
    case False
    with that have "b < h_nballots n" by simp
    moreover have "h_bheap ?n b = h_bheap n b" "h_futures ?n = h_futures n" "h_nfutures ?n = h_nfutures n"
      "applyCh ?n = applyCh n" using False by simp_all
    then have "ballot_inv S ?n b = ballot_inv S n b" unfolding ballot_inv_def by (simp only:)
    ultimately show ?thesis using node_invD(5) [OF N] by simp
  qed
  moreover have "inj_on (\<lambda>b. fentry (h_bheap ?n b)) {..<h_nballots ?n}"
  proof -
    have "inj_on (\<lambda>b. fentry (h_bheap n b)) {..<h_nballots n}"
      using N by (simp add: node_inv_def ballots_inv_def)
    then have "inj_on (\<lambda>b. fentry (h_bheap ?n b)) {..<h_nballots n}"
      by (rule inj_on_cong [THEN iffD1, rotated]) simp
    moreover have "{..<h_nballots ?n} = insert (h_nballots n) {..<h_nballots n}" by auto
    moreover have "fentry (h_bheap ?n (h_nballots n)) \<notin> (\<lambda>b. fentry (h_bheap ?n b)) ` {..<h_nballots n}"
      using assms(5) new(1) by auto
    ultimately show ?thesis by (simp only: inj_on_insert) simp
  qed
  moreover have "table_inv ?n"
    using N by (fastforce simp: node_inv_def table_inv_def)
  moreover have el: "elected ?n e" if "elected n e" for e
    by (rule elected_mono [OF that]) simp_all
  have "voted_inv S ?n"
    by (rule voted_mono [of S n]) (use N el in \<open>simp_all add: node_inv_def\<close>)
  moreover have "base_inv S ?n" using N by (simp add: node_inv_def base_inv_def fsm_ok_def)
  ultimately show ?thesis
    using assms(1) by (simp add: node_ok_def node_inv_def ballots_inv_def hist_inv_def queued_def)
qed

lemma inv_table:
  assumes "node_ok S fl hist n" and "b < h_nballots n"
    and "els (fe_id (h_futures n (fentry (h_bheap n b)))) = k"
  shows "node_ok S fl hist (n\<lparr>h_ballots := AList.update k b (h_ballots n)\<rparr>)"
  using assms
  by (simp add: node_ok_def node_inv_def parts fsm_ok_def elected_def hist_inv_def queued_def)

lemma inv_track:
  assumes I: "node_ok S fl hist n" and "e \<in> su_entries S" and "eid = Entry_Hash (su_hash S) e"
    and "m = su_size S (els eid)" and "0 < m"
  shows "node_ok S fl hist (snd (track_ballot eid e m n)) \<and>
    fst (track_ballot eid e m n) < h_nballots (snd (track_ballot eid e m n))"
proof -
  have N: "node_inv S n" using I by (simp add: node_ok_def)
  let ?f = "h_nfutures n" and ?b = "h_nballots n" and ?fe = "NewFutureEntry eid e"
  let ?n1 = "n\<lparr>h_futures := (h_futures n)(?f := ?fe), h_nfutures := Suc ?f\<rparr>"
  let ?n2 = "?n1\<lparr>h_bheap := (h_bheap ?n1)(h_nballots ?n1 := newBallot ?f m (TTL (h_conf n))), h_nballots := Suc (h_nballots ?n1)\<rparr>"
  have i1: "node_ok S fl hist ?n1" by (rule inv_new_future [OF I])
  have notin: "?f \<notin> set (buf (applyCh ?n1))"
    using node_invD(4) [OF N] by (auto simp: fsm_ok_def)
  have refs: "fentry (h_bheap ?n1 b) \<noteq> ?f" if "b < h_nballots ?n1" for b
    using ballot_invD(1) [OF node_invD(5) [OF N]] that by fastforce
  have m: "m = su_size S (els (fe_id (h_futures ?n1 ?f)))" using assms(4) by simp
  have i2: "node_ok S fl hist ?n2"
    unfolding m by (rule inv_new_ballot [OF i1 _ _ notin refs]) (use assms in simp_all)
  have "node_ok S fl hist (?n2\<lparr>h_ballots := AList.update (els eid) ?b (h_ballots ?n2)\<rparr>)"
    by (rule inv_table [OF i2]) (simp_all add: newBallot_def)
  then show ?thesis by (simp add: track_ballot_def new_future_def new_ballot_def)
qed

text \<open>Votes. A vote without an error leaves the ballot open and returns its count.\<close>

definition at_ballot :: "Setup \<Rightarrow> bool \<Rightarrow> (bytes \<times> Entry) list \<Rightarrow> nat \<Rightarrow> ('a, 'd, 'c) Node \<Rightarrow> bool" where
  "at_ballot S fl hist b n \<longleftrightarrow> node_ok S fl hist n \<and> b < h_nballots n"

lemma at_ballotD: "at_ballot S fl hist b n \<Longrightarrow> node_ok S fl hist n" "at_ballot S fl hist b n \<Longrightarrow> b < h_nballots n"
  by (simp_all add: at_ballot_def)

lemma at_ballot_queues [simp]:
  "at_ballot S fl hist b (n\<lparr>pch := c\<rparr>) = at_ballot S fl hist b n"
  "at_ballot S fl hist b (n\<lparr>cch := c\<rparr>) = at_ballot S fl hist b n"
  "at_ballot S fl hist b (n\<lparr>hch := c\<rparr>) = at_ballot S fl hist b n"
  by (simp_all add: at_ballot_def)

lemma at_ballot_close:
  "ensures (at_ballot S fl hist b) (on_ballot b (Ballot_close now err)) (\<lambda>_. at_ballot S fl hist b)
    (node_ok S False hist)"
  using ensures_on_ballot [of "Ballot_close now err" S fl hist b] ballot_le_calls(3)
  by (simp add: at_ballot_def [abs_def])

lemma after_bind_Ret [simp]: "after (bind m (\<lambda>a. Ret (f a)) s) = after (m s)"
  by (cases "m s") simp_all

lemma upsert_ensures:
  "ensures (at_ballot S fl hist b) (upsertKeyAndBroadcast ph e opts) (\<lambda>_. at_ballot S fl hist b)
    (node_ok S False hist)"
proof (rule ensures_after)
  fix n assume a: "at_ballot S fl hist b n"
  have nk: "at_ballot S fl hist b (n\<lparr>h_store := snd (LogStore_NewKey (hlog_log n) (Key e) (h_store n))\<rparr>)"
    using inv_store_calls(1) [OF at_ballotD(1) [OF a]] a by (simp add: at_ballot_def)
  have cl: "snd (Keylog_Close (hlog_log n) h s) = s" for h s
    by (simp add: Keylog_Close_def mem_keylog_index_def)
  have "at_ballot S fl hist b (after (upsertKeyAndBroadcast ph e opts n))"
    using a nk cl by (auto simp: upsertKeyAndBroadcast_def Let_def after_on split: prod.splits sum.splits)
  then show "at_ballot S fl hist b (after (upsertKeyAndBroadcast ph e opts n)) \<and>
      node_ok S False hist (after (upsertKeyAndBroadcast ph e opts n))"
    by (auto simp: at_ballot_def intro: inv_False)
qed

definition after_vote ::
  "Setup \<Rightarrow> bool \<Rightarrow> (bytes \<times> Entry) list \<Rightarrow> nat \<Rightarrow> bytes \<Rightarrow> (Ballot \<Rightarrow> nat) \<Rightarrow> int \<times> bool \<times> error option \<Rightarrow>
   ('a, 'd, 'c) Node \<Rightarrow> bool" where
  "after_vote S fl hist b eid count r n \<longleftrightarrow> at_ballot S fl hist b n \<and>
     (case r of (c, voted, err) \<Rightarrow>
        err = None \<longrightarrow> \<not> b_closed (h_bheap n b) \<and> c = int (count (h_bheap n b)) \<and>
          ballot_size S n b = su_size S (els eid))"

lemma vote_ensures:
  "ensures (at_ballot S fl hist b) (\<lambda>n. on_ballot b (votePropose (h_futures n) now eid v i) n)
    (after_vote S fl hist b eid Ballot_Proposals) (node_ok S False hist)"
  "ensures (at_ballot S fl hist b) (\<lambda>n. on_ballot b (voteCommit (h_futures n) eid v i) n)
    (after_vote S fl hist b eid Ballot_Commits) (node_ok S False hist)"
proof -
  show "ensures (at_ballot S fl hist b) (\<lambda>n. on_ballot b (votePropose (h_futures n) now eid v i) n)
    (after_vote S fl hist b eid Ballot_Proposals) (node_ok S False hist)"
  proof (rule ensuresI)
    fix n assume a: "at_ballot S fl hist b n"
    have le: "ballot_le B (after (votePropose (h_futures n) now eid v i B))" for B
      by (rule ballot_le_calls(1))
    have *: "case on_ballot b (votePropose (h_futures n) now eid v i) n of
      Ret _ t \<Rightarrow> at_ballot S fl hist b t | Panic _ \<Rightarrow> True | Block t \<Rightarrow> node_ok S False hist t"
      unfolding at_ballot_def
      by (rule ensuresD [OF ensures_on_ballot [OF le, of S fl hist b]]) (rule a [unfolded at_ballot_def])
    show "case on_ballot b (votePropose (h_futures n) now eid v i) n of
      Ret r t \<Rightarrow> after_vote S fl hist b eid Ballot_Proposals r t | Panic _ \<Rightarrow> True | Block t \<Rightarrow> node_ok S False hist t"
      using * by (auto simp: after_vote_def on_ballot_def zoom_def votePropose_eq setTTL_def Let_def
        Ballot_Proposals_def split: outcome.splits if_splits)
  qed
  show "ensures (at_ballot S fl hist b) (\<lambda>n. on_ballot b (voteCommit (h_futures n) eid v i) n)
    (after_vote S fl hist b eid Ballot_Commits) (node_ok S False hist)"
  proof (rule ensuresI)
    fix n assume a: "at_ballot S fl hist b n"
    have le: "ballot_le B (after (voteCommit (h_futures n) eid v i B))" for B
      by (rule ballot_le_calls(2))
    have *: "case on_ballot b (voteCommit (h_futures n) eid v i) n of
      Ret _ t \<Rightarrow> at_ballot S fl hist b t | Panic _ \<Rightarrow> True | Block t \<Rightarrow> node_ok S False hist t"
      unfolding at_ballot_def
      by (rule ensuresD [OF ensures_on_ballot [OF le, of S fl hist b]]) (rule a [unfolded at_ballot_def])
    show "case on_ballot b (voteCommit (h_futures n) eid v i) n of
      Ret r t \<Rightarrow> after_vote S fl hist b eid Ballot_Commits r t | Panic _ \<Rightarrow> True | Block t \<Rightarrow> node_ok S False hist t"
      using * by (auto simp: after_vote_def on_ballot_def zoom_def voteCommit_eq Let_def
        Ballot_Commits_def split: outcome.splits if_splits)
  qed
qed

end
