(* ===== verification/Node_Runs.thy ===== *)
theory Node_Runs
  imports Node_Invariant
begin

section \<open>Runs of a node\<close>

text \<open>
  Each operation of a node keeps the invariant of \<open>Node_Invariant\<close>; hence so does every
  sequence of them. The properties of the node are at the end.
\<close>

subsection \<open>Operations\<close>

lemma at_ballot_False: "at_ballot S fl hist b n \<Longrightarrow> node_ok S False hist n"
  using inv_False by (auto simp: at_ballot_def)

lemma upsert_or_close:
  "ensures (at_ballot S fl hist b)
    (bind (upsertKeyAndBroadcast ph entry opts)
       (\<lambda>err. case err of
          Some e \<Rightarrow> bind (on_ballot b (Ballot_close now err)) (\<lambda>_. Ret (g e))
        | None \<Rightarrow> Ret r))
    (\<lambda>_. at_ballot S fl hist b) (node_ok S False hist)"
proof (rule ensures_bind [OF upsert_ensures])
  fix err :: "error option"
  show "ensures (at_ballot S fl hist b)
      (case err of Some e \<Rightarrow> bind (on_ballot b (Ballot_close now err)) (\<lambda>_. Ret (g e)) | None \<Rightarrow> Ret r)
      (\<lambda>_. at_ballot S fl hist b) (node_ok S False hist)"
    by (cases err) (auto intro: ensures_return ensures_bind [OF at_ballot_close])
qed

lemma self_vote_ensures:
  "ensures (at_ballot S fl hist b) (Propose_self_vote E now entry eid ph idx opts b)
    (\<lambda>_. at_ballot S fl hist b) (node_ok S False hist)"
proof -
  let ?v = "\<lambda>n. on_ballot b (votePropose (h_futures n) now eid (Host (peers opts ! idx)) (int idx)) n"
  have eq: "Propose_self_vote E now entry eid ph idx opts b =
    bind ?v (\<lambda>r. if fst (snd r) then
            bind (upsertKeyAndBroadcast ph entry (CloneWithSourceIndex opts (int idx)))
              (\<lambda>err. case err of
                 Some e \<Rightarrow> bind (on_ballot b (Ballot_close now err)) (\<lambda>_. Ret (Some e))
               | None \<Rightarrow> Ret None)
          else Ret None)"
    by (rule ext) (unfold Propose_self_vote_def bind_def case_prod_beta, rule refl)
  show ?thesis unfolding eq
  proof (rule ensures_bind [OF vote_ensures(1)], goal_cases)
    case (1 r)
    have *: "after_vote S fl hist b eid c r n \<Longrightarrow> at_ballot S fl hist b n" for n c
      by (simp add: after_vote_def)
    show ?case
      by (cases "fst (snd r)")
        (auto intro: ensures_weaken [OF upsert_or_close *] ensures_return dest: *)
  qed
qed

lemma source_vote_ensures:
  fixes E :: "('a, 'd, 'c) Env"
  assumes "length (peers opts) = su_size S (els eid)"
  shows "ensures (at_ballot S fl hist b) (Propose_source_vote E now entry eid ph idx opts b)
    (\<lambda>_. node_ok S fl hist) (node_ok S False hist)"
proof (cases "SourcePeer opts")
  case None
  then show ?thesis by (simp add: ensures_def Propose_source_vote_def)
next
  case (Some source)
  let ?v = "\<lambda>n. on_ballot b (votePropose (h_futures n) now eid (Host source) (SourceIndex opts)) n"
  have eq: "Propose_source_vote E now entry eid ph idx opts b =
    bind ?v (\<lambda>r. if snd (snd r) \<noteq> None then Ret (Some b, snd (snd r))
               else if fst r = 1 then
                 (if fst (snd r) then
                    bind (upsertKeyAndBroadcast ph entry (CloneWithSourceIndex opts (int idx)))
                      (\<lambda>err. case err of
                         Some e \<Rightarrow> bind (on_ballot b (Ballot_close now err)) (\<lambda>_. Ret (None, Some e))
                       | None \<Rightarrow> Ret (Some b, None))
                  else Ret (Some b, None))
               else if fst r = int (length (peers opts)) then
                 bind (checkVotesAndCommit E now b) (\<lambda>_. Ret (Some b, None))
               else Ret (Some b, None))"
    by (rule ext) (unfold Propose_source_vote_def bind_def case_prod_beta Some option.case, rule refl)
  show ?thesis unfolding eq
  proof (rule ensures_bind [OF vote_ensures(1)], goal_cases)
    case (1 r)
    have at: "after_vote S fl hist b eid c r n \<Longrightarrow> at_ballot S fl hist b n" for n c
      by (simp add: after_vote_def)
    have ok: "after_vote S fl hist b eid c r n \<Longrightarrow> node_ok S fl hist n" for n c
      by (simp add: after_vote_def at_ballot_def)
    have commit: "ensures (after_vote S fl hist b eid Ballot_Proposals r) (checkVotesAndCommit E now b)
        (\<lambda>_. node_ok S fl hist) (node_ok S False hist)"
      if "snd (snd r) = None" "fst r = int (length (peers opts))"
    proof (rule ensuresI)
      fix n :: "('a, 'd, 'c) Node" assume "after_vote S fl hist b eid Ballot_Proposals r n"
      then have n: "node_ok S fl hist n" "b < h_nballots n" "\<not> b_closed (h_bheap n b)"
        "Ballot_Proposals (h_bheap n b) = ballot_size S n b"
        using that assms by (auto simp: after_vote_def at_ballot_def split: prod.splits)
      then show "case checkVotesAndCommit E now b n of Ret _ t \<Rightarrow> node_ok S fl hist t | Panic _ \<Rightarrow> True
          | Block t \<Rightarrow> node_ok S False hist t"
        by (intro commit_outcome) simp_all
    qed
    show ?case
    proof (cases "snd (snd r) = None")
      case False
      then show ?thesis by (auto intro: ensures_return ok)
    next
      case True
      have "ensures (after_vote S fl hist b eid Ballot_Proposals r)
          (bind (checkVotesAndCommit E now b) (\<lambda>_. Ret (Some b, None)))
          (\<lambda>_. node_ok S fl hist) (node_ok S False hist)" if "fst r = int (length (peers opts))"
        by (rule ensures_bind [OF commit [OF True that]]) (rule ensures_return)
      moreover have "ensures (after_vote S fl hist b eid Ballot_Proposals r)
          (bind (upsertKeyAndBroadcast ph entry (CloneWithSourceIndex opts (int idx)))
              (\<lambda>err. case err of
                 Some e \<Rightarrow> bind (on_ballot b (Ballot_close now err)) (\<lambda>_. Ret (None, Some e))
               | None \<Rightarrow> Ret (Some b, None)))
          (\<lambda>_. node_ok S fl hist) (node_ok S False hist)"
        by (rule ensures_weaken [OF upsert_or_close at]) (auto simp: at_ballot_def)
      ultimately show ?thesis using True by (auto intro: ensures_return ok)
    qed
  qed
qed

lemma bind_ensures_node:
  "ensures P m (\<lambda>_. node_ok S fl hist) R \<Longrightarrow> ensures P (bind m (\<lambda>a. Ret (g a))) (\<lambda>_. node_ok S fl hist) R"
  by (rule ensures_bind) (auto intro: ensures_return)

text \<open>Requests about an entry: it is one of the run and comes with the peers of the run.\<close>

definition request_ok :: "Setup \<Rightarrow> Entry \<Rightarrow> RequestOptions \<Rightarrow> bool" where
  "request_ok S e opts \<longleftrightarrow> e \<in> su_entries S \<and>
     length (peers opts) = su_size S (els (Entry_Hash (su_hash S) e))"

lemma ballotGetClose_ensures:
  "ensures (node_ok S fl hist) (ballotGetClose now eid err) (\<lambda>_. node_ok S fl hist) (node_ok S False hist)"
proof (rule ensures_from)
  fix n :: "('a, 'd, 'c) Node" assume a: "node_ok S fl hist n"
  show "\<exists>m' P'. ballotGetClose now eid err n = m' n \<and> P' n \<and>
      ensures P' m' (\<lambda>_. node_ok S fl hist) (node_ok S False hist)"
  proof (cases "getBallot eid n")
    case None
    then have "ballotGetClose now eid err n = Ret () n" by (simp add: ballotGetClose_def)
    with a show ?thesis by (intro exI [of _ "Ret ()"]) (auto intro: ensures_return)
  next
    case (Some b)
    then have "b < h_nballots n" using a node_invD(6) by (fastforce simp: getBallot_def node_ok_def)
    moreover have "ballotGetClose now eid err n = bind (on_ballot b (Ballot_close now err)) (\<lambda>_. Ret ()) n"
      using Some by (simp add: ballotGetClose_def)
    moreover have "ensures (at_ballot S fl hist b) (bind (on_ballot b (Ballot_close now err)) (\<lambda>_. Ret ()))
        (\<lambda>_. node_ok S fl hist) (node_ok S False hist)"
      by (rule ensures_bind [OF at_ballot_close]) (auto intro: ensures_return simp: at_ballot_def)
    ultimately show ?thesis using a
      by (intro exI [of _ "bind (on_ballot b (Ballot_close now err)) (\<lambda>_. Ret ())"]
          exI [of _ "at_ballot S fl hist b"]) (simp add: at_ballot_def)
  qed
qed

lemma hch_ensures: "ensures (node_ok S fl hist) (on_hch m) (\<lambda>_. node_ok S fl hist) (node_ok S False hist)"
  by (rule ensures_after) (auto simp: after_on dest: inv_False)

lemma SourceIndex_peers [simp]: "peers (opts\<lparr>SourceIndex := i\<rparr>) = peers opts"
  by simp

lemma self_from_bound: "self_from i host ps = Some j \<Longrightarrow> i \<le> j \<and> j < i + length ps"
  by (induction ps arbitrary: i) (fastforce split: if_splits)+

lemma Propose_refused_ensures:
  "ensures (node_ok S fl hist) (Propose_refused now entry eid ph err opts) (\<lambda>_. node_ok S fl hist)
    (node_ok S False hist)"
  unfolding Propose_refused_def
  by (rule ensures_if) (rule bind_ensures_node [OF hch_ensures] bind_ensures_node [OF ballotGetClose_ensures])+

lemma Propose_votes_ensures:
  fixes E :: "('a, 'd, 'c) Env"
  assumes e: "entry \<in> su_entries S" "eid = Entry_Hash (su_hash S) entry"
    and len: "length (peers opts) = su_size S (els eid)" "0 < length (peers opts)"
  shows "ensures (node_ok S fl hist) (Propose_votes E now entry eid ph idx opts) (\<lambda>_. node_ok S fl hist)
    (node_ok S False hist)"
proof (rule ensuresI)
  fix n :: "('a, 'd, 'c) Node" assume a: "node_ok S fl hist n"
  have N: "node_inv S n" using a by (simp add: node_ok_def)
  let ?source = "\<lambda>b. bind (Propose_source_vote E now entry eid ph idx opts b) (\<lambda>r. Ret (fst r, snd r, opts))"
  have source: "ensures (at_ballot S fl hist b) (?source b) (\<lambda>_. node_ok S fl hist) (node_ok S False hist)" for b
    by (rule bind_ensures_node [OF source_vote_ensures [OF len(1)]])
  show "case Propose_votes E now entry eid ph idx opts n of Ret _ t \<Rightarrow> node_ok S fl hist t | Panic _ \<Rightarrow> True
      | Block t \<Rightarrow> node_ok S False hist t"
  proof (cases "map_of (h_ballots n) (els eid)")
    case (Some b)
    then have "at_ballot S fl hist b n" using a node_invD(6) [OF N Some] by (simp add: at_ballot_def)
    moreover have "Propose_votes E now entry eid ph idx opts n = ?source b n"
      by (simp add: Propose_votes_def Some)
    ultimately show ?thesis using ensuresD [OF source] by simp
  next
    case None
    obtain b n1 where t: "track_ballot eid entry (length (peers opts)) n = (b, n1)" by (metis prod.collapse)
    have at: "at_ballot S fl hist b n1"
      using inv_track [OF a e len] t by (simp add: at_ballot_def)
    let ?self = "if int idx \<noteq> SourceIndex opts
      then Propose_self_vote E now entry eid ph idx opts b else Ret None"
    let ?m = "bind ?self (\<lambda>stop. case stop of Some e \<Rightarrow> Ret (None, Some e, opts) | None \<Rightarrow> ?source b)"
    have "ensures (at_ballot S fl hist b) ?self (\<lambda>_. at_ballot S fl hist b) (node_ok S False hist)"
      by (simp add: self_vote_ensures ensures_return)
    then have en: "ensures (at_ballot S fl hist b) ?m (\<lambda>_. node_ok S fl hist) (node_ok S False hist)"
    proof (rule ensures_bind)
      fix stop :: "error option"
      show "ensures (at_ballot S fl hist b)
          (case stop of Some e \<Rightarrow> Ret (None, Some e, opts) | None \<Rightarrow> ?source b)
          (\<lambda>_. node_ok S fl hist) (node_ok S False hist)"
        by (cases stop) (simp_all add: source ensures_return at_ballotD)
    qed
    have "Propose_votes E now entry eid ph idx opts n = ?m n1"
      by (simp add: Propose_votes_def None t)
    then show ?thesis using ensuresD [OF en at] by simp
  qed
qed

lemma Propose_ensures:
  fixes E :: "('a, 'd, 'c) Env"
  assumes rq: "request_ok S entry opts"
  shows "ensures (node_ok S fl hist) (Propose E now entry opts) (\<lambda>_. node_ok S fl hist) (node_ok S False hist)"
proof (rule ensuresI)
  fix n :: "('a, 'd, 'c) Node" assume a: "node_ok S fl hist n"
  have H: "hasher n = su_hash S" using a node_invD(1) by (auto simp: node_ok_def)
  let ?Q = "\<lambda>r. case r of Ret _ t \<Rightarrow> node_ok S fl hist t | Panic _ \<Rightarrow> True | Block t \<Rightarrow> node_ok S False hist t"
  show "?Q (Propose E now entry opts n)"
  proof (cases "checkOptions opts n")
    case (Some err)
    with a show ?thesis by (simp add: Propose_def)
  next
    case co: None
    show ?thesis
    proof (cases "getSelfIndex (peers opts) n")
      case None
      with a co show ?thesis by (simp add: Propose_def)
    next
      case (Some idx)
      define opts' where "opts' = (if SourceIndex opts < 0 then opts\<lparr>SourceIndex := int idx\<rparr> else opts)"
      define eid where "eid = Entry_Hash (su_hash S) entry"
      have len: "length (peers opts') = su_size S (els eid)" "0 < length (peers opts')"
        using rq self_from_bound [OF Some [unfolded getSelfIndex_def]]
        by (auto simp: opts'_def eid_def request_ok_def)
      obtain ph r where v: "verifyEntry entry n = (ph, r)" by (metis prod.collapse)
      have P: "Propose E now entry opts n = (case r of
          Some err \<Rightarrow> Propose_refused now entry eid ph err opts' n
        | None \<Rightarrow> Propose_votes E now entry eid ph idx opts' n)"
        unfolding Propose_def co Some v Let_def opts'_def eid_def H by (simp split: option.split)
      show ?thesis
      proof (cases r)
        case None
        have "entry \<in> su_entries S" using rq by (simp add: request_ok_def)
        from ensuresD [OF Propose_votes_ensures [OF this eid_def len] a] show ?thesis
          unfolding P None option.case .
      next
        case (Some err)
        from ensuresD [OF Propose_refused_ensures a] show ?thesis
          unfolding P Some option.case .
      qed
    qed
  qed
qed

lemma queueBroadcastOrCommit_ensures:
  fixes E :: "('a, 'd, 'c) Env"
  assumes "length (peers opts) = su_size S (els eid)"
  shows "ensures (after_vote S fl hist b eid Ballot_Commits (c, voted, None))
    (queueBroadcastOrCommit E now c b opts) (\<lambda>_. node_ok S fl hist) (node_ok S False hist)"
proof (rule ensuresI)
  fix n :: "('a, 'd, 'c) Node" assume "after_vote S fl hist b eid Ballot_Commits (c, voted, None) n"
  then have n: "node_ok S fl hist n" "b < h_nballots n" "\<not> b_closed (h_bheap n b)"
    "c = int (Ballot_Commits (h_bheap n b))" "ballot_size S n b = su_size S (els eid)"
    by (auto simp: after_vote_def at_ballot_def)
  show "case queueBroadcastOrCommit E now c b opts n of Ret _ t \<Rightarrow> node_ok S fl hist t | Panic _ \<Rightarrow> True
      | Block t \<Rightarrow> node_ok S False hist t"
  proof (cases "c = 1")
    case True
    then have eq: "queueBroadcastOrCommit E now c b opts n = on_cch (chan_send (zero_ReqResp\<lparr>rr_Entry :=
        Some (fe_Entry (h_futures n (fentry (h_bheap n b)))), rr_Options := Some opts\<rparr>)) n"
      by (simp add: queueBroadcastOrCommit_def Let_def)
    have "ensures (node_ok S fl hist) (on_cch m) (\<lambda>_. node_ok S fl hist) (node_ok S False hist)"
      for m :: "(ReqResp chan, unit) call"
      by (rule ensures_after) (auto simp: after_on dest: inv_False)
    from ensuresD [OF this n(1)] show ?thesis unfolding eq by simp
  next
    case not1: False
    show ?thesis
    proof (cases "c = int (length (peers opts))")
      case False
      with not1 n(1) show ?thesis by (simp add: queueBroadcastOrCommit_def)
    next
      case True
      with n(4,5) assms have "Ballot_Commits (h_bheap n b) = ballot_size S n b" by simp
      from commit_outcome [OF n(1-3) disjI2 [OF this], of E now] not1 True show ?thesis
        by (cases "checkVotesAndCommit E now b n") (simp_all add: queueBroadcastOrCommit_def bind_def)
    qed
  qed
qed

lemma Commit_vote_ensures:
  fixes E :: "('a, 'd, 'c) Env"
  assumes len: "length (peers opts) = su_size S (els eid)"
  shows "ensures (at_ballot S fl hist b) (Commit_vote E now eid self opts b voter i)
    (\<lambda>_. node_ok S fl hist) (node_ok S False hist)"
proof -
  let ?v = "\<lambda>n. on_ballot b (voteCommit (h_futures n) eid voter i) n"
  have eq: "Commit_vote E now eid self opts b voter i =
    bind ?v (\<lambda>r. if snd (snd r) \<noteq> None then Ret (snd (snd r))
      else if fst (snd r) then
        bind (queueBroadcastOrCommit E now (fst r) b (CloneWithSourceIndex opts (int self))) (\<lambda>_. Ret None)
      else Ret None)"
    by (rule ext) (unfold Commit_vote_def bind_def case_prod_beta, rule refl)
  show ?thesis unfolding eq
  proof (rule ensures_bind [OF vote_ensures(2)], goal_cases)
    case (1 r)
    obtain c voted err where r: "r = (c, voted, err)" by (cases r)
    have ok: "after_vote S fl hist b eid k r' n \<Longrightarrow> node_ok S fl hist n" for n k r'
      by (simp add: after_vote_def at_ballot_def)
    show ?case unfolding r fst_conv snd_conv
      by (intro ensures_if ensures_return ok bind_ensures_node)
        (use queueBroadcastOrCommit_ensures [of "CloneWithSourceIndex opts (int self)" S eid] len in simp_all)
  qed
qed

text \<open>Ballots are never deallocated by a vote.\<close>

lemma h_nballots_on [simp]:
  "on_ballot b m n = Ret r t \<Longrightarrow> h_nballots t = h_nballots n"
  "on_cch q n = Ret u t \<Longrightarrow> h_nballots t = h_nballots n"
  "fsm_apply now f n = Ret u t \<Longrightarrow> h_nballots t = h_nballots n"
  by (auto simp: on_defs zoom_eq_Ret_iff fsm_apply_def Let_def)

lemma h_nballots_commit: "checkVotesAndCommit E now b n = Ret r t \<Longrightarrow> h_nballots t = h_nballots n"
  by (auto simp: checkVotesAndCommit_def Let_def bind_eq_Ret_iff Witness_def
      split: if_splits prod.splits option.splits dest!: h_nballots_on)

lemma h_nballots_Commit_vote:
  "Commit_vote E now eid self opts b voter i n = Ret r t \<Longrightarrow> h_nballots t = h_nballots n"
  by (auto simp: Commit_vote_def queueBroadcastOrCommit_def Let_def bind_eq_Ret_iff
      split: if_splits prod.splits dest!: h_nballots_on h_nballots_commit)

lemma Commit_ensures:
  fixes E :: "('a, 'd, 'c) Env"
  assumes rq: "request_ok S entry opts"
  shows "ensures (node_ok S fl hist) (Commit E now entry opts) (\<lambda>_. node_ok S fl hist) (node_ok S False hist)"
proof (rule ensuresI)
  fix n :: "('a, 'd, 'c) Node" assume a: "node_ok S fl hist n"
  have N: "node_inv S n" using a by (simp add: node_ok_def)
  have H: "hasher n = su_hash S" using node_invD(1) [OF N] .
  define eid where "eid = Entry_Hash (su_hash S) entry"
  have len: "length (peers opts) = su_size S (els eid)" using rq by (simp add: request_ok_def eid_def)
  show "case Commit E now entry opts n of Ret _ t \<Rightarrow> node_ok S fl hist t | Panic _ \<Rightarrow> True
      | Block t \<Rightarrow> node_ok S False hist t"
  proof (cases "checkOptions opts n = None \<and> (\<exists>self b. getSelfIndex (peers opts) n = Some self \<and> getBallot eid n = Some b)")
    case False
    with a H show ?thesis by (auto simp: Commit_def Let_def eid_def split: option.splits)
  next
    case True
    then obtain self b where T: "checkOptions opts n = None" "getSelfIndex (peers opts) n = Some self"
      "getBallot eid n = Some b" by blast
    have "map_of (h_ballots n) (els eid) = Some b" using T(3) by (simp add: getBallot_def)
    from node_invD(6) [OF N this] a have at: "at_ballot S fl hist b n" by (simp add: at_ballot_def)
    let ?second = "case SourcePeer opts of None \<Rightarrow> Panic
        | Some sloc \<Rightarrow> bind (Commit_vote E now eid self opts b (Host sloc) (SourceIndex opts)) (\<lambda>err. Ret (Some b, err))"
    let ?first = "if int self \<noteq> SourceIndex opts
        then Commit_vote E now eid self opts b (Host (peers opts ! self)) (int self) else Ret None"
    let ?m = "bind ?first (\<lambda>err. if err \<noteq> None then Ret (Some b, err) else ?second)"
    have "ensures (at_ballot S fl hist b) (Commit_vote E now eid self opts b v i)
        (\<lambda>_. at_ballot S fl hist b) (node_ok S False hist)" for v i
    proof (rule ensuresI)
      fix n :: "('a, 'd, 'c) Node" assume at: "at_ballot S fl hist b n"
      from ensuresD [OF Commit_vote_ensures [OF len] at, of E now self v i]
        h_nballots_Commit_vote [of E now eid self opts b v i n] at
      show "case Commit_vote E now eid self opts b v i n of Ret _ t \<Rightarrow> at_ballot S fl hist b t | Panic _ \<Rightarrow> True
          | Block t \<Rightarrow> node_ok S False hist t"
        by (cases "Commit_vote E now eid self opts b v i n") (simp_all add: at_ballot_def)
    qed
    then have first: "ensures (at_ballot S fl hist b) ?first (\<lambda>_. at_ballot S fl hist b) (node_ok S False hist)"
      by (intro ensures_if ensures_return) simp_all
    have second: "ensures (at_ballot S fl hist b) ?second (\<lambda>_. node_ok S fl hist) (node_ok S False hist)"
      by (cases "SourcePeer opts") (simp_all add: ensures_panic bind_ensures_node [OF Commit_vote_ensures [OF len]])
    have en: "ensures (at_ballot S fl hist b) ?m (\<lambda>_. node_ok S fl hist) (node_ok S False hist)"
      by (rule ensures_bind [OF first]) (intro ensures_if ensures_return second at_ballotD(1))
    have "Commit E now entry opts n = ?m n"
      using T by (simp add: Commit_def Let_def H eid_def [symmetric])
    then show ?thesis using ensuresD [OF en at] by simp
  qed
qed

subsection \<open>The other steps\<close>

lemma hlog_append_ensures:
  fixes n :: "('a, 'd, 'c) Node"
  assumes I: "node_ok S fl hist n" and e: "e \<in> su_entries S" "e \<in> su_direct S" "eid = Entry_Hash (su_hash S) e"
  shows "case hlog_append now eid e n of Ret _ t \<Rightarrow> node_ok S fl hist t | Panic _ \<Rightarrow> True
      | Block t \<Rightarrow> node_ok S False hist t"
proof -
  have N: "node_inv S n" using I by (simp add: node_ok_def)
  obtain r s where app: "LogStore_AppendEntry (hlog_log n) e (h_store n) = (r, s)" by (metis prod.collapse)
  show ?thesis
  proof (cases r)
    case (Some err)
    with inv_store_calls(2) [OF I e(1)] app show ?thesis by (simp add: hlog_append_def)
  next
    case None
    let ?f = "h_nfutures n" and ?fe = "NewFutureEntry eid e"
    let ?n1 = "n\<lparr>h_store := s\<rparr>"
    let ?n2 = "?n1\<lparr>h_futures := (h_futures ?n1)(h_nfutures ?n1 := ?fe), h_nfutures := Suc (h_nfutures ?n1)\<rparr>"
    let ?n3 = "?n2\<lparr>h_futures := (h_futures ?n2)(?f := FutureEntry_dispatch now (h_futures ?n2 ?f))\<rparr>"
    note ap = inv_append_store [OF I e(1) disjI1 [OF e(2)], of s] 
    have app': "LogStore_AppendEntry (hlog_log n) e (h_store n) = (None, s)" using app None by simp
    have i3: "node_ok S False hist ?n3"
      by (intro inv_dispatch inv_new_future) (rule ap(1) [OF app'])
    have c: "hlog_append now eid e n = bind (fsm_apply now ?f) (\<lambda>_. Ret (Some ?f, None)) ?n2"
      using app' by (simp add: hlog_append_def new_future_def)
    have open1: "\<not> is_closed (applyCh n)" and buf: "?f \<notin> set (buf (applyCh n))"
      using node_invD(4) [OF N] by (auto simp: fsm_ok_def)
    show ?thesis
    proof (cases "length (buf (applyCh n)) < cap (applyCh n)")
      case False
      then have "hlog_append now eid e n = Block ?n3"
        unfolding c using open1 by (simp add: fsm_apply_cases bind_def Let_def)
      with i3 show ?thesis by simp
    next
      case True
      let ?n4 = "?n3\<lparr>applyCh := (applyCh ?n3)\<lparr>buf := buf (applyCh ?n3) @ [?f]\<rparr>\<rparr>"
      have "hlog_append now eid e n = Ret (Some ?f, None) ?n4"
        unfolding c using open1 True by (simp add: fsm_apply_cases bind_def Let_def)
      moreover have refs: "b_closed (h_bheap ?n3 b)" if "b < h_nballots ?n3" "fentry (h_bheap ?n3 b) = ?f" for b
      proof -
        have "fentry (h_bheap n b) < ?f" using that(1) ballot_invD(1) [OF node_invD(5) [OF N, of b]] by simp
        with that(2) show ?thesis by simp
      qed
      have "node_ok S False hist ?n4"
        by (rule inv_enqueue [OF i3 _ _ _ refs]) (use buf in simp_all)
      moreover have "hist_inv S hist ?n4" if fl
      proof -
        have "r \<noteq> ?f" if "r \<in> set (buf (applyCh n))" for r using that buf by auto
        then have q: "queued ?n4 = queued n @ [(Entry_Hash (su_hash S) e, e)]"
          using e(3) by (auto simp: queued_def)
        have l: "log_of ?n4 k = log_of n k @ (if k = els (Key e) then [e] else [])" for k
          using ap(2) [OF app', of k] by (simp add: log_of_def)
        have "hist_inv S hist n" using I that by (simp add: node_ok_def)
        then show ?thesis unfolding hist_inv_def q l by (simp add: of_key_def)
      qed
      ultimately show ?thesis by (simp add: node_ok_def)
    qed
  qed
qed

lemma fsm_step_node:
  fixes n :: "('a, 'd, 'c) Node"
  assumes I: "node_ok S fl hist n" and "buf (applyCh n) = r # rs"
  shows "\<exists>n'. fsm_step E now n = Ret True n' \<and> node_ok S fl (hist @ [hd (queued n)]) n'"
proof -
  have N: "node_inv S n" using I by (simp add: node_ok_def)
  have ok: "fsm_ok n" using node_invD(4) [OF N] .
  let ?fe = "h_futures n r"
  obtain n' where n': "fsm_step E now n = Ret True n'" "fsm_ok n'" "buf (applyCh n') = rs"
    "queued n' = tl (queued n)" "applied_state n' = apply_spec E (hd (queued n)) (applied_state n)"
    "h_nfutures n' = h_nfutures n" "\<And>q. q \<noteq> r \<Longrightarrow> h_futures n' q = h_futures n q"
    and same': "h_store n' = h_store n \<and> h_ballots n' = h_ballots n \<and> h_bheap n' = h_bheap n \<and>
     h_nballots n' = h_nballots n \<and> hasher n' = hasher n"
    and fe': "\<And>q. fe_id (h_futures n' q) = fe_id (h_futures n q) \<and> fe_Entry (h_futures n' q) = fe_Entry (h_futures n q)"
    by (rule fsm_step_effect [OF ok assms(2), of E now]) (rule that; assumption)
  have same: "h_store n' = h_store n" "h_ballots n' = h_ballots n" "h_bheap n' = h_bheap n"
    "h_nballots n' = h_nballots n" "hasher n' = hasher n"
    using same' by simp_all
  have notr: "fentry (h_bheap n b) \<noteq> r" if "b < h_nballots n" "\<not> b_closed (h_bheap n b)" for b
    using ballot_invD(6) [OF node_invD(5) [OF N that(1)] that(2)] assms(2) by auto
  have "ballot_inv S n' b" if b: "b < h_nballots n" for b
    using node_invD(5) [OF N b] notr [OF b] fe' n'(3,6,7) assms(2) same
    by (auto simp: ballot_inv_def Let_def)
  moreover have el: "elected n' e = elected n e" for e
    using fe' same by (simp add: elected_def)
  moreover have "log_of n' k = log_of n k" for k by (simp add: log_of_def same)
  moreover have "hist_inv S (hist @ [hd (queued n)]) n'" if fl
  proof -
    have "queued n \<noteq> []" using assms(2) by (simp add: queued_def)
    then have "hist @ queued n = (hist @ [hd (queued n)]) @ queued n'" using n'(4) by simp
    moreover have "hist_inv S hist n" using I that by (simp add: node_ok_def)
    ultimately show ?thesis by (simp add: hist_inv_def log_of_def same)
  qed
  ultimately have "node_ok S fl (hist @ [hd (queued n)]) n'"
    using N n'(2) fe' same
    by (simp add: node_ok_def node_inv_def base_inv_def ballots_inv_def table_inv_def voted_inv_def)
  with n'(1) show ?thesis by blast
qed

lemma reap_node:
  assumes "node_ok S fl hist n"
  shows "node_ok S fl hist (snd (reapBallotsOnce n))"
proof -
  have N: "node_inv S n" using assms by (simp add: node_ok_def)
  have sub: "map_of (filter P (h_ballots n)) k = Some b \<Longrightarrow> map_of (h_ballots n) k = Some b" for P k b
    using N map_of_SomeD [of "filter P (h_ballots n)" k b]
    by (auto simp: node_inv_def table_inv_def map_ok_def)
  have "map_ok (filter P (h_ballots n))" for P
    using N by (auto simp: node_inv_def table_inv_def map_ok_def distinct_map_filter)
  then have "table_inv (snd (reapBallotsOnce n))"
    using N sub by (fastforce simp: node_inv_def table_inv_def reapBallotsOnce_def)
  with assms show ?thesis
    by (simp add: node_ok_def node_inv_def base_inv_def ballots_inv_def ballot_inv_def voted_inv_def
        elected_def hist_inv_def queued_def fsm_ok_def reapBallotsOnce_def)
qed

end
