(* ===== verification/Node_Properties.thy ===== *)
theory Node_Properties
  imports Node_Runs
begin

section \<open>Properties of a node\<close>

text \<open>
  Sequences of the steps of a node, and what holds along them: the consistency of its log,
  the unanimity of the votes behind it and the order in which the application sees it. Then
  single calls: when a commit completes, when nothing can be committed, what panics.
\<close>

text \<open>
  The steps. The goroutines of a node take requests from its queues, call \<open>Propose\<close>,
  \<open>Commit\<close>, \<open>Heal\<close> and the append of healing, close ballots by their id, fire timers, reap
  and run turns of the application loop.
\<close>

datatype node_op =
    NPropose int Entry RequestOptions
  | NCommit int Entry RequestOptions
  | NHeal bytes RequestOptions
  | NAppend int bytes Entry
  | NClose int bytes "error option"
  | NTimeout nat
  | NReap
  | NTurn int
  | NTake_propose
  | NTake_commit
  | NTake_heal

fun node_call :: "('a, 'd, 'c) Env \<Rightarrow> node_op \<Rightarrow> (('a, 'd, 'c) Node, unit) call" where
  "node_call E (NPropose now e opts) = bind (Propose E now e opts) (\<lambda>_. Ret ())"
| "node_call E (NCommit now e opts) = bind (Commit E now e opts) (\<lambda>_. Ret ())"
| "node_call E (NHeal key opts) = bind (hlog_Heal key opts) (\<lambda>_. Ret ())"
| "node_call E (NAppend now eid e) = bind (hlog_append now eid e) (\<lambda>_. Ret ())"
| "node_call E (NClose now eid err) = ballotGetClose now eid err"
| "node_call E (NTimeout b) = (\<lambda>n.
     case b_timer (h_bheap n b) of
       Timer_armed _ \<Rightarrow> on_ballot b Ballot_timeout n
     | _ \<Rightarrow> Block n)"
| "node_call E NReap = bind reapBallots_turn (\<lambda>_. Ret ())"
| "node_call E (NTurn now) = bind (fsm_step E now) (\<lambda>_. Ret ())"
| "node_call E NTake_propose = bind (on_pch chan_recv) (\<lambda>_. Ret ())"
| "node_call E NTake_commit = bind (on_cch chan_recv) (\<lambda>_. Ret ())"
| "node_call E NTake_heal = bind (on_hch chan_recv) (\<lambda>_. Ret ())"

fun op_ok :: "Setup \<Rightarrow> node_op \<Rightarrow> bool" where
  "op_ok S (NPropose _ e opts) = request_ok S e opts"
| "op_ok S (NCommit _ e opts) = request_ok S e opts"
| "op_ok S (NAppend _ eid e) =
     (e \<in> su_entries S \<and> e \<in> su_direct S \<and> eid = Entry_Hash (su_hash S) e)"
| "op_ok S _ = True"

text \<open>What a step gives to the application.\<close>

fun given :: "node_op \<Rightarrow> ('a, 'd, 'c) Node \<Rightarrow> (bytes \<times> Entry) list" where
  "given (NTurn _) n = take 1 (queued n)"
| "given _ n = []"

text \<open>
  A run, with what the application was given and whether every step returned: a step that
  blocks leaves behind what it did until then.
\<close>

inductive node_run ::
  "('a, 'd, 'c) Env \<Rightarrow> ('a, 'd, 'c) Node \<Rightarrow> node_op list \<Rightarrow> (bytes \<times> Entry) list \<Rightarrow> bool \<Rightarrow>
   ('a, 'd, 'c) Node \<Rightarrow> bool"
  for E :: "('a, 'd, 'c) Env" and n0 :: "('a, 'd, 'c) Node" where
  start: "node_run E n0 [] [] True n0"
| return: "node_run E n0 ops hist fl n \<Longrightarrow> node_call E x n = Ret u n' \<Longrightarrow>
     node_run E n0 (ops @ [x]) (hist @ given x n) fl n'"
| block: "node_run E n0 ops hist fl n \<Longrightarrow> node_call E x n = Block n' \<Longrightarrow>
     node_run E n0 (ops @ [x]) hist False n'"

inductive_cases node_run_NilE: "node_run E n0 [] hist fl n"

lemma node_call_ok:
  fixes n :: "('a, 'd, 'c) Node"
  assumes I: "node_ok S fl hist n" and "op_ok S x"
  shows "case node_call E x n of Ret _ t \<Rightarrow> node_ok S fl (hist @ given x n) t | Panic _ \<Rightarrow> True
    | Block t \<Rightarrow> node_ok S False hist t"
proof -
  have drop: "ensures P (bind m (\<lambda>_. Ret ())) (\<lambda>_. Q) R" if "ensures P m (\<lambda>_. Q) R" for P m Q and R :: "('a, 'd, 'c) Node \<Rightarrow> bool"
    by (rule ensures_bind [OF that]) (rule ensures_return)
  have q: "ensures (node_ok S fl hist) (on_pch m) (\<lambda>_. node_ok S fl hist) (node_ok S False hist)"
    "ensures (node_ok S fl hist) (on_cch m) (\<lambda>_. node_ok S fl hist) (node_ok S False hist)"
    "ensures (node_ok S fl hist) (on_hch m) (\<lambda>_. node_ok S fl hist) (node_ok S False hist)"
    for m :: "(ReqResp chan, 'r) call"
    by (rule ensures_after; auto simp: after_on dest: inv_False)+
  show ?thesis
  proof (cases x)
    case (NPropose now e opts)
    show ?thesis unfolding NPropose given.simps node_call.simps append_Nil2
      by (rule ensuresD [OF drop [OF Propose_ensures] I]) (use assms(2) NPropose in simp)
  next
    case (NCommit now e opts)
    show ?thesis unfolding NCommit given.simps node_call.simps append_Nil2
      by (rule ensuresD [OF drop [OF Commit_ensures] I]) (use assms(2) NCommit in simp)
  next
    case (NHeal key opts)
    have h: "ensures (node_ok S fl hist) (hlog_Heal key opts) (\<lambda>_. node_ok S fl hist) (node_ok S False hist)"
      by (rule ensures_after) (auto simp: hlog_Heal_def after_on dest: inv_False split: option.split)
    show ?thesis unfolding NHeal given.simps node_call.simps append_Nil2
      by (rule ensuresD [OF drop [OF h] I])
  next
    case (NAppend now eid e)
    with assms hlog_append_ensures [OF I, of e eid now] show ?thesis
      by (cases "hlog_append now eid e n") simp_all
  next
    case (NClose now eid err)
    show ?thesis unfolding NClose given.simps node_call.simps append_Nil2
      by (rule ensuresD [OF ballotGetClose_ensures I])
  next
    case (NTimeout b)
    show ?thesis
    proof (cases "b_timer (h_bheap n b)")
      case (Timer_armed t)
      have "node_ok S fl hist (after (on_ballot b Ballot_timeout n))"
        using inv_ballot [OF I ballot_le_calls(4) [OF Timer_armed]] by (simp add: after_on)
      with NTimeout Timer_armed show ?thesis
        by (cases "on_ballot b Ballot_timeout n") (auto dest: inv_False)
    qed (use I inv_False NTimeout in simp_all)
  next
    case NReap
    show ?thesis
      using I reap_node [OF I] inv_False [OF I]
      by (auto simp: NReap reapBallots_turn_def bind_def zoom_def split: outcome.split dest: inv_False)
  next
    case (NTurn now)
    have ok: "fsm_ok n" using I node_invD(4) by (auto simp: node_ok_def)
    show ?thesis
    proof (cases "buf (applyCh n)")
      case Nil
      with ok have "fsm_step E now n = Block n"
        by (cases "applyCh n") (simp add: fsm_step_def on_defs bind_def zoom_def chan_recv_def fsm_ok_def)
      with NTurn inv_False [OF I] show ?thesis by simp
    next
      case (Cons r rs)
      then have "take 1 (queued n) = [hd (queued n)]" by (simp add: queued_def)
      with fsm_step_node [OF I Cons, of E now] NTurn show ?thesis by auto
    qed
  next
    case NTake_propose
    show ?thesis unfolding NTake_propose given.simps node_call.simps append_Nil2
      by (rule ensuresD [OF drop [OF q(1)] I])
  next
    case NTake_commit
    show ?thesis unfolding NTake_commit given.simps node_call.simps append_Nil2
      by (rule ensuresD [OF drop [OF q(2)] I])
  next
    case NTake_heal
    show ?thesis unfolding NTake_heal given.simps node_call.simps append_Nil2
      by (rule ensuresD [OF drop [OF q(3)] I])
  qed
qed

lemma node_run_ok:
  assumes "node_run E n0 ops hist fl n" and "node_ok S True [] n0"
  shows "list_all (op_ok S) ops \<Longrightarrow> node_ok S fl hist n"
  using assms(1)
proof induction
  case start
  then show ?case using assms(2) by simp
next
  case (return ops hist fl n x u n')
  then have "node_ok S fl hist n" "op_ok S x" by simp_all
  from node_call_ok [OF this, of E] return.hyps(2) show ?case by simp
next
  case (block ops hist fl n x n')
  then have "node_ok S fl hist n" "op_ok S x" by simp_all
  from node_call_ok [OF this, of E] block.hyps(2) show ?case by simp
qed

subsection \<open>A fresh node\<close>

text \<open>A node over empty stores starts without an error and in a good state.\<close>

definition fresh_node ::
  "('a, 'd, 'c) Env \<Rightarrow> int \<Rightarrow> 'c Config \<Rightarrow> 'a \<Rightarrow> ('a, 'd, 'c) Node" where
  "fresh_node E now conf app = after (NewHexalog E now conf app mem_empty zero_InMemStableStore)"

lemma empty_visits [simp]: "InMemIndexStore_visits (ls_index mem_empty) = []"
  by (simp add: mem_empty_def NewInMemIndexStore_def InMemIndexStore_visits_def sortedKeys_def)

lemma fresh_node_eq:
  "NewHexalog E now conf app mem_empty zero_InMemStableStore = Ret None (fresh_node E now conf app)"
  "fresh_node E now conf app =
    Increment E ((bare_node (conf\<lparr>hashSize := Size (Hasher conf)\<rparr>) app (\<lparr>ss_m = Some []\<rparr>) mem_empty)
      \<lparr>applyCh := make_chan 16, pch := make_chan (BroadcastBufSize conf),
       cch := make_chan (BroadcastBufSize conf), hch := make_chan (HealBufSize conf),
       shutdownCh := make_chan 4\<rparr>)"
  by (simp_all add: fresh_node_def NewHexalog_def newFsm_def InMemStableStore_Open_def fsm_check_def
      check_list_def bare_node_def zero_InMemStableStore_def Let_def bind_def)

lemma fresh_node_fields [simp]:
  "h_store (fresh_node E now conf app) = mem_empty" "h_ballots (fresh_node E now conf app) = []"
  "h_nballots (fresh_node E now conf app) = 0" "h_nfutures (fresh_node E now conf app) = 0"
  "applyCh (fresh_node E now conf app) = make_chan 16" "hasher (fresh_node E now conf app) = Hasher conf"
  "h_ss (fresh_node E now conf app) = \<lparr>ss_m = Some []\<rparr>"
  by (simp_all add: fresh_node_eq Increment_def bare_node_def)

lemma log_of_empty: "h_store n = mem_empty \<Longrightarrow> log_of n k = []"
  by (simp add: log_of_def)

lemma fresh_node_ok:
  assumes "good_hash (su_hash S) (su_entries S)" and "Hasher conf = su_hash S"
  shows "node_ok S True [] (fresh_node E now conf app)"
  using assms
  by (simp add: node_ok_def node_inv_def base_inv_def ballots_inv_def table_inv_def voted_inv_def
      hist_inv_def fsm_ok_def queued_def log_of_empty of_key_def mem_ss_ok_def inj_on_def)

text \<open>The setup of a run: what was appended without votes is what the run says.\<close>

definition direct :: "node_op list \<Rightarrow> Entry set" where
  "direct ops = {e. \<exists>now eid. NAppend now eid e \<in> set ops}"

definition run_setup :: "hash_fn \<Rightarrow> Entry set \<Rightarrow> (byte list \<Rightarrow> nat) \<Rightarrow> node_op list \<Rightarrow> Setup" where
  "run_setup H U npeers ops = \<lparr>su_hash = H, su_entries = U, su_size = npeers, su_direct = direct ops\<rparr>"

lemma run_setup_fields [simp]:
  "su_hash (run_setup H U npeers ops) = H" "su_entries (run_setup H U npeers ops) = U"
  "su_size (run_setup H U npeers ops) = npeers" "su_direct (run_setup H U npeers ops) = direct ops"
  by (simp_all add: run_setup_def)

text \<open>
  Requests of a run: their entries are in \<open>U\<close>, requests about one entry have as many peers,
  and what is appended directly comes with its id.
\<close>

fun well_formed :: "hash_fn \<Rightarrow> Entry set \<Rightarrow> (byte list \<Rightarrow> nat) \<Rightarrow> node_op \<Rightarrow> bool" where
  "well_formed H U npeers (NPropose _ e opts) = (e \<in> U \<and> length (peers opts) = npeers (els (Entry_Hash H e)))"
| "well_formed H U npeers (NCommit _ e opts) = (e \<in> U \<and> length (peers opts) = npeers (els (Entry_Hash H e)))"
| "well_formed H U npeers (NAppend _ eid e) = (e \<in> U \<and> eid = Entry_Hash H e)"
| "well_formed H U npeers _ = True"

lemma well_formed_op_ok:
  assumes "list_all (well_formed H U npeers) ops"
  shows "list_all (op_ok (run_setup H U npeers ops)) ops"
proof -
  have "op_ok (run_setup H U npeers ops) x" if "x \<in> set ops" "well_formed H U npeers x" for x
    by (cases x; insert that) (auto simp: request_ok_def direct_def)
  with assms show ?thesis by (simp add: list_all_iff)
qed

lemma fresh_run_ok:
  assumes "good_hash (Hasher conf) U" and "list_all (well_formed (Hasher conf) U npeers) ops"
    and "node_run E (fresh_node E now conf app) ops hist fl n"
  shows "node_ok (run_setup (Hasher conf) U npeers ops) fl hist n"
  by (rule node_run_ok [OF assms(3) fresh_node_ok well_formed_op_ok [OF assms(2)]]) (simp_all add: assms(1))

subsection \<open>What holds along every run\<close>

text \<open>
  C1: When all requests that name one entry come with the same number of peers, no entry gets
  into the log of a node without the votes of all. Whatever else a fresh node is asked, in any
  order, including calls left blocked half way and timeouts, every entry of its log was either
  appended directly by healing, or there is a ballot for it whose propose and commit slots, as
  many as the peers of its requests, are all filled with a voter. The code does not check the
  condition; without it an entry commits with empty slots, as the theory \<open>Node_Commits\<close> shows.
\<close>

theorem committed_unanimously:
  assumes "good_hash (Hasher conf) U" and "list_all (well_formed (Hasher conf) U npeers) ops"
    and "node_run E (fresh_node E now conf app) ops hist fl n" and "e \<in> set (log_of n k)"
  shows "(\<exists>now eid. NAppend now eid e \<in> set ops) \<or>
    (\<exists>b<h_nballots n. fe_Entry (h_futures n (fentry (h_bheap n b))) = e \<and>
       (let m = npeers (els (Entry_Hash (Hasher conf) e)); B = h_bheap n b
        in length (proposed B) = m \<and> length (committed B) = m \<and>
           [] \<notin> set (proposed B) \<and> [] \<notin> set (committed B)))"
proof -
  let ?S = "run_setup (Hasher conf) U npeers ops"
  have N: "node_inv ?S n" using fresh_run_ok [OF assms(1-3)] by (simp add: node_ok_def)
  then have "e \<in> direct ops \<or> elected n e" using assms(4) by (auto simp: node_inv_def voted_inv_def)
  moreover have "length (proposed (h_bheap n b)) = npeers (els (Entry_Hash (Hasher conf) e)) \<and>
      length (committed (h_bheap n b)) = npeers (els (Entry_Hash (Hasher conf) e))"
    if "b < h_nballots n" "fe_Entry (h_futures n (fentry (h_bheap n b))) = e" for b
    using ballot_invD(3,5) [OF node_invD(5) [OF N that(1)]] that(2) by (simp add: ballot_ok_def)
  ultimately show ?thesis unfolding direct_def elected_def full_def Let_def by blast
qed

text \<open>
  C4: The log of a node is a hash chain at every moment: after any run of a fresh node, also
  one with calls left half way, the entries of each log are of its key, the first has a zero
  previous hash, each later one the hash of the one before it, and \<open>Get\<close> finds every one of
  them under its hash.
\<close>

theorem node_log_chains:
  assumes "good_hash (Hasher conf) U" and "list_all (well_formed (Hasher conf) U npeers) ops"
    and "node_run E (fresh_node E now conf app) ops hist fl n" and "j < length (log_of n k)"
  shows "let es = log_of n k in
    els (Key (es ! j)) = k \<and>
    (if j = 0 then isZeroBytes (Previous (es ! j))
     else els (Previous (es ! j)) = els (Entry_Hash (Hasher conf) (es ! (j - 1)))) \<and>
    hlog_Get key (Entry_Hash (Hasher conf) (es ! j)) n = Inr (es ! j)"
proof -
  have N: "node_inv (run_setup (Hasher conf) U npeers ops) n"
    using fresh_run_ok [OF assms(1-3)] by (simp add: node_ok_def)
  obtain es where es: "mem_logs (h_store n) k = Some es" "log_of n k = es"
    using assms(4) by (auto simp: log_of_def split: option.splits)
  have n: "hasher n = Hasher conf" "mem_good (Hasher conf) U (h_store n)" "j < length es"
    using node_invD(1,3) [OF N] assms(4) es(2) by simp_all
  show ?thesis
    unfolding hlog_Get_def Let_def es(2) n(1) by (rule mem_good_chain [OF assms(1) n(2) es(1) n(3)])
qed

text \<open>
  C2: The application sees the log. As long as no call is left blocked half way, what the
  application was given, followed by what is queued for it, is for every key exactly the log
  of the key with the ids of its entries, in order: nothing is applied twice, skipped or
  reordered within a key.
\<close>

theorem application_sees_log:
  assumes "good_hash (Hasher conf) U" and "list_all (well_formed (Hasher conf) U npeers) ops"
    and "node_run E (fresh_node E now conf app) ops hist True n"
  shows "filter (\<lambda>(i, e). els (Key e) = k) (hist @ queued n) =
    map (\<lambda>e. (Entry_Hash (Hasher conf) e, e)) (log_of n k)"
  using fresh_run_ok [OF assms] by (simp add: node_ok_def hist_inv_def of_key_def)

subsection \<open>A run of a node with three peers\<close>

definition peer :: "string \<Rightarrow> Participant" where
  "peer h = \<lparr>part_ID = None, Host = h, Priority = 0, part_Index = 0\<rparr>"

definition from_peer :: "int \<Rightarrow> RequestOptions" where
  "from_peer i = zero_RequestOptions\<lparr>SourceIndex := i, PeerSet := Some [peer ''a'', peer ''b'', peer ''c'']\<rparr>"

fun node_calls :: "('a, 'd, 'c) Env \<Rightarrow> node_op list \<Rightarrow> (bytes \<times> Entry) list \<Rightarrow>
    (('a, 'd, 'c) Node, (bytes \<times> Entry) list) call" where
  "node_calls E [] hist = Ret hist"
| "node_calls E (x # xs) hist = (\<lambda>n. bind (node_call E x) (\<lambda>_. node_calls E xs (hist @ given x n)) n)"

lemma node_calls_run:
  "node_run E n0 pre hist fl n \<Longrightarrow> node_calls E ops hist n = Ret hist' n' \<Longrightarrow>
   node_run E n0 (pre @ ops) hist' fl n'"
proof (induction ops arbitrary: pre hist n)
  case (Cons x xs)
  then obtain u n1 where "node_call E x n = Ret u n1" "node_calls E xs (hist @ given x n) n1 = Ret hist' n'"
    by (auto simp: bind_eq_Ret_iff)
  with Cons.IH [OF node_run.return [OF Cons.prems(1)]] show ?case by fastforce
qed simp

definition demo_ops :: "node_op list" where
  "demo_ops = [NPropose 1 entry1 (from_peer 0), NPropose 2 entry1 (from_peer 1),
     NPropose 3 entry1 (from_peer 2), NCommit 4 entry1 (from_peer 1), NCommit 5 entry1 (from_peer 2), NTurn 6]"

definition demo_node :: "(bytes list, unit, 64 word) Node" where
  "demo_node = fresh_node demo_env 0 demo_conf []"

definition demo_end :: "(bytes list, unit, 64 word) Node" where
  "demo_end = after (node_calls demo_env demo_ops [] demo_node)"

lemma demo_calls: "node_calls demo_env demo_ops [] demo_node = Ret [(Some [1], entry1)] demo_end"
proof -
  have "returned (node_calls demo_env demo_ops [] demo_node) = Some [(Some [1], entry1)]" by code_simp
  then show ?thesis by (simp add: returned_eq_Some_iff demo_end_def)
qed

lemma demo_well_formed: "list_all (well_formed (Hasher demo_conf) {entry1, entry2} (\<lambda>_. 3)) demo_ops"
  by (simp add: demo_ops_def from_peer_def)

lemma demo_good: "good_hash (Hasher demo_conf) {entry1, entry2}"
  by (simp add: demo_conf_def DefaultConfig_def)

lemma demo_run: "node_run demo_env (fresh_node demo_env 0 demo_conf []) demo_ops [(Some [1], entry1)] True demo_end"
  using node_calls_run [OF node_run.start demo_calls [unfolded demo_node_def]] by simp

lemma demo_log: "log_of demo_end [7] = [entry1]"
  by code_simp

lemma demo_end_good:
  "hasher demo_end = last_byte" "mem_good last_byte {entry1, entry2} (h_store demo_end)"
proof -
  have H: "Hasher demo_conf = last_byte" by (simp add: demo_conf_def DefaultConfig_def)
  have N: "node_inv (run_setup last_byte {entry1, entry2} (\<lambda>_. 3) demo_ops) demo_end"
    using fresh_run_ok [OF demo_good demo_well_formed demo_run] by (simp add: node_ok_def H)
  from node_invD(1,3) [OF N]
  show "hasher demo_end = last_byte" "mem_good last_byte {entry1, entry2} (h_store demo_end)" by simp_all
qed

theorem committed_unanimously_witness:
  "\<exists>b<h_nballots demo_end. [] \<notin> set (committed (h_bheap demo_end b))"
  using committed_unanimously [OF demo_good demo_well_formed demo_run, of entry1 "[7]"]
  by (auto simp: demo_log demo_ops_def Let_def)

theorem node_log_chains_witness: "hlog_Get None (Some [1]) demo_end = Inr entry1"
  using node_log_chains [OF demo_good demo_well_formed demo_run, of 0 "[7]" None]
  by (simp add: demo_log demo_conf_def DefaultConfig_def Let_def)

theorem application_sees_log_witness: "filter (\<lambda>(i, e). els (Key e) = [7]) (queued demo_end) = []"
  using application_sees_log [OF demo_good demo_well_formed demo_run, of "[7]"]
  by (simp add: demo_log demo_conf_def DefaultConfig_def)

end
