(* ===== verification/Node_Commits.thy ===== *)
theory Node_Commits
  imports Node_Properties
begin

section \<open>When a node commits\<close>

text \<open>
  The other direction: the last vote of all peers appends the entry, closes the ballot and
  leads to the application. Which vote is the last is decided by the peer set of the request:
  one that names fewer peers than the ballot has slots commits early, and with a peer set of
  one the last vote is never recognised.
\<close>

subsection \<open>The last vote commits\<close>

lemma countVotes_one_missing:
  assumes "Suc (countVotes vs) = length vs" and "j < length vs" "vs ! j = []" and "i < length vs" "i \<noteq> j"
  shows "vs ! i \<noteq> []"
proof -
  have "countVotes (vs[j := ''v'']) = length (vs[j := ''v''])"
    using countVotes_update [OF assms(2,3), of "''v''"] assms(1) by simp
  then have "\<forall>v\<in>set (vs[j := ''v'']). v \<noteq> []" by (simp only: countVotes_full)
  moreover have "vs[j := ''v''] ! i \<in> set (vs[j := ''v''])" using assms(4) by (intro nth_mem) simp
  ultimately show ?thesis using assms(5) by simp
qed

text \<open>
  An entry with as many commits as proposals that follows the log is appended, queued and its
  ballot closed with no error, which is what its waiter gets. How many votes that are is not
  looked at here.
\<close>

lemma commit_success:
  assumes I: "node_ok S fl hist n" and b: "b < h_nballots n" and op: "\<not> b_closed (h_bheap n b)"
    and votes: "Ballot_Proposals (h_bheap n b) = Ballot_Commits (h_bheap n b)" "0 < Ballot_Proposals (h_bheap n b)"
    and e: "fe_Entry (h_futures n (fentry (h_bheap n b))) = e"
    and acc: "mem_logs (h_store n) (els (Key e)) = Some es" "accepts (su_hash S) es e"
    and room: "length (buf (applyCh n)) < cap (applyCh n)"
  shows "\<exists>n'. checkVotesAndCommit E now b n = Ret True n' \<and> log_of n' (els (Key e)) = es @ [e] \<and>
    queued n' = queued n @ [(Entry_Hash (su_hash S) e, e)] \<and>
    (\<exists>B. Ballot_Wait Arm_done (h_bheap n' b) = Ret None B) \<and> Ballot_Closed (h_bheap n' b) \<and>
    proposed (h_bheap n' b) = proposed (h_bheap n b) \<and> committed (h_bheap n' b) = committed (h_bheap n b)"
proof -
  define B where "B = h_bheap n b"
  define f where "f = fentry B"
  have N: "node_inv S n" using I by (simp add: node_ok_def)
  note D = ballot_invD [OF node_invD(5) [OF N b], folded B_def, folded f_def]
  have ef: "fe_Entry (h_futures n f) = e" using e by (simp add: f_def B_def)
  obtain s where app: "LogStore_AppendEntry (hlog_log n) e (h_store n) = (None, s)" "mem_logs s (els (Key e)) = Some (es @ [e])"
  proof -
    have "e \<in> su_entries S" using D(2) ef by simp
    from mem_AppendEntry(2) [OF node_invD(2,3) [OF N] this] acc
    have a: "fst (LogStore_AppendEntry (mem_log (su_hash S)) e (h_store n)) = None"
      "mem_logs (snd (LogStore_AppendEntry (mem_log (su_hash S)) e (h_store n))) =
        (mem_logs (h_store n))(els (Key e) \<mapsto> es @ [e])"
      by (simp_all add: spec_AppendEntry_def)
    show thesis
      by (rule that [of "snd (LogStore_AppendEntry (mem_log (su_hash S)) e (h_store n))"])
        (use a node_invD(1) [OF N] in \<open>simp_all add: prod_eq_iff\<close>)
  qed
  have ok: "ballot_ok (su_size S (els (fe_id (h_futures n f)))) B" "0 < su_size S (els (fe_id (h_futures n f)))"
    using D(4,5) by simp_all
  have timer: "b_timer B \<noteq> Timer_nil" using ok votes(2) by (simp add: ballot_ok_def Ballot_Proposals_def B_def)
  have chans: "has_room (b_done B)" "buf (b_done B) = []"
    using ok op by (auto simp: ballot_ok_def has_room_def B_def)
  have open1: "\<not> is_closed (applyCh n)" using node_invD(4) [OF N] by (simp add: fsm_ok_def)
  let ?n1 = "Witness E (LTime e) (n\<lparr>h_store := s\<rparr>)"
  let ?n2 = "?n1\<lparr>h_futures := (h_futures n)(f := FutureEntry_dispatch now (h_futures n f)),
      applyCh := (applyCh n)\<lparr>buf := buf (applyCh n) @ [f]\<rparr>\<rparr>"
  have n1: "h_futures ?n1 = h_futures n" "applyCh ?n1 = applyCh n" "h_bheap ?n1 = h_bheap n" by (simp_all add: Witness_def)
  have ap: "fsm_apply now f ?n1 = Ret () ?n2" using room open1 n1 by (simp add: fsm_apply_cases Let_def)
  let ?B = "B\<lparr>b_timer := (if b_timer B = Timer_fired then Timer_fired else Timer_stopped),
      b_closed := True, b_completed := now, b_err := None, b_done := (b_done B)\<lparr>buf := [()]\<rparr>\<rparr>"
  have cl: "Ballot_close now None B = Ret None ?B"
    using op timer chans by (simp add: Ballot_close_eq B_def Let_def)
  let ?n3 = "?n2\<lparr>h_bheap := (h_bheap n)(b := ?B)\<rparr>"
  have "checkVotesAndCommit E now b n = Ret True ?n3"
    using votes(1) app ap cl n1 by (simp add: checkVotesAndCommit_def Let_def on_ballot_def zoom_def bind_def ef e B_def f_def)
  moreover have "log_of ?n3 (els (Key e)) = es @ [e]" using app(2) by (simp add: log_of_def Witness_def)
  moreover have "queued ?n3 = queued n @ [(Entry_Hash (su_hash S) e, e)]"
    using D(3,6) op ef by (auto simp: queued_def B_def)
  moreover have "\<exists>X. Ballot_Wait Arm_done (h_bheap ?n3 b) = Ret None X" "Ballot_Closed (h_bheap ?n3 b)"
    "proposed (h_bheap ?n3 b) = proposed (h_bheap n b)" "committed (h_bheap ?n3 b) = committed (h_bheap n b)"
    by (simp_all add: zoom_def chan_recv_def bind_def Ballot_Closed_def B_def)
  ultimately show ?thesis by blast
qed

text \<open>The loop of the application empties its queue.\<close>

lemma turns_drain:
  assumes "fsm_ok n"
  shows "\<exists>n'. node_calls E (replicate (length (buf (applyCh n))) (NTurn now)) hist n = Ret (hist @ queued n) n' \<and>
    h_store n' = h_store n \<and> h_bheap n' = h_bheap n \<and> buf (applyCh n') = []"
  using assms
proof (induction "buf (applyCh n)" arbitrary: n hist)
  case Nil
  then show ?case by (simp add: queued_def Nil.hyps [symmetric])
next
  case (Cons r rs)
  obtain n1 where n1: "fsm_step E now n = Ret True n1" "fsm_ok n1" "buf (applyCh n1) = rs"
    "queued n1 = tl (queued n)" "h_store n1 = h_store n \<and> h_bheap n1 = h_bheap n"
    using fsm_step_effect [OF Cons.prems Cons.hyps(2) [symmetric], of E now] by metis
  have q: "queued n = hd (queued n) # tl (queued n)" using Cons.hyps(2) [symmetric] by (simp add: queued_def)
  then have g: "take 1 (queued n) = [hd (queued n)]" by (metis take_Suc_Cons take0 One_nat_def)
  from Cons.hyps(1) [OF n1(3) [symmetric] n1(2), of "hist @ take 1 (queued n)"]
  obtain n' where n': "node_calls E (replicate (length rs) (NTurn now)) (hist @ take 1 (queued n)) n1 =
      Ret ((hist @ take 1 (queued n)) @ queued n1) n'" "h_store n' = h_store n1" "h_bheap n' = h_bheap n1"
    "buf (applyCh n') = []"
    using n1(3) by auto
  have "(hist @ take 1 (queued n)) @ queued n1 = hist @ queued n" using q g n1(4) by simp
  with n' n1 show ?case
    by (simp add: Cons.hyps(2) [symmetric] bind_def)
qed

text \<open>
  C21: The loop of the application finishes what is queued. After every run of a fresh node, as
  many turns as the queue holds entries all return, hand every queued entry to the application
  in order and leave the queue empty; the log and the ballots are as before.
\<close>

theorem apply_queue_drains:
  assumes "good_hash (Hasher conf) U" and "list_all (well_formed (Hasher conf) U npeers) ops"
    and "node_run E (fresh_node E now0 conf app) ops hist fl n"
  shows "\<exists>n'. node_calls E (replicate (length (buf (applyCh n))) (NTurn now)) hist n = Ret (hist @ queued n) n' \<and>
    buf (applyCh n') = [] \<and> h_store n' = h_store n \<and> h_bheap n' = h_bheap n"
proof -
  have "fsm_ok n" using fresh_run_ok [OF assms] node_invD(4) by (auto simp: node_ok_def)
  from turns_drain [OF this] show ?thesis by blast
qed

text \<open>
  A commit vote that brings the commits to the length of the peer set of its request, where
  there are as many proposals, and the node itself has voted.
\<close>

lemma Commit_enough_votes:
  fixes n :: "('a, 'd, 'c) Node"
  assumes I: "node_ok S fl hist n"
    and opts: "checkOptions opts n = None" "getSelfIndex (peers opts) n = Some i"
    and tab: "map_of (h_ballots n) (els (Entry_Hash (su_hash S) e)) = Some b" and e: "fe_Entry (h_futures n (fentry (h_bheap n b))) = e"
    and op: "\<not> b_closed (h_bheap n b)"
    and len: "length (peers opts) \<le> length (committed (h_bheap n b))"
    and votes: "Ballot_Proposals (h_bheap n b) = length (peers opts)"
      "Suc (Ballot_Commits (h_bheap n b)) = length (peers opts)" "2 \<le> length (peers opts)"
    and self: "i = j \<or> committed (h_bheap n b) ! i \<noteq> []"
    and src: "SourceIndex opts = int j" "j < length (peers opts)" "committed (h_bheap n b) ! j = []" "Host (peers opts ! j) \<noteq> []"
    and acc: "mem_logs (h_store n) (els (Key e)) = Some es" "accepts (su_hash S) es e"
    and room: "length (buf (applyCh n)) < cap (applyCh n)"
  shows "\<exists>n'. Commit E now e opts n = Ret (Some b, None) n' \<and> log_of n' (els (Key e)) = es @ [e] \<and>
    queued n' = queued n @ [(Entry_Hash (su_hash S) e, e)] \<and>
    (\<exists>B. Ballot_Wait Arm_done (h_bheap n' b) = Ret None B) \<and> Ballot_Closed (h_bheap n' b) \<and>
    proposed (h_bheap n' b) = proposed (h_bheap n b) \<and>
    committed (h_bheap n' b) = (committed (h_bheap n b))[j := Host (peers opts ! j)]"
proof -
  let ?eid = "Entry_Hash (su_hash S) e" and ?B = "h_bheap n b"
  have N: "node_inv S n" using I by (simp add: node_ok_def)
  have H: "hasher n = su_hash S" using node_invD(1) [OF N] .
  have b: "b < h_nballots n" using node_invD(6) [OF N tab] by blast
  have id: "fe_id (h_futures n (fentry ?B)) = ?eid" using ballot_invD(3) [OF node_invD(5) [OF N b]] e by simp
  have i: "i < length (peers opts)" using self_from_bound [OF opts(2) [unfolded getSelfIndex_def]] by simp
  define m0 where "m0 = (if int i \<noteq> SourceIndex opts
    then Commit_vote E now ?eid i opts b (Host (peers opts ! i)) (int i) else Ret None)"
  have m0: "m0 n = Ret None n"
    using self op id len i src(1) by (auto simp: m0_def Commit_vote_def on_ballot_def zoom_def voteCommit_eq bind_def)
  let ?B1 = "?B\<lparr>committed := (committed ?B)[j := Host (peers opts ! j)]\<rparr>"
  let ?n1 = "n\<lparr>h_bheap := (h_bheap n)(b := ?B1)\<rparr>"
  have cnt: "countVotes ((committed ?B)[j := Host (peers opts ! j)]) = length (peers opts)"
    using countVotes_update [of j "committed ?B"] src len votes(2) by (simp add: Ballot_Commits_def)
  have vote: "on_ballot b (voteCommit (h_futures n) ?eid (Host (peers opts ! j)) (int j)) n =
      Ret (int (length (peers opts)), True, None) ?n1"
    using op id len src cnt by (simp add: on_ballot_def zoom_def voteCommit_eq Let_def)
  have I1: "node_ok S fl hist ?n1"
    using inv_ballot [OF I ballot_le_calls(2), of b "h_futures n" ?eid "Host (peers opts ! j)" "int j"]
      op id len src by (simp add: voteCommit_eq Let_def)
  have q1: "queued ?n1 = queued n" by (simp add: queued_def)
  have "\<exists>n'. checkVotesAndCommit E now b ?n1 = Ret True n' \<and> log_of n' (els (Key e)) = es @ [e] \<and>
    queued n' = queued ?n1 @ [(?eid, e)] \<and>
    (\<exists>B. Ballot_Wait Arm_done (h_bheap n' b) = Ret None B) \<and> Ballot_Closed (h_bheap n' b) \<and>
    proposed (h_bheap n' b) = proposed (h_bheap ?n1 b) \<and> committed (h_bheap n' b) = committed (h_bheap ?n1 b)"
    by (rule commit_success [OF I1])
      (use b op votes cnt e acc room in \<open>auto simp: Ballot_Proposals_def Ballot_Commits_def\<close>)
  then obtain n' where n': "checkVotesAndCommit E now b ?n1 = Ret True n'" "log_of n' (els (Key e)) = es @ [e]"
    "queued n' = queued n @ [(?eid, e)]" "\<exists>B. Ballot_Wait Arm_done (h_bheap n' b) = Ret None B"
    "Ballot_Closed (h_bheap n' b)" "proposed (h_bheap n' b) = proposed ?B"
    "committed (h_bheap n' b) = (committed ?B)[j := Host (peers opts ! j)]"
    using q1 by auto
  have src': "SourcePeer opts = Some (peers opts ! j)" using src by simp
  have cv: "Commit_vote E now ?eid i opts b (Host (peers opts ! j)) (SourceIndex opts) n = Ret None n'"
    using vote n'(1) votes(3) by (simp add: Commit_vote_def src(1) queueBroadcastOrCommit_def bind_def)
  have "Commit E now e opts n = Ret (Some b, None) n'"
    unfolding Commit_def opts option.case Let_def getBallot_def H tab m0_def [symmetric] bind_Ret [of m0, OF m0]
    using cv by (simp add: src' bind_def)
  with n' show ?thesis by blast
qed

lemma Commit_last_vote:
  fixes n :: "('a, 'd, 'c) Node"
  assumes I: "node_ok S fl hist n"
    and opts: "checkOptions opts n = None" "getSelfIndex (peers opts) n = Some i" "request_ok S e opts"
    and tab: "map_of (h_ballots n) (els (Entry_Hash (su_hash S) e)) = Some b" and e: "fe_Entry (h_futures n (fentry (h_bheap n b))) = e"
    and op: "\<not> b_closed (h_bheap n b)"
    and votes: "Ballot_Proposals (h_bheap n b) = length (peers opts)"
      "Suc (Ballot_Commits (h_bheap n b)) = length (peers opts)" "2 \<le> length (peers opts)"
    and src: "SourceIndex opts = int j" "j < length (peers opts)" "committed (h_bheap n b) ! j = []" "Host (peers opts ! j) \<noteq> []"
    and acc: "mem_logs (h_store n) (els (Key e)) = Some es" "accepts (su_hash S) es e"
    and room: "length (buf (applyCh n)) < cap (applyCh n)"
  shows "\<exists>n'. Commit E now e opts n = Ret (Some b, None) n' \<and> log_of n' (els (Key e)) = es @ [e] \<and>
    queued n' = queued n @ [(Entry_Hash (su_hash S) e, e)] \<and>
    (\<exists>B. Ballot_Wait Arm_done (h_bheap n' b) = Ret None B) \<and> Ballot_Closed (h_bheap n' b)"
proof -
  have N: "node_inv S n" using I by (simp add: node_ok_def)
  have b: "b < h_nballots n" using node_invD(6) [OF N tab] by blast
  note D = ballot_invD [OF node_invD(5) [OF N b]]
  have len: "length (committed (h_bheap n b)) = length (peers opts)"
    using D(3,5) e opts(3) by (simp add: ballot_ok_def request_ok_def)
  have i: "i < length (peers opts)" using self_from_bound [OF opts(2) [unfolded getSelfIndex_def]] by simp
  have "i = j \<or> committed (h_bheap n b) ! i \<noteq> []"
    using countVotes_one_missing [of "committed (h_bheap n b)" j i] votes(2) src(2,3) len i
    by (auto simp: Ballot_Commits_def)
  from Commit_enough_votes [OF I opts(1,2) tab e op eq_imp_le [OF len [symmetric]] votes this src acc room, of E now]
  show ?thesis by blast
qed

text \<open>
  C3: The last vote commits. When every peer has proposed an entry that follows the log and all
  but one have committed it, the commit of the missing peer returns without an error, with the
  entry at the end of the log and the ballot closed; as many turns of the application loop as
  there are entries in the queue then give everything queued, this entry last, to the
  application; and \<open>Wait\<close> on the ballot returns nil.
\<close>

theorem last_commit_is_applied:
  assumes "good_hash (Hasher conf) U" and "node_run E (fresh_node E now0 conf app) ops hist True n"
    and "list_all (well_formed (Hasher conf) U npeers) (ops @ [NCommit now e opts])"
    and "checkOptions opts n = None" and "getSelfIndex (peers opts) n \<noteq> None" and "2 \<le> length (peers opts)"
    and "getBallot (Entry_Hash (Hasher conf) e) n = Some b" and "\<not> Ballot_Closed (h_bheap n b)"
    and "fe_Entry (h_futures n (fentry (h_bheap n b))) = e"
    and "Ballot_Proposals (h_bheap n b) = length (peers opts)"
    and "Suc (Ballot_Commits (h_bheap n b)) = length (peers opts)"
    and "SourceIndex opts = int j" and "j < length (peers opts)" and "committed (h_bheap n b) ! j = []"
    and "Host (peers opts ! j) \<noteq> []"
    and "mem_logs (h_store n) (els (Key e)) = Some es" and "accepts (Hasher conf) es e"
    and "length (buf (applyCh n)) < cap (applyCh n)"
  shows "\<exists>n'. node_run E (fresh_node E now0 conf app)
      (ops @ NCommit now e opts # replicate (Suc (length (buf (applyCh n)))) (NTurn now'))
      (hist @ queued n @ [(Entry_Hash (Hasher conf) e, e)]) True n' \<and>
    log_of n' (els (Key e)) = es @ [e] \<and> Ballot_Closed (h_bheap n' b) \<and>
    (\<exists>B. Ballot_Wait Arm_done (h_bheap n' b) = Ret None B)"
proof -
  let ?S = "run_setup (Hasher conf) U npeers ops" and ?eid = "Entry_Hash (Hasher conf) e"
  have wf: "list_all (well_formed (Hasher conf) U npeers) ops" "well_formed (Hasher conf) U npeers (NCommit now e opts)"
    using assms(3) by simp_all
  have I: "node_ok ?S True hist n" by (rule fresh_run_ok [OF assms(1) wf(1) assms(2)])
  obtain i where i: "getSelfIndex (peers opts) n = Some i" using assms(5) by blast
  have "\<exists>n'. Commit E now e opts n = Ret (Some b, None) n' \<and> log_of n' (els (Key e)) = es @ [e] \<and>
    queued n' = queued n @ [(Entry_Hash (su_hash ?S) e, e)] \<and>
    (\<exists>B. Ballot_Wait Arm_done (h_bheap n' b) = Ret None B) \<and> Ballot_Closed (h_bheap n' b)"
    by (rule Commit_last_vote [OF I assms(4) i])
      (use assms wf(2) in \<open>simp_all add: request_ok_def getBallot_def Ballot_Closed_def\<close>)
  then obtain n1 where n1: "Commit E now e opts n = Ret (Some b, None) n1" "log_of n1 (els (Key e)) = es @ [e]"
    "queued n1 = queued n @ [(?eid, e)]" "\<exists>B. Ballot_Wait Arm_done (h_bheap n1 b) = Ret None B"
    "Ballot_Closed (h_bheap n1 b)"
    by auto
  have call: "node_call E (NCommit now e opts) n = Ret () n1" using n1(1) by (simp add: bind_def)
  have run1: "node_run E (fresh_node E now0 conf app) (ops @ [NCommit now e opts]) hist True n1"
    using node_run.return [OF assms(2) call] by simp
  have "fsm_ok n1"
    using fresh_run_ok [OF assms(1,3) run1] node_invD(4) by (auto simp: node_ok_def)
  from turns_drain [OF this, of E now' hist]
  obtain n' where n': "node_calls E (replicate (length (buf (applyCh n1))) (NTurn now')) hist n1 = Ret (hist @ queued n1) n'"
    "h_store n' = h_store n1" "h_bheap n' = h_bheap n1" by blast
  have "length (queued n1) = Suc (length (queued n))" using n1(3) by simp
  then have len: "length (buf (applyCh n1)) = Suc (length (buf (applyCh n)))" by (simp add: queued_def)
  from node_calls_run [OF run1 n'(1)] n1(3) len
  have "node_run E (fresh_node E now0 conf app)
      (ops @ NCommit now e opts # replicate (Suc (length (buf (applyCh n)))) (NTurn now'))
      (hist @ queued n @ [(?eid, e)]) True n'"
    by simp
  moreover have "log_of n' (els (Key e)) = es @ [e]" using n1(2) n'(2) by (simp add: log_of_def)
  ultimately show ?thesis using n1(4,5) n'(3) by auto
qed


text \<open>The run of three peers, up to the last vote.\<close>

definition demo_almost :: "(bytes list, unit, 64 word) Node" where
  "demo_almost = after (node_calls demo_env (take 4 demo_ops) [] demo_node)"

lemma demo_almost_calls: "node_calls demo_env (take 4 demo_ops) [] demo_node = Ret [] demo_almost"
proof -
  have "returned (node_calls demo_env (take 4 demo_ops) [] demo_node) = Some []" by code_simp
  then show ?thesis by (simp add: returned_eq_Some_iff demo_almost_def)
qed

lemma demo_almost_run: "node_run demo_env (fresh_node demo_env 0 demo_conf []) (take 4 demo_ops) [] True demo_almost"
  using node_calls_run [OF node_run.start demo_almost_calls [unfolded demo_node_def]] by simp

text \<open>The run up to the commit, with the entry still in the queue.\<close>

definition demo_queued :: "(bytes list, unit, 64 word) Node" where
  "demo_queued = after (node_calls demo_env (take 5 demo_ops) [] demo_node)"

lemma demo_queued_calls: "node_calls demo_env (take 5 demo_ops) [] demo_node = Ret [] demo_queued"
proof -
  have "returned (node_calls demo_env (take 5 demo_ops) [] demo_node) = Some []" by code_simp
  then show ?thesis by (simp add: returned_eq_Some_iff demo_queued_def)
qed

lemma demo_queued_run: "node_run demo_env (fresh_node demo_env 0 demo_conf []) (take 5 demo_ops) [] True demo_queued"
  using node_calls_run [OF node_run.start demo_queued_calls [unfolded demo_node_def]] by simp

theorem apply_queue_drains_witness:
  "\<exists>n'. node_calls demo_env (replicate 1 (NTurn 7)) [] demo_queued = Ret [(Some [1], entry1)] n' \<and> buf (applyCh n') = []"
proof -
  have wf: "list_all (well_formed (Hasher demo_conf) {entry1, entry2} (\<lambda>_. 3)) (take 5 demo_ops)"
    by (simp add: demo_ops_def from_peer_def)
  have q: "queued demo_queued = [(Some [1], entry1)]" by code_simp
  have "length (queued demo_queued) = 1" unfolding q by simp
  then have "length (buf (applyCh demo_queued)) = 1" by (simp add: queued_def)
  with apply_queue_drains [OF demo_good wf demo_queued_run, of 7] q show ?thesis by auto
qed

lemma demo_almost_state:
  "checkOptions (from_peer 2) demo_almost = None" "getSelfIndex (peers (from_peer 2)) demo_almost = Some 0"
  "getBallot (Some [1]) demo_almost = Some 0" "\<not> Ballot_Closed (h_bheap demo_almost 0)"
  "fe_Entry (h_futures demo_almost (fentry (h_bheap demo_almost 0))) = entry1"
  "Ballot_Proposals (h_bheap demo_almost 0) = 3" "Ballot_Commits (h_bheap demo_almost 0) = 2"
  "committed (h_bheap demo_almost 0) ! 2 = []" "buf (applyCh demo_almost) = []" "cap (applyCh demo_almost) = 16"
  "mem_logs (h_store demo_almost) [7] = Some []"
  by code_simp+

theorem last_commit_is_applied_witness:
  "\<exists>n' :: (bytes list, unit, 64 word) Node. log_of n' [7] = [entry1] \<and> Ballot_Closed (h_bheap n' 0)"
proof -
  have wf: "list_all (well_formed (Hasher demo_conf) {entry1, entry2} (\<lambda>_. 3)) (take 4 demo_ops @ [NCommit 5 entry1 (from_peer 2)])"
    by (simp add: demo_ops_def from_peer_def)
  have H: "Hasher demo_conf = last_byte" by (simp add: demo_conf_def DefaultConfig_def)
  have p: "length (peers (from_peer 2)) = 3" "SourceIndex (from_peer 2) = int 2" "Host (peers (from_peer 2) ! 2) \<noteq> []"
    by (simp_all add: from_peer_def zero_RequestOptions_def peer_def)
  show ?thesis
    using last_commit_is_applied [OF demo_good demo_almost_run wf, of 0 2 "[]" 0] demo_almost_state p
    by (auto simp: H accepts_def isZeroBytes_def)
qed

subsection \<open>A smaller peer set\<close>

text \<open>
  C40: The length that decides when an entry commits is that of the peer set of the request, not
  that of the ballot. When a ballot has slots for more peers, of which as many proposed and all
  but one of them committed as a commit request names peers, that request appends the entry,
  queues it for the application and closes the ballot without an error, though the ballot has
  propose and commit slots that nobody filled. That the log holds only entries voted by all
  needs the condition that all requests about an entry name as many peers; \<open>Commit\<close> does not check it.
\<close>

theorem smaller_peer_set_commits:
  assumes "good_hash (Hasher conf) U" and "node_run E (fresh_node E now0 conf app) ops hist True n"
    and "list_all (well_formed (Hasher conf) U npeers) ops"
    and "checkOptions opts n = None" and "getSelfIndex (peers opts) n = Some i"
    and "2 \<le> length (peers opts)" and "length (peers opts) < length (committed (h_bheap n b))"
    and "getBallot (Entry_Hash (Hasher conf) e) n = Some b" and "\<not> Ballot_Closed (h_bheap n b)"
    and "fe_Entry (h_futures n (fentry (h_bheap n b))) = e"
    and "Ballot_Proposals (h_bheap n b) = length (peers opts)"
    and "Suc (Ballot_Commits (h_bheap n b)) = length (peers opts)"
    and "i = j \<or> committed (h_bheap n b) ! i \<noteq> []"
    and "SourceIndex opts = int j" and "j < length (peers opts)" and "committed (h_bheap n b) ! j = []"
    and "Host (peers opts ! j) \<noteq> []"
    and "mem_logs (h_store n) (els (Key e)) = Some es" and "accepts (Hasher conf) es e"
    and "length (buf (applyCh n)) < cap (applyCh n)"
  shows "\<exists>n'. Commit E now e opts n = Ret (Some b, None) n' \<and> log_of n' (els (Key e)) = es @ [e] \<and>
    queued n' = queued n @ [(Entry_Hash (Hasher conf) e, e)] \<and>
    Ballot_Closed (h_bheap n' b) \<and> (\<exists>B. Ballot_Wait Arm_done (h_bheap n' b) = Ret None B) \<and>
    [] \<in> set (proposed (h_bheap n' b)) \<and> [] \<in> set (committed (h_bheap n' b))"
proof -
  let ?S = "run_setup (Hasher conf) U npeers ops" and ?B = "h_bheap n b"
  have I: "node_ok ?S True hist n" by (rule fresh_run_ok [OF assms(1,3,2)])
  then have N: "node_inv ?S n" by (simp add: node_ok_def)
  have tab: "map_of (h_ballots n) (els (Entry_Hash (Hasher conf) e)) = Some b" using assms(8) by (simp add: getBallot_def)
  have b: "b < h_nballots n" using node_invD(6) [OF N tab] by blast
  have same: "length (proposed ?B) = length (committed ?B)"
    using ballot_invD(5) [OF node_invD(5) [OF N b]] by (simp add: ballot_ok_def)
  have "\<exists>n'. Commit E now e opts n = Ret (Some b, None) n' \<and> log_of n' (els (Key e)) = es @ [e] \<and>
    queued n' = queued n @ [(Entry_Hash (su_hash ?S) e, e)] \<and>
    (\<exists>B. Ballot_Wait Arm_done (h_bheap n' b) = Ret None B) \<and> Ballot_Closed (h_bheap n' b) \<and>
    proposed (h_bheap n' b) = proposed ?B \<and> committed (h_bheap n' b) = (committed ?B)[j := Host (peers opts ! j)]"
    by (rule Commit_enough_votes [OF I assms(4,5)])
      (use assms tab in \<open>simp_all add: Ballot_Closed_def\<close>)
  moreover have "[] \<in> set (proposed ?B)"
    using countVotes_full [of "proposed ?B"] assms(7,11) same by (auto simp: Ballot_Proposals_def)
  moreover have "[] \<in> set ((committed ?B)[j := Host (peers opts ! j)])"
    using countVotes_full [of "(committed ?B)[j := Host (peers opts ! j)]"] assms(7,12,15-17)
      countVotes_update [of j "committed ?B" "Host (peers opts ! j)"] by (auto simp: Ballot_Commits_def)
  ultimately show ?thesis by auto
qed

text \<open>
  Four peers, of which a configuration asks for three votes: a, b and c propose, b commits, and
  the commit of c names a, b and c only.
\<close>

definition among :: "string list \<Rightarrow> int \<Rightarrow> RequestOptions" where
  "among hs i = zero_RequestOptions\<lparr>SourceIndex := i, PeerSet := Some (map peer hs)\<rparr>"

definition four_ops :: "node_op list" where
  "four_ops = (let four = among [''a'', ''b'', ''c'', ''d''] in
     [NPropose 1 entry1 (four 0), NPropose 2 entry1 (four 1), NPropose 3 entry1 (four 2), NCommit 4 entry1 (four 1)])"

definition four_node :: "(bytes list, unit, 64 word) Node" where
  "four_node = after (node_calls demo_env four_ops [] demo_node)"

lemma four_run: "node_run demo_env (fresh_node demo_env 0 demo_conf []) four_ops [] True four_node"
proof -
  have "returned (node_calls demo_env four_ops [] demo_node) = Some []" by code_simp
  then have "node_calls demo_env four_ops [] demo_node = Ret [] four_node"
    by (simp add: returned_eq_Some_iff four_node_def)
  from node_calls_run [OF node_run.start this [unfolded demo_node_def]] show ?thesis by simp
qed

lemma four_state:
  "checkOptions (among [''a'', ''b'', ''c''] 2) four_node = None"
  "getSelfIndex (peers (among [''a'', ''b'', ''c''] 2)) four_node = Some 0"
  "getBallot (Some [1]) four_node = Some 0" "\<not> Ballot_Closed (h_bheap four_node 0)"
  "fe_Entry (h_futures four_node (fentry (h_bheap four_node 0))) = entry1"
  "Ballot_Proposals (h_bheap four_node 0) = 3" "Ballot_Commits (h_bheap four_node 0) = 2"
  "committed (h_bheap four_node 0) = [''a'', ''b'', [], []]"
  "buf (applyCh four_node) = []" "cap (applyCh four_node) = 16"
  "mem_logs (h_store four_node) [7] = Some []"
  by code_simp+

theorem smaller_peer_set_commits_witness:
  "returned (Commit demo_env 5 entry1 (among [''a'', ''b'', ''c''] 2) four_node) = Some (Some 0, None) \<and>
   log_of (after (Commit demo_env 5 entry1 (among [''a'', ''b'', ''c''] 2) four_node)) [7] = [entry1] \<and>
   [] \<in> set (committed (h_bheap (after (Commit demo_env 5 entry1 (among [''a'', ''b'', ''c''] 2) four_node)) 0))"
proof -
  have wf: "list_all (well_formed (Hasher demo_conf) {entry1, entry2} (\<lambda>_. 4)) four_ops"
    by (simp add: four_ops_def among_def Let_def)
  have H: "Hasher demo_conf = last_byte" by (simp add: demo_conf_def DefaultConfig_def)
  have p: "length (peers (among [''a'', ''b'', ''c''] 2)) = 3" "SourceIndex (among [''a'', ''b'', ''c''] 2) = int 2"
    "Host (peers (among [''a'', ''b'', ''c''] 2) ! 2) \<noteq> []"
    by (simp_all add: among_def zero_RequestOptions_def peer_def)
  show ?thesis
    using smaller_peer_set_commits [OF demo_good four_run wf four_state(1,2), of 0 entry1 2 "[]" 5] four_state p
    by (auto simp: H accepts_def isZeroBytes_def)
qed

subsection \<open>A peer set of one\<close>

text \<open>A predicate that a call keeps, whatever its outcome.\<close>

definition keeps :: "('s \<Rightarrow> bool) \<Rightarrow> ('s, 'r) call \<Rightarrow> bool" where
  "keeps P m \<longleftrightarrow> (\<forall>n. P n \<longrightarrow> P (after (m n)))"

lemma keepsI: "(\<And>n. P n \<Longrightarrow> P (after (m n))) \<Longrightarrow> keeps P m"
  by (simp add: keeps_def)

lemma keepsD: "keeps P m \<Longrightarrow> P n \<Longrightarrow> P (after (m n))"
  by (simp add: keeps_def)

lemma keeps_bind_at: "P n \<Longrightarrow> keeps P m \<Longrightarrow> (\<And>a. keeps P (f a)) \<Longrightarrow> P (after (bind m f n))"
  by (cases "m n") (auto simp: keeps_def bind_def dest: spec [of _ n])

lemma keeps_bind: "keeps P m \<Longrightarrow> (\<And>a. keeps P (f a)) \<Longrightarrow> keeps P (bind m f)"
  by (simp add: keepsI keeps_bind_at)

lemma keeps_values [simp]: "keeps P (Ret a)" "keeps P Panic" "keeps P Block"
  by (simp_all add: keeps_def)

lemma keeps_if: "keeps P m \<Longrightarrow> keeps P m' \<Longrightarrow> keeps P (if c then m else m')"
  by simp

lemma keeps_option: "keeps P m \<Longrightarrow> (\<And>x. keeps P (f x)) \<Longrightarrow> keeps P (case r of None \<Rightarrow> m | Some x \<Rightarrow> f x)"
  by (cases r) simp_all

lemma keeps_prod: "(\<And>x y. keeps P (f x y)) \<Longrightarrow> keeps P (case r of (x, y) \<Rightarrow> f x y)"
  by (cases r) simp

lemmas keeps_intro = keeps_bind keeps_values keeps_if keeps_option keeps_prod

definition no_entries :: "hash_fn \<Rightarrow> ('a, 'd, 'c) Node \<Rightarrow> bool" where
  "no_entries H n \<longleftrightarrow> hasher n = H \<and> mem_good H {} (h_store n) \<and> (\<forall>k. log_of n k = [])"

lemma keeps_on:
  "keeps (no_entries H) (on_ballot b m1)" "keeps (no_entries H) (on_future f m2)"
  "keeps (no_entries H) (on_applyCh m3)" "keeps (no_entries H) (on_pch m4)"
  "keeps (no_entries H) (on_cch m5)" "keeps (no_entries H) (on_hch m6)" "keeps (no_entries H) (on_ss m7)"
  by (rule keepsI; simp add: after_on no_entries_def log_of_def)+

lemma no_entries_NewKey:
  assumes "no_entries H n"
  shows "no_entries H (n\<lparr>h_store := snd (LogStore_NewKey (hlog_log n) key (h_store n))\<rparr>)"
proof -
  have g: "hasher n = H" "mem_good H {} (h_store n)" "\<And>k. log_of n k = []"
    using assms by (auto simp: no_entries_def)
  note m = mem_NewKey [OF g(2), of key]
  have "log_of (n\<lparr>h_store := snd (LogStore_NewKey (mem_log H) key (h_store n))\<rparr>) k = log_of n k" for k
    using m(2) by (auto simp: log_of_def spec_NewKey_def split: if_splits dest!: sym [where t = "mem_logs x" for x])
  with g m(1) show ?thesis by (simp add: no_entries_def)
qed

lemma keeps_upsert: "keeps (no_entries H) (upsertKeyAndBroadcast ph e opts)"
proof (rule keepsI)
  fix n :: "('a, 'd, 'c) Node" assume a: "no_entries H n"
  have cl: "snd (Keylog_Close (hlog_log n) h s) = s" for h s
    by (simp add: Keylog_Close_def mem_keylog_index_def)
  have q: "no_entries H (x\<lparr>pch := c\<rparr>) = no_entries H x" for x :: "('a, 'd, 'c) Node" and c
    by (simp add: no_entries_def log_of_def)
  show "no_entries H (after (upsertKeyAndBroadcast ph e opts n))"
    using a no_entries_NewKey [OF a, of "Key e"]
    by (auto simp: upsertKeyAndBroadcast_def Let_def after_on cl q split: prod.splits sum.splits)
qed

lemma keeps_close: "keeps (no_entries H) (ballotGetClose now eid err)"
  by (rule keepsI) (auto simp: ballotGetClose_def after_on no_entries_def log_of_def split: option.split)

lemma keeps_self: "keeps (no_entries H) (Propose_self_vote E now e eid ph i opts b)"
  by (rule keepsI, unfold Propose_self_vote_def, erule keeps_bind_at)
    (intro keeps_intro keeps_on keeps_upsert)+

lemma keeps_source:
  fixes E :: "('a, 'd, 'c) Env"
  assumes "length (peers opts) = 1"
  shows "keeps (no_entries H) (Propose_source_vote E now e eid ph i opts b)"
proof (rule keepsI)
  fix n :: "('a, 'd, 'c) Node" assume a: "no_entries H n"
  have "keeps (no_entries H) (if pv = 1 then m1 else if pv = int (length (peers opts)) then m2 else m3)"
    if "keeps (no_entries H) m1" "keeps (no_entries H) m3" for pv :: int and m1 m2 m3 :: "(('a, 'd, 'c) Node, 'r) call"
    using that assms by simp
  note keeps_votes = this
  show "no_entries H (after (Propose_source_vote E now e eid ph i opts b n))"
  proof (cases "SourcePeer opts")
    case None
    with a show ?thesis by (simp add: Propose_source_vote_def)
  next
    case (Some p)
    show ?thesis unfolding Propose_source_vote_def Some option.case
      by (rule keeps_bind_at [of "no_entries H", OF a]) (intro keeps_on keeps_votes keeps_intro keeps_upsert)+
  qed
qed

lemma keeps_Propose:
  fixes E :: "('a, 'd, 'c) Env"
  assumes "length (peers opts) = 1"
  shows "keeps (no_entries H) (Propose E now e opts)"
proof (rule keepsI)
  fix n :: "('a, 'd, 'c) Node" assume a: "no_entries H n"
  have len: "length (peers (opts\<lparr>SourceIndex := i\<rparr>)) = 1" for i using assms by simp
  have tr: "no_entries H (snd (track_ballot eid e m n))" for eid m
    using a by (simp add: track_ballot_def new_future_def new_ballot_def no_entries_def log_of_def)
  have vt: "no_entries H (after (Propose_votes E now e eid ph i opts' n))" if "length (peers opts') = 1" for eid ph i opts'
  proof (cases "map_of (h_ballots n) (els eid)")
    case None
    obtain b n1 where t: "track_ballot eid e (length (peers opts')) n = (b, n1)" by (metis prod.collapse)
    then have a1: "no_entries H n1" using tr by (metis snd_conv)
    show ?thesis unfolding Propose_votes_def None Let_def option.case t prod.case
      by (rule keeps_bind_at [of "no_entries H", OF a1]) (intro keeps_intro keeps_self keeps_source that)+
  next
    case (Some b)
    show ?thesis unfolding Propose_votes_def Some Let_def option.case
      by (rule keeps_bind_at [of "no_entries H", OF a]) (intro keeps_intro keeps_source that)+
  qed
  have "keeps (no_entries H) (Propose_refused now e eid ph err opts')" for eid ph err opts'
    unfolding Propose_refused_def by (intro keeps_intro keeps_on keeps_close)
  then have rf: "no_entries H (after (Propose_refused now e eid ph err opts' n))" for eid ph err opts'
    using a by (rule keepsD)
  show "no_entries H (after (Propose E now e opts n))"
    using a vt [OF assms] vt [OF len] rf
    by (simp add: Propose_def Let_def split: option.split prod.split)
qed

lemma keeps_Commit_vote:
  fixes E :: "('a, 'd, 'c) Env"
  assumes "length (peers opts) = 1"
  shows "keeps (no_entries H) (Commit_vote E now eid i opts b v j)"
proof (rule keepsI)
  fix n :: "('a, 'd, 'c) Node" assume a: "no_entries H n"
  have q: "keeps (no_entries H) (queueBroadcastOrCommit E now c b (CloneWithSourceIndex opts k))" for c k
    using assms by (intro keepsI) (simp add: queueBroadcastOrCommit_def keepsD keeps_on Let_def)
  show "no_entries H (after (Commit_vote E now eid i opts b v j n))"
    unfolding Commit_vote_def
    by (rule keeps_bind_at [of "no_entries H", OF a]) (intro keeps_on keeps_intro q)+
qed

lemma keeps_Commit:
  fixes E :: "('a, 'd, 'c) Env"
  assumes "length (peers opts) = 1"
  shows "keeps (no_entries H) (Commit E now e opts)"
proof (rule keepsI)
  fix n :: "('a, 'd, 'c) Node" assume a: "no_entries H n"
  note v = keeps_Commit_vote [OF assms]
  have "no_entries H (after (bind (if c then Commit_vote E now eid i opts b vo j else Ret None)
      (\<lambda>err. if err \<noteq> None then Ret (Some b, err)
         else (case SourcePeer opts of None \<Rightarrow> Panic
            | Some sloc \<Rightarrow> bind (Commit_vote E now eid i opts b (Host sloc) k) (\<lambda>err. Ret (Some b, err)))) n))"
    for c eid i b vo j k
    by (rule keeps_bind_at [of "no_entries H", OF a]) (intro keeps_intro v)+
  with a show "no_entries H (after (Commit E now e opts n))"
    by (simp add: Commit_def Let_def split: option.split)
qed

lemma keeps_turn:
  fixes E :: "('a, 'd, 'c) Env"
  shows "keeps (no_entries H) (fsm_step E now)"
proof -
  have w: "no_entries H (Witness E t n) = no_entries H n" "no_entries H (n\<lparr>h_app := x\<rparr>) = no_entries H n"
    for t x and n :: "('a, 'd, 'c) Node"
    by (simp_all add: no_entries_def log_of_def Witness_def)
  have body: "keeps (no_entries H) (\<lambda>n.
           let fe = h_futures n r;
               entry = fe_Entry fe;
               (resp, app) = app_Apply E (fe_id fe) entry (h_app n);
               n = n\<lparr>h_app := app\<rparr>;
               (data, e1) = (case resp of
                   None \<Rightarrow> (no_data E, None)
                 | Some (Inl e) \<Rightarrow> (no_data E, Some e)
                 | Some (Inr d) \<Rightarrow> (d, None));
               n = Witness E (LTime entry) n
           in bind (on_ss (InMemStableStore_Set (Key entry) (fe_id fe))) (\<lambda>e2.
                bind (on_future r (FutureEntry_applied now data (mergeErrors e1 e2))) (\<lambda>_. Ret True)) n)" for r
  proof (rule keepsI, unfold Let_def case_prod_beta, rule keeps_bind_at [of "no_entries H"])
    fix n :: "('a, 'd, 'c) Node" assume "no_entries H n"
    then show "no_entries H (Witness E t (n\<lparr>h_app := x\<rparr>))" for t x by (simp add: w)
  qed (intro keeps_intro keeps_on)+
  show ?thesis
    unfolding fsm_step_def by (intro keeps_bind keeps_on keeps_option keeps_values body)
qed


fun alone :: "node_op \<Rightarrow> bool" where
  "alone (NPropose _ e opts) = (length (peers opts) = 1)"
| "alone (NCommit _ e opts) = (length (peers opts) = 1)"
| "alone (NAppend _ _ _) = False"
| "alone _ = True"

lemma keeps_node_call:
  fixes E :: "('a, 'd, 'c) Env"
  assumes "alone x"
  shows "keeps (no_entries H) (node_call E x)"
proof (cases x)
  case (NHeal key opts)
  have "keeps (no_entries H) (hlog_Heal key opts :: (('a, 'd, 'c) Node, error option) call)"
  proof (rule keepsI)
    fix n :: "('a, 'd, 'c) Node" assume a: "no_entries H n"
    show "no_entries H (after (hlog_Heal key opts n))"
      using a keepsD [OF keeps_on(6) a]
      by (cases "checkOptions opts n") (simp_all add: hlog_Heal_def)
  qed
  with NHeal show ?thesis by (simp add: keeps_bind)
next
  case (NTimeout b)
  show ?thesis
    unfolding NTimeout node_call.simps
    by (rule keepsI) (auto split: timer.split intro: keepsD [OF keeps_on(1)])
next
  case NReap
  have "keeps (no_entries H) (reapBallots_turn :: (('a, 'd, 'c) Node, bool) call)"
    by (rule keepsI) (auto simp: reapBallots_turn_def reapBallotsOnce_def no_entries_def log_of_def after_zoom)
  with NReap show ?thesis by (simp add: keeps_bind)
qed (use assms in \<open>simp_all add: keeps_bind keeps_Propose keeps_Commit keeps_close keeps_turn keeps_on\<close>)

text \<open>
  C20: A peer set of one never commits. If every request a node gets names a single peer, which
  a configuration with one required vote accepts, then nothing is ever appended to a log of the
  node: the first commit vote is also the last, but at a count of one \<open>queueBroadcastOrCommit\<close>
  only broadcasts, and \<open>Propose\<close> likewise. The ballot can only time out.
\<close>

theorem single_peer_never_commits:
  assumes "node_run E (fresh_node E now conf app) ops hist fl n" and "list_all alone ops"
  shows "log_of n k = []"
proof -
  have "no_entries (Hasher conf) n"
    using assms
  proof induction
    case start
    show ?case by (simp add: no_entries_def log_of_empty)
  next
    case (return ops hist fl n x u n')
    from return keepsD [OF keeps_node_call [of x "Hasher conf" E] return.IH] show ?case by simp
  next
    case (block ops hist fl n x n')
    from block keepsD [OF keeps_node_call [of x "Hasher conf" E] block.IH] show ?case by simp
  qed
  then show ?thesis by (simp add: no_entries_def)
qed

definition only_self :: RequestOptions where
  "only_self = zero_RequestOptions\<lparr>PeerSet := Some [peer ''a'']\<rparr>"

definition alone_ops :: "node_op list" where
  "alone_ops = [NPropose 1 entry1 only_self, NCommit 2 entry1 only_self]"

definition alone_end :: "(bytes list, unit, 64 word) Node" where
  "alone_end = after (node_calls demo_env alone_ops [] (fresh_node demo_env 0 (demo_conf\<lparr>Votes := 1\<rparr>) []))"

lemma alone_run: "node_run demo_env (fresh_node demo_env 0 (demo_conf\<lparr>Votes := 1\<rparr>) []) alone_ops [] True alone_end"
proof -
  have "returned (node_calls demo_env alone_ops [] (fresh_node demo_env 0 (demo_conf\<lparr>Votes := 1\<rparr>) [])) = Some []"
    by code_simp
  then have "node_calls demo_env alone_ops [] (fresh_node demo_env 0 (demo_conf\<lparr>Votes := 1\<rparr>) []) = Ret [] alone_end"
    by (simp add: returned_eq_Some_iff alone_end_def)
  from node_calls_run [OF node_run.start this] show ?thesis by simp
qed

theorem single_peer_never_commits_witness:
  "log_of alone_end [7] = [] \<and> Ballot_Commits (h_bheap alone_end 0) = 1 \<and> \<not> Ballot_Closed (h_bheap alone_end 0)"
proof -
  have "Ballot_Commits (h_bheap alone_end 0) = 1" "\<not> Ballot_Closed (h_bheap alone_end 0)" by code_simp+
  with single_peer_never_commits [OF alone_run] show ?thesis
    by (simp add: alone_ops_def only_self_def)
qed

end
