(* ===== verification/Node_Requests.thy ===== *)
theory Node_Requests
  imports Node_Commits
begin

section \<open>Single requests to a node\<close>

text \<open>
  What one call does outside the good case: refusals, the check before a vote, the panics a
  request can cause, the vote a client casts by leaving its source index unset, and reaping.
\<close>

subsection \<open>Requests that are refused\<close>

text \<open>
  A commit that returns no ballot changed nothing: it is refused for too few peers, because
  the node is not among them or because it has no ballot for the entry, and log, ballots,
  queues and clock are as before.
\<close>

theorem Commit_refused_unchanged:
  assumes "Commit E now e opts n = Ret (None, r) n'"
  shows "n' = n \<and> (r = Some ErrInsufficientPeers \<and> (PeerSet opts = None \<or> int (length (peers opts)) < Votes (h_conf n)) \<or>
    r = Some (Errorf_not_in_peer_set (AdvertiseHost (h_conf n))) \<and> getSelfIndex (peers opts) n = None \<or>
    r = Some errBallotNotFound \<and> getBallot (Entry_Hash (hasher n) e) n = None)"
  using assms
  by (auto simp: Commit_def checkOptions_def Let_def bind_eq_Ret_iff split: if_splits option.splits)

theorem Commit_refused_unchanged_witness:
  "Commit demo_env 0 entry1 (from_peer 1) demo_node = Ret (None, Some errBallotNotFound) demo_node"
proof -
  have "returned (Commit demo_env 0 entry1 (from_peer 1) demo_node) = Some (None, Some errBallotNotFound)"
    by code_simp
  then have c: "Commit demo_env 0 entry1 (from_peer 1) demo_node =
      Ret (None, Some errBallotNotFound) (after (Commit demo_env 0 entry1 (from_peer 1) demo_node))"
    by (simp only: returned_eq_Some_iff)
  from Commit_refused_unchanged [OF c] c show ?thesis by simp
qed

subsection \<open>Checking an entry before the vote\<close>

lemma verifyEntry_eq:
  fixes n :: "('a, 'd, 'c) Node"
  assumes "mem_good (hasher n) U (h_store n)" and "hash_fn_ok (hasher n)"
    and "snd (verifyEntry e n) \<noteq> Some ErrKeyDegraded"
  shows "verifyEntry e n =
    (case mem_logs (h_store n) (els (Key e)) of
       None \<Rightarrow> (0, if els (Previous e) = replicate (hashSize (h_conf n)) 0 then None else Some ErrPreviousHash)
     | Some es \<Rightarrow>
         if es = [] then (0, if els (Previous e) = replicate (hashSize (h_conf n)) 0 then None else Some ErrPreviousHash)
         else (Height (last es), if els (Previous e) = els (Entry_Hash (hasher n) (last es)) then None else Some ErrPreviousHash))"
proof -
  note L = mem_LastEntry [OF assms(1,2), of "Key e"]
  have G: "IS_GetKey mem_index (Key e) (ls_index (h_store n)) =
      (case mem_lookup (ls_index (h_store n)) (els (Key e)) of Some v \<Rightarrow> Inr v | None \<Rightarrow> Inl ErrKeyNotFound)"
    by (simp add: mem_index_ops InMemIndexStore_GetKey_def)
  show ?thesis
    using assms(3)
    by (auto simp: verifyEntry_def L G Let_def make_bytes_def split: option.splits if_splits)
qed

text \<open>
  C19: What is voted for can be appended. For a key that is not marked as degraded,
  \<open>verifyEntry\<close> accepts an entry exactly when \<open>NewKey\<close> and \<open>AppendEntry\<close> would put it into
  the log as it is now, except that the zero previous hash of a first entry must have
  the size of a hash, where the append takes zeros of any length. The height of the entry is
  not looked at by either.
\<close>

theorem verifyEntry_iff_appendable:
  fixes n :: "('a, 'd, 'c) Node"
  assumes "good_hash (hasher n) U" and "mem_good (hasher n) U (h_store n)" and "e \<in> U"
    and "hashSize (h_conf n) = Size (hasher n)" and "snd (verifyEntry e n) \<noteq> Some ErrKeyDegraded"
  shows "snd (verifyEntry e n) = None \<longleftrightarrow>
    fst (LogStore_AppendEntry (hlog_log n) e (snd (LogStore_NewKey (hlog_log n) (Key e) (h_store n)))) = None \<and>
    (log_of n (els (Key e)) = [] \<longrightarrow> length (els (Previous e)) = hashSize (h_conf n))"
proof -
  let ?H = "hasher n" and ?s = "h_store n" and ?k = "els (Key e)"
  note nk = mem_NewKey [OF assms(2), of "Key e"]
  let ?s1 = "snd (LogStore_NewKey (mem_log ?H) (Key e) ?s)"
  have ap: "spec_AppendEntry ?H e (mem_logs ?s1) =
      (fst (LogStore_AppendEntry (mem_log ?H) e ?s1), mem_logs (snd (LogStore_AppendEntry (mem_log ?H) e ?s1)))"
    by (rule mem_AppendEntry(2) [OF assms(1) nk(1) assms(3)])
  have s1: "mem_logs ?s1 ?k = Some (log_of n ?k)"
    using nk(2) by (auto simp: log_of_def spec_NewKey_def split: if_splits option.splits dest!: sym [where t = "mem_logs x" for x])
  have app: "fst (LogStore_AppendEntry (mem_log ?H) e ?s1) = None \<longleftrightarrow> accepts ?H (log_of n ?k) e"
    using arg_cong [OF ap, of fst, symmetric] s1 by (simp add: spec_AppendEntry_def)
  have z: "els p = replicate m 0 \<longleftrightarrow> isZeroBytes p \<and> length (els p) = m" for p m
    by (auto simp: isZeroBytes_def list_all_iff isZeroList_iff replicate_eqI)
  show ?thesis
    unfolding app accepts_def
    using verifyEntry_eq [OF assms(2) good_hash_ok [OF assms(1)] assms(5)] z [of "Previous e" "hashSize (h_conf n)"]
    by (auto simp: log_of_def split: option.splits if_splits)
qed


theorem verifyEntry_iff_appendable_witness:
  "snd (verifyEntry entry1 demo_node) = None \<and> snd (verifyEntry entry2 demo_node) \<noteq> None"
proof -
  have v: "snd (verifyEntry entry2 demo_node) = Some ErrPreviousHash" "snd (verifyEntry entry1 demo_node) = None"
    "fst (LogStore_AppendEntry (hlog_log demo_node) entry1 (snd (LogStore_NewKey (hlog_log demo_node) (Key entry1) (h_store demo_node)))) = None"
    "hashSize (h_conf demo_node) = Size (hasher demo_node)"
    by code_simp+
  have st: "h_store demo_node = mem_empty" "hasher demo_node = last_byte" "log_of demo_node k = []" for k
    by (simp_all add: demo_node_def log_of_empty demo_conf_def DefaultConfig_def)
  have "good_hash (hasher demo_node) {entry1, entry2}" "mem_good (hasher demo_node) {entry1, entry2} (h_store demo_node)"
    by (simp_all add: st)
  from verifyEntry_iff_appendable [OF this _ v(4), of entry1] v show ?thesis
    by simp
qed

subsection \<open>Requests that panic\<close>

text \<open>
  C26: A request with a source index outside its peer set panics. On a node that has a ballot
  for the entry, in which its own votes are cast, both \<open>Propose\<close> and \<open>Commit\<close> run into the
  index out of range of \<open>SourcePeer\<close>. Both handlers of the transport pass the options of a
  remote request on as they come, so any peer can end the process.
\<close>

theorem bad_source_panics:
  assumes "checkOptions opts n = None" and "getSelfIndex (peers opts) n = Some i"
    and "int (length (peers opts)) \<le> SourceIndex opts"
    and "getBallot (Entry_Hash (hasher n) e) n = Some b" and "snd (verifyEntry e n) = None"
    and "fe_id (h_futures n (fentry (h_bheap n b))) = Entry_Hash (hasher n) e"
    and "\<not> Ballot_Closed (h_bheap n b)" and "length (committed (h_bheap n b)) = length (peers opts)"
    and "committed (h_bheap n b) ! i \<noteq> []"
  shows "panics (Propose E now e opts n) \<and> panics (Commit E now e opts n)"
proof -
  have src: "SourcePeer opts = None" using assms(3) by (simp add: SourcePeer_def)
  have i: "i < length (peers opts)" using self_from_bound [OF assms(2) [unfolded getSelfIndex_def]] by simp
  obtain ph where v: "verifyEntry e n = (ph, None)" using assms(5) by (metis prod.collapse)
  have tab: "map_of (h_ballots n) (els (Entry_Hash (hasher n) e)) = Some b" using assms(4) by (simp add: getBallot_def)
  have "Propose E now e opts n = Panic n"
    using assms(1-3) v tab src by (simp add: Propose_def Let_def Propose_votes_def Propose_source_vote_def bind_def)
  moreover have "Commit_vote E now (Entry_Hash (hasher n) e) i opts b (Host (peers opts ! i)) (int i) n = Ret None n"
    using assms(6-9) i by (simp add: Commit_vote_def on_ballot_def zoom_def voteCommit_eq bind_def Ballot_Closed_def)
  then have "Commit E now e opts n = Panic n"
    using assms(1-4) i src by (simp add: Commit_def Let_def bind_def)
  ultimately show ?thesis by simp
qed

theorem bad_source_panics_witness:
  "panics (Propose demo_env 0 entry1 (from_peer 3) demo_almost)"
proof -
  have a: "checkOptions (from_peer 3) demo_almost = None" "getSelfIndex (peers (from_peer 3)) demo_almost = Some 0"
    "int (length (peers (from_peer 3))) \<le> SourceIndex (from_peer 3)"
    "getBallot (Entry_Hash (hasher demo_almost) entry1) demo_almost = Some 0"
    "snd (verifyEntry entry1 demo_almost) = None"
    "fe_id (h_futures demo_almost (fentry (h_bheap demo_almost 0))) = Entry_Hash (hasher demo_almost) entry1"
    "\<not> Ballot_Closed (h_bheap demo_almost 0)"
    "length (committed (h_bheap demo_almost 0)) = length (peers (from_peer 3))"
    "committed (h_bheap demo_almost 0) ! 0 \<noteq> []"
    by code_simp+
  from bad_source_panics [OF a] show ?thesis by blast
qed

lemma mem_NewKey_error:
  "LogStore_NewKey (mem_log H) key s = (Inl err, s') \<Longrightarrow> err = ErrKeyExists"
  by (auto simp: LogStore_NewKey_def mem_index_ops InMemIndexStore_NewKey_def Let_def split: option.splits prod.splits sum.splits)

text \<open>
  C27: A proposal after \<open>Shutdown\<close> panics. Once the queues are closed, the first proposal of an
  entry that is accepted is sent on the closed queue: \<open>Propose\<close> does not look at the
  shutdown flag.
\<close>

theorem propose_after_shutdown_panics:
  fixes n :: "('a, 'd, 'c) Node"
  assumes "Shutdown_signal n0 = Ret () n" and "checkOptions opts n = None"
    and "getSelfIndex (peers opts) n = Some i" and "SourceIndex opts = int i" and "Host (peers opts ! i) \<noteq> []"
    and "snd (verifyEntry e n) = None" and "getBallot (Entry_Hash (hasher n) e) n = None"
  shows "panics (Propose E now e opts n)"
proof -
  have closed: "is_closed (pch n)"
  proof -
    obtain m1 m2 where m: "on_pch chan_close (n0\<lparr>h_shutdown := True\<rparr>) = Ret () m1" "on_cch chan_close m1 = Ret () m2"
      "on_hch chan_close m2 = Ret () n"
      using assms(1) by (simp add: Shutdown_signal_def bind_eq_Ret_iff) blast
    from m(1) have "is_closed (pch m1)"
      by (auto simp: on_pch_def zoom_eq_Ret_iff chan_close_def split: if_splits)
    moreover have "pch m2 = pch m1" using m(2) by (auto simp: on_cch_def zoom_eq_Ret_iff)
    moreover have "pch n = pch m2" using m(3) by (auto simp: on_hch_def zoom_eq_Ret_iff)
    ultimately show ?thesis by simp
  qed
  have i: "i < length (peers opts)" using self_from_bound [OF assms(3) [unfolded getSelfIndex_def]] by simp
  obtain ph where v: "verifyEntry e n = (ph, None)" using assms(6) by (metis prod.collapse)
  let ?eid = "Entry_Hash (hasher n) e"
  have up: "panics (upsertKeyAndBroadcast ph e o1 m)" if "is_closed (pch m)" for o1 and m :: "('a, 'd, 'c) Node"
    using that mem_NewKey_error [of "hasher m" "Key e" "h_store m"]
    by (auto simp: upsertKeyAndBroadcast_def Let_def on_defs zoom_def chan_send_def bind_def split: prod.splits sum.splits)
  obtain b n1 where t: "track_ballot ?eid e (length (peers opts)) n = (b, n1)" by (metis prod.collapse)
  have n1: "pch n1 = pch n" "fe_id (h_futures n1 (fentry (h_bheap n1 b))) = ?eid"
    "h_bheap n1 b = newBallot (h_nfutures n) (length (peers opts)) (TTL (h_conf n))"
    using t by (auto simp: track_ballot_def new_future_def new_ballot_def newBallot_def)
  have src: "SourcePeer opts = Some (peers opts ! i)" using i assms(4) by simp
  have cnt: "countVotes ((replicate m [])[i := v]) = 1" if "i < m" "v \<noteq> []" for m and v :: string
    using countVotes_update [of i "replicate m []" v] that by simp
  have b1: "fe_id (h_futures n1 (h_nfutures n)) = ?eid" using n1(2,3) by (simp add: newBallot_def)
  obtain n2 where vote: "on_ballot b (votePropose (h_futures n1) now ?eid (Host (peers opts ! i)) (int i)) n1 = Ret (1, True, None) n2"
    "pch n2 = pch n"
    using n1 b1 i assms(5) cnt by (simp add: on_ballot_def zoom_def votePropose_eq newBallot_def Let_def setTTL_def)
  have "panics (upsertKeyAndBroadcast ph e (CloneWithSourceIndex opts (int i)) n2)"
    using closed vote(2) by (intro up) simp
  then obtain n3 where up2: "upsertKeyAndBroadcast ph e (CloneWithSourceIndex opts (int i)) n2 = Panic n3"
    by (cases "upsertKeyAndBroadcast ph e (CloneWithSourceIndex opts (int i)) n2") auto
  have "Propose_source_vote E now e ?eid ph i opts b n1 = Panic n3"
    using vote(1) up2 assms(4) by (simp add: Propose_source_vote_def src bind_def)
  then have "Propose_votes E now e ?eid ph i opts n = Panic n3"
    using assms(4,7) t by (simp add: Propose_votes_def getBallot_def bind_def)
  then show ?thesis using assms(2-4) v by (simp add: Propose_def Let_def)
qed

theorem propose_after_shutdown_panics_witness:
  "panics (Propose demo_env 0 entry1 (from_peer 0) (after (Shutdown_signal demo_node)))"
proof -
  let ?n = "after (Shutdown_signal demo_node)"
  have a: "returned (Shutdown_signal demo_node) = Some ()"
    "checkOptions (from_peer 0) ?n = None" "getSelfIndex (peers (from_peer 0)) ?n = Some 0"
    "SourceIndex (from_peer 0) = int 0" "Host (peers (from_peer 0) ! 0) \<noteq> []"
    "snd (verifyEntry entry1 ?n) = None" "getBallot (Entry_Hash (hasher ?n) entry1) ?n = None"
    by code_simp+
  from a(1) have s: "Shutdown_signal demo_node = Ret () ?n" by (simp only: returned_eq_Some_iff)
  from propose_after_shutdown_panics [OF s a(2-)] show ?thesis .
qed

lemma upsert_room:
  assumes "has_room (pch n)"
  shows "\<exists>n'. upsertKeyAndBroadcast ph e opts n = Ret None n' \<and> h_futures n' = h_futures n \<and> h_bheap n' = h_bheap n"
proof -
  obtain r s where nk: "LogStore_NewKey (hlog_log n) (Key e) (h_store n) = (r, s)" by (metis prod.collapse)
  show ?thesis
    using assms nk mem_NewKey_error [of "hasher n" "Key e" "h_store n"]
    by (cases r) (auto simp: upsertKeyAndBroadcast_def Let_def on_defs zoom_def bind_def)
qed

subsection \<open>The source index of a client\<close>

text \<open>
  C28: A client that leaves the source index of its options unset votes for the first peer. The
  default is zero, which \<open>Propose\<close> takes for the index of a peer and not for "not set": the
  proposal made on another node counts as a vote of that node and one of the first peer,
  who was not asked.
\<close>

theorem unset_source_votes_for_first_peer:
  fixes n :: "('a, 'd, 'c) Node"
  assumes "opts = DefaultRequestOptions\<lparr>PeerSet := Some ps\<rparr>" and "checkOptions opts n = None"
    and "getSelfIndex ps n = Some i" and "0 < i" and "Host (ps ! 0) \<noteq> []" and "Host (ps ! i) \<noteq> []"
    and "snd (verifyEntry e n) = None" and "getBallot (Entry_Hash (hasher n) e) n = None"
    and "has_room (pch n)"
  shows "\<exists>b n'. Propose E now e opts n = Ret (Some b, None, opts) n' \<and>
    proposed (h_bheap n' b) ! 0 = Host (ps ! 0) \<and> proposed (h_bheap n' b) ! i = Host (ps ! i) \<and>
    Ballot_Proposals (h_bheap n' b) = 2"
proof -
  have o1: "SourceIndex opts = 0" "peers opts = ps"
    by (simp_all add: assms(1) DefaultRequestOptions_def zero_RequestOptions_def)
  have i: "i < length ps" using self_from_bound [OF assms(3) [unfolded getSelfIndex_def]] by simp
  have src: "SourcePeer opts = Some (ps ! 0)" using i o1 by (auto simp: SourcePeer_def)
  obtain ph where v: "verifyEntry e n = (ph, None)" using assms(7) by (metis prod.collapse)
  let ?eid = "Entry_Hash (hasher n) e" and ?m = "length ps"
  obtain b n1 where t: "track_ballot ?eid e ?m n = (b, n1)" by (metis prod.collapse)
  have n1: "pch n1 = pch n" "fe_id (h_futures n1 (h_nfutures n)) = ?eid"
    "h_bheap n1 b = newBallot (h_nfutures n) ?m (TTL (h_conf n))"
    using t by (auto simp: track_ballot_def new_future_def new_ballot_def)
  let ?vs = "(replicate ?m [])[i := Host (ps ! i)]"
  have c1: "countVotes ?vs = 1"
    using countVotes_update [of i "replicate ?m []" "Host (ps ! i)"] i assms(6) by simp
  have nth0: "?vs ! 0 = []" using i assms(4) by (cases ps; cases i) simp_all
  have l0: "0 < length ?vs" using i by auto
  have c2: "countVotes (?vs[0 := Host (ps ! 0)]) = 2"
    using countVotes_update [OF l0 nth0 assms(5)] c1 by simp
  let ?B = "(setTTL now (h_bheap n1 b\<lparr>proposed := ?vs, b_dispatched := now\<rparr>))"
  let ?n2 = "n1\<lparr>h_bheap := (h_bheap n1)(b := ?B)\<rparr>"
  have vote: "on_ballot b (votePropose (h_futures n1) now ?eid (Host (ps ! i)) (int i)) n1 = Ret (1, True, None) ?n2"
    using n1 i c1 by (simp add: on_ballot_def zoom_def votePropose_eq newBallot_def Let_def setTTL_def)
  obtain n3 where up: "upsertKeyAndBroadcast ph e (CloneWithSourceIndex opts (int i)) ?n2 = Ret None n3"
    "h_futures n3 = h_futures n1" "h_bheap n3 = h_bheap ?n2"
    using upsert_room [of ?n2 ph e "CloneWithSourceIndex opts (int i)"] assms(9) n1(1) by auto
  let ?B2 = "?B\<lparr>proposed := ?vs[0 := Host (ps ! 0)]\<rparr>"
  define n4 where "n4 = n3\<lparr>h_bheap := (h_bheap n3)(b := ?B2)\<rparr>"
  have self: "Propose_self_vote E now e ?eid ph i opts b n1 = Ret None n3"
    using vote up(1) by (simp add: Propose_self_vote_def o1 bind_def)
  have vote2: "on_ballot b (votePropose (h_futures n3) now ?eid (Host (ps ! 0)) 0) n3 = Ret (2, True, None) n4"
    using up n1 i l0 nth0 c2 by (simp add: n4_def on_ballot_def zoom_def votePropose_eq newBallot_def Let_def setTTL_def)
  have cv: "checkVotesAndCommit E now b n4 = Ret False n4"
    using c2 by (simp add: n4_def checkVotesAndCommit_def Ballot_Proposals_def Ballot_Commits_def n1(3) newBallot_def setTTL_def)
  have "Propose_source_vote E now e ?eid ph i opts b n3 = Ret (Some b, None) n4"
    using vote2 cv by (simp add: Propose_source_vote_def src o1 bind_def)
  then have "Propose_votes E now e ?eid ph i opts n = Ret (Some b, None, opts) n4"
    using assms(4,8) t self by (simp add: Propose_votes_def getBallot_def bind_def o1)
  then have "Propose E now e opts n = Ret (Some b, None, opts) n4"
    using assms(2,3) v o1 by (simp add: Propose_def Let_def)
  moreover have "proposed (h_bheap n4 b) = ?vs[0 := Host (ps ! 0)]" by (simp add: n4_def)
  ultimately show ?thesis
    using c2 i l0 assms(4) by (intro exI [of _ b] exI [of _ n4]) (simp add: Ballot_Proposals_def)
qed


definition unset_opts :: RequestOptions where
  "unset_opts = DefaultRequestOptions\<lparr>PeerSet := Some [peer ''b'', peer ''a'', peer ''c'']\<rparr>"

theorem unset_source_votes_for_first_peer_witness:
  "\<exists>b n'. Propose demo_env 0 entry1 unset_opts demo_node = Ret (Some b, None, unset_opts) n' \<and>
    proposed (h_bheap n' b) ! 0 = ''b''"
proof -
  have a: "checkOptions unset_opts demo_node = None"
    "getSelfIndex [peer ''b'', peer ''a'', peer ''c''] demo_node = Some 1"
    "Host ([peer ''b'', peer ''a'', peer ''c''] ! 0) \<noteq> []" "Host ([peer ''b'', peer ''a'', peer ''c''] ! 1) \<noteq> []"
    "snd (verifyEntry entry1 demo_node) = None" "getBallot (Entry_Hash (hasher demo_node) entry1) demo_node = None"
    "has_room (pch demo_node)" "Host (peer ''b'') = ''b''"
    by code_simp+
  from unset_source_votes_for_first_peer [OF unset_opts_def a(1,2) _ a(3-7), of demo_env 0] a(8)
  show ?thesis by auto
qed

subsection \<open>Reaping\<close>

lemma map_of_filter_value:
  "map_ok m \<Longrightarrow> map_of (filter (\<lambda>(k, v). P v) m) k = (case map_of m k of None \<Rightarrow> None | Some v \<Rightarrow> if P v then Some v else None)"
  unfolding map_ok_def
proof (induction m)
  case (Cons kv m)
  obtain a b where kv: "kv = (a, b)" by (cases kv)
  have "map_of (filter (\<lambda>(k, v). P v) m) a = None"
    using Cons.prems kv by (force simp: map_of_eq_None_iff)
  with Cons show ?case by (auto simp: kv split: option.splits)
qed simp

text \<open>
  Reaping takes exactly the closed ballots out of the table. Every open ballot is found
  under its id as before, every closed one is gone, the count returned is the number of
  ballots removed, and reaping again removes nothing.
\<close>

theorem reap_removes_closed:
  assumes "map_ok (h_ballots n)" and "reapBallotsOnce n = (c, n')"
  shows "getBallot key n' = (case getBallot key n of
      None \<Rightarrow> None | Some b \<Rightarrow> if Ballot_Closed (h_bheap n b) then None else Some b) \<and>
    c + length (h_ballots n') = length (h_ballots n) \<and> fst (reapBallotsOnce n') = 0"
proof -
  have n': "n' = n\<lparr>h_ballots := filter (\<lambda>(k, b). \<not> Ballot_Closed (h_bheap n b)) (h_ballots n)\<rparr>"
    and c: "c = length (filter (\<lambda>(k, b). Ballot_Closed (h_bheap n b)) (h_ballots n))"
    using assms(2) by (simp_all add: reapBallotsOnce_def)
  have neg: "(\<lambda>(k :: byte list, b). \<not> Ballot_Closed (h_bheap n b)) = (\<lambda>x. \<not> (case x of (k, b) \<Rightarrow> Ballot_Closed (h_bheap n b)))"
    by (simp add: fun_eq_iff split: prod.split)
  have "getBallot key n' = (case getBallot key n of
      None \<Rightarrow> None | Some b \<Rightarrow> if Ballot_Closed (h_bheap n b) then None else Some b)"
    using map_of_filter_value [OF assms(1), of "\<lambda>b. \<not> Ballot_Closed (h_bheap n b)" "els key"]
    by (simp add: getBallot_def n' split: option.split)
  moreover have "c + length (h_ballots n') = length (h_ballots n)"
    unfolding c n' neg using sum_length_filter_compl [of _ "h_ballots n"] by simp
  moreover have "fst (reapBallotsOnce n') = 0"
    by (auto simp: reapBallotsOnce_def n' filter_empty_conv)
  ultimately show ?thesis by blast
qed

theorem reap_removes_closed_witness: "getBallot (Some [1]) (snd (reapBallotsOnce demo_end)) = None"
proof -
  have a: "getBallot (Some [1]) demo_end = Some 0" "Ballot_Closed (h_bheap demo_end 0)" by code_simp+
  have m: "map_ok (h_ballots demo_end)" using fresh_run_ok [OF demo_good demo_well_formed demo_run]
    by (simp add: node_ok_def node_inv_def table_inv_def)
  from reap_removes_closed [OF m prod.collapse [symmetric]] a show ?thesis by simp
qed

end
