(* ===== verification/Leader.thy ===== *)
theory Leader
  imports Node_Requests
begin

section \<open>The leader of a key (leader.go)\<close>

text \<open>
  The pseudo-leader of a key among a set of locations: the first one with the greatest height
  of its last entry. What the transport returns for the last entry of a remote host is the
  parameter \<open>remote\<close>. A method that indexes the last entries out of range or calls a method
  of a nil entry panics, which is \<open>None\<close>. The field \<open>key\<close> of the leader is never set by the
  code.
\<close>

record KeyLeader =
  kl_key :: bytes
  kl_idx :: int
  kl_locs :: "Participant list"
  kl_lasts :: "Entry option list"
  kl_hasher :: hash_fn

text \<open>The last entry of each location; an error of the transport counts as no entry.\<close>

definition last_entries ::
  "(string \<Rightarrow> bytes \<Rightarrow> error + Entry option) \<Rightarrow> bytes \<Rightarrow> Participant list \<Rightarrow> ('a, 'd, 'c) Node \<Rightarrow> Entry option list" where
  "last_entries remote key locs n =
     map (\<lambda>loc.
       if Host loc = AdvertiseHost (h_conf n) then LogStore_LastEntry (hlog_log n) key (h_store n)
       else case remote (Host loc) key of
              Inl _ \<Rightarrow> None
            | Inr entry \<Rightarrow> entry) locs"

text \<open>The loop over the last entries: index and height of the greatest, and the number of nils.\<close>

fun max_height :: "int \<Rightarrow> Entry option list \<Rightarrow> int \<times> 32 word \<times> int \<Rightarrow> int \<times> 32 word \<times> int" where
  "max_height i [] acc = acc"
| "max_height i (None # es) (maxIdx, mx, nils) = max_height (i + 1) es (maxIdx, mx, nils + 1)"
| "max_height i (Some e # es) (maxIdx, mx, nils) =
     (if Height e > mx then max_height (i + 1) es (i, Height e, nils)
      else max_height (i + 1) es (maxIdx, mx, nils))"

definition hlog_Leader ::
  "(string \<Rightarrow> bytes \<Rightarrow> error + Entry option) \<Rightarrow> bytes \<Rightarrow> Participant list \<Rightarrow> ('a, 'd, 'c) Node \<Rightarrow> error + KeyLeader" where
  "hlog_Leader remote key locs n =
     (let lasts = last_entries remote key locs n;
          (maxIdx, mx, nils) = max_height 0 lasts (-1, 0, 0);
          leader = (\<lambda>i. \<lparr>kl_key = None, kl_idx = i, kl_locs = locs, kl_lasts = lasts, kl_hasher = hasher n\<rparr>)
      in if nils = int (length locs) then Inr (leader 0)
         else if maxIdx < 0 then Inl Errorf_no_max_height
         else Inr (leader maxIdx))"

definition KeyLeader_Key :: "KeyLeader \<Rightarrow> bytes" where
  "KeyLeader_Key l = kl_key l"

text \<open>Indexing a slice: \<open>None\<close> is the panic.\<close>

definition at :: "'x list \<Rightarrow> int \<Rightarrow> 'x option" where
  "at xs i = (if 0 \<le> i \<and> i < int (length xs) then Some (xs ! nat i) else None)"

text \<open>The loop of \<open>IsConsistent\<close> from position \<open>i\<close>: the first location that differs.\<close>

fun first_inconsistent :: "KeyLeader \<Rightarrow> bytes \<Rightarrow> int \<Rightarrow> Entry option list \<Rightarrow> int option" where
  "first_inconsistent l lid i [] = None"
| "first_inconsistent l lid i (ent # es) =
     (if i = kl_idx l then first_inconsistent l lid (i + 1) es
      else (case ent of
              None \<Rightarrow> Some i
            | Some e \<Rightarrow>
                if bytes_Compare lid (Entry_Hash (kl_hasher l) e) \<noteq> 0 then Some i
                else first_inconsistent l lid (i + 1) es))"

definition KeyLeader_IsConsistent :: "KeyLeader \<Rightarrow> (bool \<times> Participant) option" where
  "KeyLeader_IsConsistent l =
     (case at (kl_lasts l) (kl_idx l) of
        None \<Rightarrow> None
      | Some None \<Rightarrow> None
      | Some (Some e) \<Rightarrow>
          (case first_inconsistent l (Entry_Hash (kl_hasher l) e) 0 (kl_lasts l) of
             Some i \<Rightarrow> map_option (Pair False) (at (kl_locs l) i)
           | None \<Rightarrow> map_option (Pair True) (at (kl_locs l) (kl_idx l))))"

definition KeyLeader_LocationSet :: "KeyLeader \<Rightarrow> Participant list" where
  "KeyLeader_LocationSet l = kl_locs l"

definition KeyLeader_Location :: "KeyLeader \<Rightarrow> Participant option" where
  "KeyLeader_Location l = at (kl_locs l) (kl_idx l)"

definition KeyLeader_LastEntry :: "KeyLeader \<Rightarrow> Entry option option" where
  "KeyLeader_LastEntry l = at (kl_lasts l) (kl_idx l)"

definition KeyLeader_Entries :: "KeyLeader \<Rightarrow> Entry option list" where
  "KeyLeader_Entries l = kl_lasts l"

definition KeyLeader_MarshalJSON :: "KeyLeader \<Rightarrow> json option" where
  "KeyLeader_MarshalJSON l =
     (case (KeyLeader_Location l, KeyLeader_LastEntry l) of
        (Some loc, Some e) \<Rightarrow>
          Some (JObject
            [(''Key'', JString (string_of_bytes (els (kl_key l)))),
             (''Leader'', Participant_MarshalJSON loc),
             (''Entry'', case e of None \<Rightarrow> JNull | Some e \<Rightarrow> Entry_MarshalJSON e)])
      | _ \<Rightarrow> None)"

subsection \<open>The choice of the leader\<close>

text \<open>
  What the loop knows after a prefix of the last entries: the greatest height so far, where it
  was first seen, and how many were nil.
\<close>

definition max_so_far :: "Entry option list \<Rightarrow> int \<times> 32 word \<times> int \<Rightarrow> bool" where
  "max_so_far es acc \<longleftrightarrow>
     (case acc of (maxIdx, mx, nils) \<Rightarrow>
        nils = int (length (filter (\<lambda>e. e = None) es)) \<and> (\<forall>e. Some e \<in> set es \<longrightarrow> Height e \<le> mx) \<and>
        (if maxIdx < 0 then maxIdx = -1 \<and> mx = 0
         else nat maxIdx < length es \<and>
           (\<exists>e. es ! nat maxIdx = Some e \<and> Height e = mx \<and> 0 < mx \<and>
              (\<forall>j e'. j < nat maxIdx \<longrightarrow> es ! j = Some e' \<longrightarrow> Height e' < mx))))"

lemma max_so_far_step:
  assumes "max_so_far es (maxIdx, mx, nils)" and "i = int (length es)"
  shows "max_so_far (es @ [None]) (maxIdx, mx, nils + 1)"
    and "Height e > mx \<Longrightarrow> max_so_far (es @ [Some e]) (i, Height e, nils)"
    and "\<not> Height e > mx \<Longrightarrow> max_so_far (es @ [Some e]) (maxIdx, mx, nils)"
proof -
  show "max_so_far (es @ [None]) (maxIdx, mx, nils + 1)"
    using assms(1) by (auto simp: max_so_far_def nth_append)
  show "max_so_far (es @ [Some e]) (maxIdx, mx, nils)" if "\<not> Height e > mx"
    using assms(1) that by (auto simp: max_so_far_def nth_append not_less)
  assume gt: "Height e > mx"
  have le: "Height e' \<le> mx" if "Some e' \<in> set es" for e'
    using assms(1) that by (auto simp: max_so_far_def)
  have "Height e' < Height e" if "j < length es" "es ! j = Some e'" for j e'
    using le [of e'] gt nth_mem [OF that(1)] that(2) by auto
  moreover have "Height e' \<le> Height e" if "Some e' \<in> set es" for e' using le [OF that] gt by simp
  moreover have "0 < Height e" using gt by (metis word_gt_0 word_zero_le order_le_less_trans less_irrefl)
  ultimately show "max_so_far (es @ [Some e]) (i, Height e, nils)"
    using assms by (auto simp: max_so_far_def nth_append)
qed

lemma max_height_correct:
  "max_so_far pre acc \<Longrightarrow> i = int (length pre) \<Longrightarrow> max_so_far (pre @ es) (max_height i es acc)"
proof (induction es arbitrary: pre acc i)
  case (Cons x es)
  obtain maxIdx mx nils where acc: "acc = (maxIdx, mx, nils)" by (cases acc)
  note st = max_so_far_step [OF Cons.prems(1) [unfolded acc] Cons.prems(2)]
  have i: "i + 1 = int (length (pre @ [y]))" for y :: "Entry option" using Cons.prems(2) by simp
  show ?case
  proof (cases x)
    case None
    from Cons.IH [OF st(1) i] show ?thesis by (simp add: acc None)
  next
    case (Some e)
    from Cons.IH [OF st(2) i] Cons.IH [OF st(3) i] show ?thesis by (simp add: acc Some)
  qed
qed simp

lemma filter_None_all: "length (filter (\<lambda>e. e = None) es) = length es \<longleftrightarrow> set es \<subseteq> {None}"
proof
  assume eq: "length (filter (\<lambda>e. e = None) es) = length es"
  show "set es \<subseteq> {None}"
  proof (rule ccontr)
    assume "\<not> set es \<subseteq> {None}"
    then obtain x where "x \<in> set es" "x \<noteq> None" by blast
    then have "length (filter (\<lambda>e. e = None) es) < length es" by (rule length_filter_less)
    with eq show False by simp
  qed
next
  assume "set es \<subseteq> {None}"
  then have "filter (\<lambda>e. e = None) es = es" by (auto intro!: filter_True)
  then show "length (filter (\<lambda>e. e = None) es) = length es" by simp
qed

lemma hlog_Leader_cases:
  assumes "hlog_Leader remote key locs n = r" and "lasts = last_entries remote key locs n"
  shows "case r of
    Inl err \<Rightarrow> err = Errorf_no_max_height \<and> \<not> set lasts \<subseteq> {None} \<and> (\<forall>e. Some e \<in> set lasts \<longrightarrow> Height e = 0)
  | Inr l \<Rightarrow> kl_lasts l = lasts \<and> kl_locs l = locs \<and> kl_hasher l = hasher n \<and>
      (if set lasts \<subseteq> {None} then kl_idx l = 0
       else 0 \<le> kl_idx l \<and> kl_idx l < int (length lasts) \<and>
         (\<exists>e. lasts ! nat (kl_idx l) = Some e \<and> 0 < Height e \<and>
           (\<forall>e'. Some e' \<in> set lasts \<longrightarrow> Height e' \<le> Height e) \<and>
           (\<forall>j e'. j < nat (kl_idx l) \<longrightarrow> lasts ! j = Some e' \<longrightarrow> Height e' < Height e)))"
proof -
  obtain maxIdx mx nils where m: "max_height 0 lasts (-1, 0, 0) = (maxIdx, mx, nils)" by (metis prod.collapse)
  have inv: "max_so_far lasts (maxIdx, mx, nils)"
  proof -
    have "max_so_far ([] @ lasts) (max_height 0 lasts (-1, 0, 0))"
      by (rule max_height_correct) (simp_all add: max_so_far_def)
    then show ?thesis by (simp add: m)
  qed
  have len: "length lasts = length locs" by (simp add: assms(2) last_entries_def)
  have nils: "nils = int (length locs) \<longleftrightarrow> set lasts \<subseteq> {None}"
    using inv filter_None_all [of lasts] len by (simp add: max_so_far_def)
  define leader where "leader = (\<lambda>i. \<lparr>kl_key = None, kl_idx = i, kl_locs = locs, kl_lasts = lasts, kl_hasher = hasher n\<rparr>)"
  have r: "r = (if nils = int (length locs) then Inr (leader 0)
      else if maxIdx < 0 then Inl Errorf_no_max_height else Inr (leader maxIdx))"
    using assms(1) [symmetric] m by (simp add: hlog_Leader_def assms(2) [symmetric] Let_def leader_def)
  have le: "Height e \<le> mx" if "Some e \<in> set lasts" for e using inv that by (auto simp: max_so_far_def)
  show ?thesis
  proof (cases "set lasts \<subseteq> {None}")
    case True
    with r nils show ?thesis by (simp add: leader_def)
  next
    case False
    show ?thesis
    proof (cases "maxIdx < 0")
      case True
      then have "mx = 0" using inv by (simp add: max_so_far_def)
      with le False True r nils show ?thesis by auto
    next
      case pos: False
      then obtain e where "nat maxIdx < length lasts" "lasts ! nat maxIdx = Some e" "Height e = mx" "0 < mx"
        "\<And>j e'. j < nat maxIdx \<Longrightarrow> lasts ! j = Some e' \<Longrightarrow> Height e' < mx"
        using inv by (auto simp: max_so_far_def)
      with le False pos r nils show ?thesis by (auto simp: leader_def nat_less_iff)
    qed
  qed
qed


text \<open>
  C13: The leader of a key is the first location with the greatest height. \<open>Leader\<close> fails exactly
  when some location has a last entry and all last entries there are have height zero. Otherwise
  it keeps the locations and their last entries, and picks the first location when none has
  a last entry, else an index in range whose last entry has a positive height, the greatest of
  all, and a greater one than every location before it.
\<close>

theorem leader_is_first_greatest:
  shows "let lasts = last_entries remote key locs n;
      no_height = (\<not> set lasts \<subseteq> {None} \<and> (\<forall>e. Some e \<in> set lasts \<longrightarrow> Height e = 0))
    in (hlog_Leader remote key locs n = Inl Errorf_no_max_height \<longleftrightarrow> no_height) \<and>
    (case hlog_Leader remote key locs n of
      Inl err \<Rightarrow> no_height
    | Inr l \<Rightarrow> kl_lasts l = lasts \<and> KeyLeader_LocationSet l = locs \<and>
       (if set lasts \<subseteq> {None} then kl_idx l = 0
        else 0 \<le> kl_idx l \<and> kl_idx l < int (length lasts) \<and>
          (\<exists>e. KeyLeader_LastEntry l = Some (Some e) \<and> 0 < Height e \<and>
             (\<forall>e'. Some e' \<in> set lasts \<longrightarrow> Height e' \<le> Height e) \<and>
             (\<forall>j e'. j < nat (kl_idx l) \<longrightarrow> lasts ! j = Some e' \<longrightarrow> Height e' < Height e))))"
proof -
  define lasts where "lasts = last_entries remote key locs n"
  note c = hlog_Leader_cases [OF refl lasts_def]
  show ?thesis
  proof (cases "hlog_Leader remote key locs n")
    case (Inl err)
    with c show ?thesis by (simp add: Let_def lasts_def [symmetric])
  next
    case (Inr l)
    with c have l: "kl_lasts l = lasts" "kl_locs l = locs" by simp_all
    have "set lasts \<subseteq> {None} \<or> (\<exists>e. Some e \<in> set lasts \<and> Height e \<noteq> 0)"
    proof (cases "set lasts \<subseteq> {None}")
      case False
      then obtain e where "nat (kl_idx l) < length lasts" "lasts ! nat (kl_idx l) = Some e" "0 < Height e"
        using c Inr by (auto simp: nat_less_iff)
      then have "Some e \<in> set lasts" "Height e \<noteq> 0" using nth_mem by force+
      then show ?thesis by blast
    qed simp
    with c Inr l show ?thesis
      by (simp add: Let_def lasts_def [symmetric] KeyLeader_LastEntry_def KeyLeader_LocationSet_def at_def cong: if_cong)
  qed
qed

subsection \<open>Consistency\<close>

lemma first_inconsistent_None:
  "first_inconsistent l lid i es = None \<Longrightarrow> j < length es \<Longrightarrow> i + int j \<noteq> kl_idx l \<Longrightarrow>
   \<exists>e. es ! j = Some e \<and> els (Entry_Hash (kl_hasher l) e) = els lid"
proof (induction es arbitrary: i j)
  case (Cons x es)
  show ?case
  proof (cases j)
    case 0
    with Cons.prems show ?thesis by (auto split: option.splits if_splits)
  next
    case (Suc k)
    have "first_inconsistent l lid (i + 1) es = None"
      using Cons.prems(1) by (auto split: option.splits if_splits)
    from Cons.IH [OF this, of k] Cons.prems Suc show ?thesis by simp
  qed
qed simp

lemma first_inconsistent_bound:
  "first_inconsistent l lid i es = Some j \<Longrightarrow> i \<le> j \<and> j < i + int (length es)"
proof (induction es arbitrary: i)
  case (Cons x es)
  then show ?case by (fastforce split: option.splits if_splits)
qed simp

lemma IsConsistent_all_equal:
  assumes "KeyLeader_IsConsistent l = Some (True, p)" and "j < length (kl_lasts l)"
  shows "\<exists>e e'. at (kl_lasts l) (kl_idx l) = Some (Some e) \<and> kl_lasts l ! j = Some e' \<and>
    els (Entry_Hash (kl_hasher l) e') = els (Entry_Hash (kl_hasher l) e)"
proof -
  obtain e where e: "at (kl_lasts l) (kl_idx l) = Some (Some e)"
    "first_inconsistent l (Entry_Hash (kl_hasher l) e) 0 (kl_lasts l) = None"
    using assms(1) by (auto simp: KeyLeader_IsConsistent_def split: option.splits)
  show ?thesis
  proof (cases "int j = kl_idx l")
    case True
    then have "nat (kl_idx l) = j" by simp
    then have "kl_lasts l ! j = Some e" using e(1) by (auto simp: at_def split: if_splits)
    with e(1) show ?thesis by blast
  next
    case False
    with first_inconsistent_None [OF e(2) assms(2)] e(1) show ?thesis by auto
  qed
qed

text \<open>
  C12: A consistent key is the same everywhere. Suppose the transport gives for each remote host
  the last entry of the log store of that host, and all stores are consistent. When
  \<open>IsConsistent\<close> of the leader returns true then every location, the node itself included,
  holds the same log of the key: comparing last entries is enough.
\<close>

theorem consistent_key_same_logs:
  assumes "good_hash (hasher n) U" and "mem_good (hasher n) U (h_store n)"
    and "\<forall>h. mem_good (hasher n) U (store h)"
    and "store (AdvertiseHost (h_conf n)) = h_store n"
    and "hlog_Leader (\<lambda>h k. Inr (LogStore_LastEntry (hlog_log n) k (store h))) key locs n = Inr l"
    and "KeyLeader_IsConsistent l = Some (True, p)"
    and "loc \<in> set locs" and "loc' \<in> set locs"
  shows "mem_logs (store (Host loc)) (els key) = mem_logs (store (Host loc')) (els key)"
proof -
  let ?lasts = "last_entries (\<lambda>h k. Inr (LogStore_LastEntry (hlog_log n) k (store h))) key locs n"
  have l: "kl_lasts l = ?lasts" "kl_hasher l = hasher n"
    using hlog_Leader_cases [OF assms(5) refl] by simp_all
  have at: "?lasts ! j = LogStore_LastEntry (hlog_log n) key (store (Host (locs ! j)))" if "j < length locs" for j
    using that assms(4) by (simp add: last_entries_def)
  have len: "length ?lasts = length locs" by (simp add: last_entries_def)
  obtain j j' where j: "j < length locs" "locs ! j = loc" "j' < length locs" "locs ! j' = loc'"
    using assms(7,8) by (metis in_set_conv_nth)
  obtain e where e: "LogStore_LastEntry (hlog_log n) key (store (Host loc)) = Some e"
    and m: "\<exists>x. at (kl_lasts l) (kl_idx l) = Some (Some x) \<and> els (Entry_Hash (hasher n) e) = els (Entry_Hash (hasher n) x)"
    using IsConsistent_all_equal [OF assms(6), of j] j(1,2) l len at [OF j(1)] by auto
  obtain e' where e': "LogStore_LastEntry (hlog_log n) key (store (Host loc')) = Some e'"
    and m': "\<exists>x. at (kl_lasts l) (kl_idx l) = Some (Some x) \<and> els (Entry_Hash (hasher n) e') = els (Entry_Hash (hasher n) x)"
    using IsConsistent_all_equal [OF assms(6), of j'] j(3,4) l len at [OF j(3)] by auto
  have "els (Entry_Hash (hasher n) e) = els (Entry_Hash (hasher n) e')" using m m' by auto
  from last_determines_log [OF assms(1) _ _ e e' this] assms(3) show ?thesis by simp
qed

lemma IsConsistent_None_iff:
  assumes "hlog_Leader remote key locs n = Inr l"
  shows "KeyLeader_IsConsistent l = None \<longleftrightarrow> set (last_entries remote key locs n) \<subseteq> {None}"
proof -
  let ?lasts = "last_entries remote key locs n"
  have len: "length ?lasts = length locs" by (simp add: last_entries_def)
  have l: "kl_lasts l = ?lasts" "kl_locs l = locs"
    "if set ?lasts \<subseteq> {None} then kl_idx l = 0
     else 0 \<le> kl_idx l \<and> kl_idx l < int (length ?lasts) \<and> (\<exists>e. ?lasts ! nat (kl_idx l) = Some e)"
    using hlog_Leader_cases [OF assms refl] by (auto split: if_splits)
  show ?thesis
  proof (cases "set ?lasts \<subseteq> {None}")
    case True
    have "at ?lasts 0 = None \<or> at ?lasts 0 = Some None"
    proof (cases ?lasts)
      case (Cons x xs)
      with True show ?thesis by (simp add: at_def)
    qed (simp add: at_def)
    with True l show ?thesis by (auto simp: KeyLeader_IsConsistent_def)
  next
    case False
    then obtain e where e: "at ?lasts (kl_idx l) = Some (Some e)" "at locs (kl_idx l) \<noteq> None"
      using l(3) len by (auto simp: at_def)
    have "at locs i \<noteq> None" if "first_inconsistent l (Entry_Hash (kl_hasher l) e) 0 ?lasts = Some i" for i
      using first_inconsistent_bound [OF that] len by (simp add: at_def)
    with e False l show ?thesis by (auto simp: KeyLeader_IsConsistent_def split: option.splits)
  qed
qed

text \<open>
  C23: Asking for consistency when no location has an entry panics. \<open>Leader\<close> returns the first
  location as leader then, with no last entry, and \<open>IsConsistent\<close> calls \<open>Hash\<close> of that nil
  entry; in all other cases in which \<open>Leader\<close> returns a leader, \<open>IsConsistent\<close> answers.
\<close>

theorem IsConsistent_panics_iff_empty:
  assumes "hlog_Leader remote key locs n = Inr l"
  shows "KeyLeader_IsConsistent l = None \<longleftrightarrow> set (last_entries remote key locs n) \<subseteq> {None}"
  by (rule IsConsistent_None_iff [OF assms])

text \<open>Concrete leaders: of the node of the run above and one peer with the same log, and of nobody.\<close>

definition demo_locs :: "Participant list" where
  "demo_locs = [peer ''a'', peer ''b'']"

definition demo_leader :: KeyLeader where
  "demo_leader = \<lparr>kl_key = None, kl_idx = 0, kl_locs = demo_locs, kl_lasts = [Some entry1, Some entry1],
     kl_hasher = last_byte\<rparr>"

lemma demo_end_leader:
  "hlog_Leader (\<lambda>h k. Inr (LogStore_LastEntry (hlog_log demo_end) k (h_store demo_end))) (Some [7]) demo_locs demo_end
    = Inr demo_leader"
proof -
  have s: "LogStore_LastEntry (hlog_log demo_end) (Some [7]) (h_store demo_end) = Some entry1" by code_simp
  show ?thesis
    by (simp add: hlog_Leader_def last_entries_def demo_locs_def s [unfolded demo_end_good(1)] demo_end_good(1)
        demo_leader_def Let_def)
qed

theorem leader_is_first_greatest_witness:
  "hlog_Leader (\<lambda>h k. Inr (LogStore_LastEntry (hlog_log demo_end) k (h_store demo_end))) (Some [7]) demo_locs demo_end
     \<noteq> Inl Errorf_no_max_height \<and> 0 \<le> kl_idx demo_leader \<and> kl_idx demo_leader < 2 \<and>
   (\<exists>e. KeyLeader_LastEntry demo_leader = Some (Some e) \<and> Height entry1 \<le> Height e)"
proof -
  let ?remote = "\<lambda>h k. Inr (LogStore_LastEntry (hlog_log demo_end) k (h_store demo_end))"
  have "LogStore_LastEntry (hlog_log demo_end) (Some [7]) (h_store demo_end) = Some entry1" by code_simp
  then have l: "last_entries ?remote (Some [7]) demo_locs demo_end = [Some entry1, Some entry1]"
    by (simp add: last_entries_def demo_locs_def)
  from leader_is_first_greatest [of ?remote "Some [7]" demo_locs demo_end]
  show ?thesis unfolding l Let_def demo_end_leader by auto
qed

theorem consistent_key_same_logs_witness:
  "KeyLeader_IsConsistent demo_leader = Some (True, peer ''a'') \<and>
   mem_logs (h_store demo_end) [7] = mem_logs (h_store demo_end) (els (Some [7]))"
proof -
  have g: "good_hash (hasher demo_end) {entry1, entry2}" "mem_good (hasher demo_end) {entry1, entry2} (h_store demo_end)"
    by (simp_all add: demo_end_good)
  have c: "KeyLeader_IsConsistent demo_leader = Some (True, peer ''a'')"
    by (simp add: KeyLeader_IsConsistent_def demo_leader_def at_def demo_locs_def)
  have "\<forall>h :: string. mem_good (hasher demo_end) {entry1, entry2} (h_store demo_end)" using g(2) by blast
  from consistent_key_same_logs [where store = "\<lambda>_. h_store demo_end", OF g this refl demo_end_leader c,
      of "peer ''a''" "peer ''b''"] c
  show ?thesis by (simp add: demo_locs_def)
qed

theorem IsConsistent_panics_iff_empty_witness:
  "KeyLeader_IsConsistent demo_leader \<noteq> None"
proof -
  have "LogStore_LastEntry (hlog_log demo_end) (Some [7]) (h_store demo_end) = Some entry1" by code_simp
  with IsConsistent_panics_iff_empty [OF demo_end_leader] show ?thesis
    by (simp add: last_entries_def demo_locs_def)
qed

end
