(* ===== verification/Pool.thy ===== *)
theory Pool
  imports Future
begin

section \<open>The pool of outbound connections (pool.go)\<close>

text \<open>
  One connection per host, shared by all calls to the host: \<open>getConn\<close> leaves it in the pool
  and \<open>returnConn\<close> puts it there again. Connections are shared through pointers, which are
  indexes in a heap. Of a gRPC connection only its host and whether it was closed is kept;
  dialing is a parameter that fails or not, host by host. Times are nanoseconds.
\<close>

record rpcOutConn =
  oc_host :: string
  oc_open :: bool
  oc_used :: int

record outPool =
  po_pool :: "(string, nat) gomap"
  po_conns :: "nat \<Rightarrow> rpcOutConn"
  po_next :: nat
  maxConnIdle :: int
  reapInterval :: int
  stopped :: bool

definition newOutPool :: "int \<Rightarrow> int \<Rightarrow> outPool" where
  "newOutPool maxIdle interval =
     \<lparr>po_pool = [], po_conns = (\<lambda>_. \<lparr>oc_host = [], oc_open = False, oc_used = zero_time\<rparr>), po_next = 0,
      maxConnIdle = maxIdle, reapInterval = interval, stopped = False\<rparr>"

text \<open>\<open>o.conn.Close()\<close>.\<close>

definition conn_Close :: "nat \<Rightarrow> outPool \<Rightarrow> outPool" where
  "conn_Close c pool = pool\<lparr>po_conns := (po_conns pool)(c := (po_conns pool c)\<lparr>oc_open := False\<rparr>)\<rparr>"

definition returnConn :: "int \<Rightarrow> nat \<Rightarrow> outPool \<Rightarrow> outPool" where
  "returnConn now c pool =
     (if stopped pool then conn_Close c pool
      else pool\<lparr>po_conns := (po_conns pool)(c := (po_conns pool c)\<lparr>oc_used := now\<rparr>),
                po_pool := AList.update (oc_host (po_conns pool c)) c (po_pool pool)\<rparr>)"

definition getConn :: "int \<Rightarrow> (string \<Rightarrow> error option) \<Rightarrow> string \<Rightarrow> outPool \<Rightarrow> (error + nat) \<times> outPool" where
  "getConn now dial host pool =
     (if stopped pool then (Inl Errorf_transport_shutdown, pool)
      else (case map_of (po_pool pool) host of
              Some out \<Rightarrow> (Inr out, pool)
            | None \<Rightarrow>
                (case dial host of
                   Some err \<Rightarrow> (Inl err, pool)
                 | None \<Rightarrow>
                     (Inr (po_next pool),
                      pool\<lparr>po_conns := (po_conns pool)(po_next pool := \<lparr>oc_host = host, oc_open = True, oc_used = now\<rparr>),
                           po_next := Suc (po_next pool),
                           po_pool := AList.update host (po_next pool) (po_pool pool)\<rparr>))))"

text \<open>\<open>time.Since(conn.used) > pool.maxConnIdle\<close>.\<close>

definition idle :: "int \<Rightarrow> outPool \<Rightarrow> nat \<Rightarrow> bool" where
  "idle now pool c \<longleftrightarrow> time_Sub now (oc_used (po_conns pool c)) > maxConnIdle pool"

definition reapOnce :: "int \<Rightarrow> outPool \<Rightarrow> outPool" where
  "reapOnce now pool =
     (fold (\<lambda>(host, c). conn_Close c) (filter (\<lambda>(host, c). idle now pool c) (po_pool pool)) pool)
       \<lparr>po_pool := filter (\<lambda>(host, c). \<not> idle now pool c) (po_pool pool)\<rparr>"

text \<open>One turn of the goroutine \<open>reapOld\<close>, which reaps at \<open>now\<close> after its sleep; false is its end.\<close>

definition reapOld_turn :: "int \<Rightarrow> outPool \<Rightarrow> bool \<times> outPool" where
  "reapOld_turn now pool = (if stopped pool then (False, pool) else (True, reapOnce now pool))"

definition pool_shutdown :: "outPool \<Rightarrow> outPool" where
  "pool_shutdown pool = pool\<lparr>stopped := True\<rparr>"

subsection \<open>Sequences of calls\<close>

datatype pool_op =
    PGet int string
  | PReturn int nat
  | PReap int
  | PShutdown

fun pool_call :: "(string \<Rightarrow> error option) \<Rightarrow> pool_op \<Rightarrow> outPool \<Rightarrow> outPool" where
  "pool_call dial (PGet now host) pool = snd (getConn now dial host pool)"
| "pool_call dial (PReturn now c) pool = (if c < po_next pool then returnConn now c pool else pool)"
| "pool_call dial (PReap now) pool = snd (reapOld_turn now pool)"
| "pool_call dial PShutdown pool = pool_shutdown pool"

definition pool_run :: "(string \<Rightarrow> error option) \<Rightarrow> pool_op list \<Rightarrow> outPool \<Rightarrow> outPool" where
  "pool_run dial ops pool = fold (pool_call dial) ops pool"

text \<open>Every connection of the pool was dialed for the host it is found under.\<close>

definition pool_ok :: "outPool \<Rightarrow> bool" where
  "pool_ok pool \<longleftrightarrow> map_ok (po_pool pool) \<and>
     (\<forall>host c. map_of (po_pool pool) host = Some c \<longrightarrow> c < po_next pool \<and> oc_host (po_conns pool c) = host)"

lemma conn_Close_simps [simp]:
  "po_pool (conn_Close c pool) = po_pool pool" "po_next (conn_Close c pool) = po_next pool"
  "stopped (conn_Close c pool) = stopped pool" "maxConnIdle (conn_Close c pool) = maxConnIdle pool"
  "oc_host (po_conns (conn_Close c pool) d) = oc_host (po_conns pool d)"
  "oc_used (po_conns (conn_Close c pool) d) = oc_used (po_conns pool d)"
  "oc_open (po_conns (conn_Close c pool) d) \<longleftrightarrow> oc_open (po_conns pool d) \<and> d \<noteq> c"
  by (simp_all add: conn_Close_def)

lemma fold_Close_simps:
  "po_pool (fold (\<lambda>(h, c). conn_Close c) cs pool) = po_pool pool"
  "po_next (fold (\<lambda>(h, c). conn_Close c) cs pool) = po_next pool"
  "stopped (fold (\<lambda>(h, c). conn_Close c) cs pool) = stopped pool"
  "maxConnIdle (fold (\<lambda>(h, c). conn_Close c) cs pool) = maxConnIdle pool"
  "oc_host (po_conns (fold (\<lambda>(h, c). conn_Close c) cs pool) d) = oc_host (po_conns pool d)"
  "oc_used (po_conns (fold (\<lambda>(h, c). conn_Close c) cs pool) d) = oc_used (po_conns pool d)"
  "oc_open (po_conns (fold (\<lambda>(h, c). conn_Close c) cs pool) d) \<longleftrightarrow> oc_open (po_conns pool d) \<and> d \<notin> snd ` set cs"
  by (induction cs arbitrary: pool) (auto split: prod.splits)

lemma reapOnce_simps:
  "po_next (reapOnce now pool) = po_next pool" "stopped (reapOnce now pool) = stopped pool"
  "maxConnIdle (reapOnce now pool) = maxConnIdle pool"
  "oc_host (po_conns (reapOnce now pool) d) = oc_host (po_conns pool d)"
  "oc_used (po_conns (reapOnce now pool) d) = oc_used (po_conns pool d)"
  "po_pool (reapOnce now pool) = filter (\<lambda>(host, c). \<not> idle now pool c) (po_pool pool)"
  "oc_open (po_conns (reapOnce now pool) d) \<longleftrightarrow>
     oc_open (po_conns pool d) \<and> \<not> (d \<in> snd ` set (po_pool pool) \<and> idle now pool d)"
  by (auto simp: reapOnce_def fold_Close_simps)

lemma map_ok_filter: "map_ok m \<Longrightarrow> map_ok (filter P m)"
  by (simp add: map_ok_def distinct_map_filter)

lemma map_of_filter_Some: "map_ok m \<Longrightarrow> map_of (filter P m) k = Some v \<Longrightarrow> map_of m k = Some v"
  by (auto simp: map_ok_def dest!: map_of_SomeD intro!: map_of_is_SomeI)

lemma pool_ok_call:
  assumes "pool_ok pool"
  shows "pool_ok (pool_call dial x pool)"
proof (cases x)
  case (PGet now host)
  with assms show ?thesis
    by (auto simp: pool_ok_def getConn_def less_Suc_eq split: option.splits)
next
  case (PReturn now c)
  with assms show ?thesis
    by (auto simp: pool_ok_def returnConn_def)
next
  case (PReap now)
  with assms show ?thesis
    by (auto simp: pool_ok_def reapOld_turn_def reapOnce_simps map_ok_filter dest: map_of_filter_Some)
next
  case PShutdown
  with assms show ?thesis by (simp add: pool_ok_def pool_shutdown_def)
qed

lemma pool_ok_run: "pool_ok pool \<Longrightarrow> pool_ok (pool_run dial ops pool)"
  unfolding pool_run_def by (induction ops arbitrary: pool) (auto intro: pool_ok_call)

text \<open>
  C24: A connection goes where it was asked for. After any sequence of calls to a new pool, each
  connection handed out is one to the host asked for, and it is the one every other call to
  that host gets until it is reaped.
\<close>

theorem pool_connects_to_host:
  assumes "getConn now dial host (pool_run dial ops (newOutPool maxIdle interval)) = (Inr c, pool)"
  shows "oc_host (po_conns pool c) = host \<and> c < po_next pool \<and>
    getConn now' dial host pool = (Inr c, pool)"
proof -
  have "pool_ok (newOutPool maxIdle interval)" by (simp add: pool_ok_def newOutPool_def)
  then have "pool_ok (pool_run dial ops (newOutPool maxIdle interval))" by (rule pool_ok_run)
  with assms show ?thesis
    by (auto simp: getConn_def pool_ok_def split: if_splits option.splits)
qed

theorem pool_connects_to_host_witness:
  "getConn 9 (\<lambda>_. None) ''b'' (snd (getConn 5 (\<lambda>_. None) ''b'' (newOutPool 10 10)))
    = (Inr 0, snd (getConn 5 (\<lambda>_. None) ''b'' (newOutPool 10 10)))"
proof -
  have g: "getConn 5 (\<lambda>_. None) ''b'' (pool_run (\<lambda>_. None) [] (newOutPool 10 10)) =
      (Inr 0, snd (getConn 5 (\<lambda>_. None) ''b'' (newOutPool 10 10)))"
    by (simp add: pool_run_def getConn_def newOutPool_def)
  from pool_connects_to_host [OF g, of 9] show ?thesis by blast
qed

text \<open>
  C25: The reaper closes a connection that is in use, and the pool hands it out again. The time
  of use is set when a connection is made or returned, not when it is taken: a call that takes
  longer than the idle time has its connection closed under it; returning it puts the closed
  connection back, and the next call to the host gets it.
\<close>

theorem reaped_connection_comes_back:
  assumes "getConn t0 dial host (newOutPool maxIdle interval) = (Inr c, p1)"
    and "maxIdle < time_Sub t1 t0" and "p2 = reapOnce t1 p1" and "p3 = returnConn t2 c p2"
  shows "\<not> oc_open (po_conns p2 c) \<and>
    (\<exists>p4. getConn t3 dial host p3 = (Inr c, p4) \<and> \<not> oc_open (po_conns p4 c))"
proof -
  have p1: "c = 0" "p1 = (newOutPool maxIdle interval)\<lparr>po_next := 1, po_pool := [(host, 0)],
      po_conns := (po_conns (newOutPool maxIdle interval))(0 := \<lparr>oc_host = host, oc_open = True, oc_used = t0\<rparr>)\<rparr>"
    using assms(1) by (auto simp: getConn_def newOutPool_def split: option.splits)
  then have i: "idle t1 p1 0" using assms(2) by (simp add: idle_def newOutPool_def)
  have closed: "\<not> oc_open (po_conns p2 c)"
    using i by (simp add: assms(3) reapOnce_simps p1)
  have p2: "\<not> stopped p2" "oc_host (po_conns p2 c) = host" "po_pool p2 = []"
    using i by (simp_all add: assms(3) reapOnce_simps p1 newOutPool_def)
  then have "getConn t3 dial host p3 = (Inr c, p3)" "\<not> oc_open (po_conns p3 c)"
    using closed by (simp_all add: assms(4) returnConn_def getConn_def)
  with closed show ?thesis by blast
qed

theorem reaped_connection_comes_back_witness:
  "\<not> oc_open (po_conns (reapOnce 20 (snd (getConn 0 (\<lambda>_. None) ''b'' (newOutPool 10 10)))) 0)"
proof -
  have g: "getConn 0 (\<lambda>_. None) ''b'' (newOutPool 10 10) = (Inr 0, snd (getConn 0 (\<lambda>_. None) ''b'' (newOutPool 10 10)))"
    by (simp add: getConn_def newOutPool_def)
  from reaped_connection_comes_back [OF g _ refl refl, of 20] show ?thesis by (simp add: time_Sub_def)
qed

end
