(* ===== verification/Net.thy ===== *)
theory Net
  imports Node_Requests Leader Pool
begin

section \<open>The network transport (net.go)\<close>

text \<open>
  The handlers a node serves, and the calls it makes to other nodes. gRPC is a parameter: of a
  unary call the reply or error of the host, of a stream what can be received on it and how
  it ends, \<open>None\<close> for \<open>io.EOF\<close>. \<open>parse\<close> is \<open>ParseGRPCError\<close> of the package hexatype. A call
  on a nil entry or nil options panics. What a request of a remote host asks is used
  unchecked: sources index the peer set, ids need not be the hash of the entry.
\<close>

subsection \<open>Handlers\<close>

text \<open>\<open>Propose\<close> and \<open>Commit\<close> of a nil entry: they panic at its hash, unless refused before.\<close>

definition nil_entry :: "RequestOptions \<Rightarrow> (('a, 'd, 'c) Node, error) call" where
  "nil_entry opts n =
     (case checkOptions opts n of
        Some err \<Rightarrow> Ret err n
      | None \<Rightarrow>
          (case getSelfIndex (peers opts) n of
             None \<Rightarrow> Ret (Errorf_not_in_peer_set (AdvertiseHost (h_conf n))) n
           | Some _ \<Rightarrow> Panic n))"

text \<open>
  The waits of \<open>ProposeRPC\<close> take the given arms of their selects and block when those are not
  ready. The handler reads \<open>WaitBallot\<close> and \<open>WaitApply\<close> of the request.
\<close>

definition ProposeRPC ::
  "('a, 'd, 'c) Env \<Rightarrow> int \<Rightarrow> wait_arm \<Rightarrow> wait_arm \<Rightarrow> ReqResp \<Rightarrow> (('a, 'd, 'c) Node, ReqResp \<times> error option) call" where
  "ProposeRPC E now arm1 arm2 req =
     (case (rr_Entry req, rr_Options req) of
        (_, None) \<Rightarrow> Panic
      | (None, Some opts) \<Rightarrow> bind (nil_entry opts) (\<lambda>err. Ret (zero_ReqResp, Some err))
      | (Some entry, Some opts) \<Rightarrow>
          bind (Propose E now entry opts) (\<lambda>(ballot, err, opt).
            if err \<noteq> None then Ret (zero_ReqResp, err)
            else if \<not> WaitBallot opt then Ret (zero_ReqResp, None)
            else (case ballot of
                    None \<Rightarrow> Panic
                  | Some b \<Rightarrow>
                      bind (on_ballot b (Ballot_Wait arm1)) (\<lambda>err.
                        if err \<noteq> None then Ret (zero_ReqResp, err)
                        else (\<lambda>n.
                          let resp = zero_ReqResp\<lparr>BallotTime := Ballot_Runtime (h_bheap n b)\<rparr>;
                              fut = fentry (h_bheap n b)
                          in if \<not> WaitApply opt then Ret (resp, None) n
                             else bind (on_future fut (FutureEntry_Wait arm2)) (\<lambda>(_, err) n.
                                    Ret (resp\<lparr>ApplyTime := FutureEntry_Runtime (h_futures n fut)\<rparr>, err) n) n)))))"

definition CommitRPC ::
  "('a, 'd, 'c) Env \<Rightarrow> int \<Rightarrow> ReqResp \<Rightarrow> (('a, 'd, 'c) Node, ReqResp \<times> error option) call" where
  "CommitRPC E now req =
     (case (rr_Entry req, rr_Options req) of
        (_, None) \<Rightarrow> Panic
      | (None, Some opts) \<Rightarrow> bind (nil_entry opts) (\<lambda>err. Ret (zero_ReqResp, Some err))
      | (Some entry, Some opts) \<Rightarrow>
          bind (Commit E now entry opts) (\<lambda>(_, err). Ret (zero_ReqResp, err)))"

text \<open>The reading handlers; the panic is \<open>None\<close>.\<close>

definition GetRPC :: "ReqResp \<Rightarrow> ('a, 'd, 'c) Node \<Rightarrow> (ReqResp \<times> error option) option" where
  "GetRPC req n =
     map_option (\<lambda>ent.
       case hlog_Get (Key ent) (rr_ID req) n of
         Inl err \<Rightarrow> (zero_ReqResp, Some err)
       | Inr entry \<Rightarrow> (zero_ReqResp\<lparr>rr_Entry := Some entry\<rparr>, None)) (rr_Entry req)"

definition LastRPC :: "ReqResp \<Rightarrow> ('a, 'd, 'c) Node \<Rightarrow> (ReqResp \<times> error option) option" where
  "LastRPC req n =
     map_option (\<lambda>ent.
       (zero_ReqResp\<lparr>rr_Entry := LogStore_LastEntry (hlog_log n) (Key ent) (h_store n)\<rparr>, None)) (rr_Entry req)"

definition NewRPC :: "('a, 'd, 'c) Env \<Rightarrow> int \<Rightarrow> ReqResp \<Rightarrow> ('a, 'd, 'c) Node \<Rightarrow> (ReqResp \<times> error option) option" where
  "NewRPC E now req n =
     map_option (\<lambda>ent. (zero_ReqResp\<lparr>rr_Entry := Some (hlog_New E now (Key ent) n)\<rparr>, None)) (rr_Entry req)"

text \<open>A stream server: the request received first, and \<open>send\<close> on what was sent until now.\<close>

definition no_key :: "Entry option \<Rightarrow> bool" where
  "no_key ent = (case ent of None \<Rightarrow> True | Some e \<Rightarrow> Key e = None \<or> length (els (Key e)) = 0)"

definition PullKeylogRPC ::
  "(ReqResp \<Rightarrow> 'u \<Rightarrow> error option \<times> 'u) \<Rightarrow> error + ReqResp \<Rightarrow> ('a, 'd, 'c) Node \<Rightarrow> 'u \<Rightarrow> error option \<times> 'u" where
  "PullKeylogRPC send recv n u =
     (case recv of
        Inl err \<Rightarrow> (Some err, u)
      | Inr req \<Rightarrow>
          if no_key (rr_Entry req) then (Some ErrKeyInvalid, u)
          else (case LogStore_GetKey (hlog_log n) (Key (the (rr_Entry req))) (h_store n) of
                  Inl err \<Rightarrow> (Some err, u)
                | Inr keylog \<Rightarrow>
                    (case Keylog_Iter (hlog_log n) keylog (rr_ID req)
                            (\<lambda>eid entry (s, u).
                               case send (zero_ReqResp\<lparr>rr_Entry := Some entry, rr_ID := eid\<rparr>) u of
                                 (err, u) \<Rightarrow> (err, s, u)) (h_store n, u) of
                       (err, _, u) \<Rightarrow> (err, u))))"

text \<open>
  One message of a pushed keylog. It is skipped when the store does not have its id.
\<close>

definition PushKeylogRPC_msg :: "int \<Rightarrow> nat \<Rightarrow> ReqResp \<Rightarrow> (('a, 'd, 'c) Node, unit) call" where
  "PushKeylogRPC_msg now keylog msg n =
     (case Keylog_GetEntry (hlog_log n) (rr_ID msg) (h_store n) of
        Inl _ \<Rightarrow> Ret () n
      | Inr _ \<Rightarrow>
          (case rr_Entry msg of
             None \<Rightarrow> Panic n
           | Some entry \<Rightarrow>
               (case Keylog_AppendEntry (hlog_log n) keylog entry (h_store n) of
                  (Some _, s) \<Rightarrow> Ret () (n\<lparr>h_store := s\<rparr>)
                | (None, s) \<Rightarrow>
                    (case new_future (NewFutureEntry (rr_ID msg) entry) (n\<lparr>h_store := s\<rparr>) of
                       (f, n) \<Rightarrow> fsm_apply now f n))))"

text \<open>The preamble sent back, if it came to that, and the error.\<close>

definition PushKeylogRPC ::
  "int \<Rightarrow> error + ReqResp \<Rightarrow> (ReqResp \<Rightarrow> error option) \<Rightarrow> ReqResp list \<times> error option \<Rightarrow>
   (('a, 'd, 'c) Node, ReqResp option \<times> error option) call" where
  "PushKeylogRPC now recv send stream n =
     (case recv of
        Inl err \<Rightarrow> Ret (None, Some err) n
      | Inr req \<Rightarrow>
          if no_key (rr_Entry req) then Ret (None, Some ErrKeyInvalid) n
          else (case LogStore_GetKey (hlog_log n) (Key (the (rr_Entry req))) (h_store n) of
                  Inl err \<Rightarrow> Ret (None, Some err) n
                | Inr keylog \<Rightarrow>
                    (let preamble = zero_ReqResp\<lparr>rr_Entry := Keylog_LastEntry (hlog_log n) keylog (h_store n)\<rparr>
                     in case send preamble of
                          Some err \<Rightarrow> Ret (Some preamble, Some err) n
                        | None \<Rightarrow>
                            bind (each (PushKeylogRPC_msg now keylog) (fst stream))
                              (\<lambda>_. Ret (Some preamble, snd stream)) n)))"

definition SeedKeysRPC :: "(KeySeed \<Rightarrow> 'u \<Rightarrow> error option \<times> 'u) \<Rightarrow> ('a, 'd, 'c) Node \<Rightarrow> 'u \<Rightarrow> error option \<times> 'u" where
  "SeedKeysRPC send n u = LogStore_IterKeySeed (hlog_log n) send (h_store n) u"

subsection \<open>Calls to other hosts\<close>

text \<open>
  A transport with the log registered to it. \<open>with_conn\<close> is what all unary calls do: take a
  connection, call, put it back.
\<close>

record ('a, 'd, 'c) NetTransport =
  t_hlog :: "('a, 'd, 'c) Node"
  t_pool :: outPool

text \<open>A new transport; it has no log before one registers with it.\<close>

definition NewNetTransport :: "int \<Rightarrow> int \<Rightarrow> ('a, 'd, 'c) Node \<Rightarrow> ('a, 'd, 'c) NetTransport" where
  "NewNetTransport interval maxIdle unregistered =
     \<lparr>t_hlog = unregistered, t_pool = newOutPool maxIdle interval\<rparr>"

definition with_conn ::
  "int \<Rightarrow> (string \<Rightarrow> error option) \<Rightarrow> string \<Rightarrow> (error + ReqResp) \<Rightarrow> outPool \<Rightarrow> (error + (error + ReqResp)) \<times> outPool" where
  "with_conn now dial host reply pool =
     (case getConn now dial host pool of
        (Inl err, pool) \<Rightarrow> (Inl err, pool)
      | (Inr conn, pool) \<Rightarrow> (Inr reply, returnConn now conn pool))"

definition entry_reply :: "(error \<Rightarrow> error) \<Rightarrow> error + (error + ReqResp) \<Rightarrow> error + Entry option" where
  "entry_reply parse r =
     (case r of
        Inl err \<Rightarrow> Inl err
      | Inr (Inl err) \<Rightarrow> Inl (parse err)
      | Inr (Inr resp) \<Rightarrow> Inr (rr_Entry resp))"

definition NetTransport_NewEntry ::
  "int \<Rightarrow> (string \<Rightarrow> error option) \<Rightarrow> (error \<Rightarrow> error) \<Rightarrow> (string \<Rightarrow> ReqResp \<Rightarrow> error + ReqResp) \<Rightarrow>
   string \<Rightarrow> bytes \<Rightarrow> RequestOptions option \<Rightarrow> outPool \<Rightarrow> (error + Entry option) \<times> outPool" where
  "NetTransport_NewEntry now dial parse NewRPC_call host key opts pool =
     (let req = zero_ReqResp\<lparr>rr_Entry := Some (zero_Entry\<lparr>Key := key\<rparr>), rr_Options := opts\<rparr>
      in case with_conn now dial host (NewRPC_call host req) pool of
           (r, pool) \<Rightarrow> (entry_reply parse r, pool))"

definition NetTransport_LastEntry ::
  "int \<Rightarrow> (string \<Rightarrow> error option) \<Rightarrow> (error \<Rightarrow> error) \<Rightarrow> (string \<Rightarrow> ReqResp \<Rightarrow> error + ReqResp) \<Rightarrow>
   string \<Rightarrow> bytes \<Rightarrow> RequestOptions option \<Rightarrow> outPool \<Rightarrow> (error + Entry option) \<times> outPool" where
  "NetTransport_LastEntry now dial parse LastRPC_call host key opts pool =
     (let req = zero_ReqResp\<lparr>rr_Entry := Some (zero_Entry\<lparr>Key := key\<rparr>), rr_Options := opts\<rparr>
      in case with_conn now dial host (LastRPC_call host req) pool of
           (r, pool) \<Rightarrow> (entry_reply parse r, pool))"

definition NetTransport_GetEntry ::
  "int \<Rightarrow> (string \<Rightarrow> error option) \<Rightarrow> (error \<Rightarrow> error) \<Rightarrow> (string \<Rightarrow> ReqResp \<Rightarrow> error + ReqResp) \<Rightarrow>
   string \<Rightarrow> bytes \<Rightarrow> bytes \<Rightarrow> RequestOptions option \<Rightarrow> outPool \<Rightarrow> (error + Entry option) \<times> outPool" where
  "NetTransport_GetEntry now dial parse GetRPC_call host key eid opts pool =
     (let req = zero_ReqResp\<lparr>rr_ID := eid, rr_Entry := Some (zero_Entry\<lparr>Key := key\<rparr>), rr_Options := opts\<rparr>
      in case with_conn now dial host (GetRPC_call host req) pool of
           (r, pool) \<Rightarrow> (entry_reply parse r, pool))"

text \<open>\<open>ProposeEntry\<close> returns what the stub returned, a nil reply with an error.\<close>

definition NetTransport_ProposeEntry ::
  "int \<Rightarrow> (string \<Rightarrow> error option) \<Rightarrow> (error \<Rightarrow> error) \<Rightarrow> (string \<Rightarrow> ReqResp \<Rightarrow> error + ReqResp) \<Rightarrow>
   string \<Rightarrow> Entry option \<Rightarrow> RequestOptions option \<Rightarrow> outPool \<Rightarrow> (ReqResp option \<times> error option) \<times> outPool" where
  "NetTransport_ProposeEntry now dial parse ProposeRPC_call host entry opts pool =
     (let req = zero_ReqResp\<lparr>rr_Entry := entry, rr_Options := opts\<rparr>
      in case with_conn now dial host (ProposeRPC_call host req) pool of
           (Inl err, pool) \<Rightarrow> ((None, Some err), pool)
         | (Inr (Inl err), pool) \<Rightarrow> ((None, Some (parse err)), pool)
         | (Inr (Inr resp), pool) \<Rightarrow> ((Some resp, None), pool))"

definition NetTransport_CommitEntry ::
  "int \<Rightarrow> (string \<Rightarrow> error option) \<Rightarrow> (error \<Rightarrow> error) \<Rightarrow> (string \<Rightarrow> ReqResp \<Rightarrow> error + ReqResp) \<Rightarrow>
   string \<Rightarrow> Entry option \<Rightarrow> RequestOptions option \<Rightarrow> outPool \<Rightarrow> error option \<times> outPool" where
  "NetTransport_CommitEntry now dial parse CommitRPC_call host entry opts pool =
     (let req = zero_ReqResp\<lparr>rr_Entry := entry, rr_Options := opts\<rparr>
      in case with_conn now dial host (CommitRPC_call host req) pool of
           (Inl err, pool) \<Rightarrow> (Some err, pool)
         | (Inr (Inl err), pool) \<Rightarrow> (Some (parse err), pool)
         | (Inr (Inr _), pool) \<Rightarrow> (None, pool))"

text \<open>
  A stream of seeds keeps its connection; \<open>Recycle\<close> puts it back. The stub returns the stream,
  here the seeds that will be received and the end, or an error.
\<close>

record KeySeedStream =
  ks_conn :: nat
  ks_recv :: "KeySeed list \<times> error option"

definition KeySeedStream_Recycle :: "int \<Rightarrow> KeySeedStream \<Rightarrow> outPool \<Rightarrow> outPool" where
  "KeySeedStream_Recycle now stream pool = returnConn now (ks_conn stream) pool"

definition NetTransport_GetSeedKeys ::
  "int \<Rightarrow> (string \<Rightarrow> error option) \<Rightarrow> (error \<Rightarrow> error) \<Rightarrow> (string \<Rightarrow> error + (KeySeed list \<times> error option)) \<Rightarrow>
   string \<Rightarrow> outPool \<Rightarrow> (error + KeySeedStream) \<times> outPool" where
  "NetTransport_GetSeedKeys now dial parse SeedKeysRPC_call host pool =
     (case getConn now dial host pool of
        (Inl err, pool) \<Rightarrow> (Inl err, pool)
      | (Inr conn, pool) \<Rightarrow>
          (case SeedKeysRPC_call host of
             Inl err \<Rightarrow> (Inl (parse err), returnConn now conn pool)
           | Inr stream \<Rightarrow> (Inr \<lparr>ks_conn = conn, ks_recv = stream\<rparr>, pool)))"

definition NetTransport_Register :: "('a, 'd, 'c) Node \<Rightarrow> ('a, 'd, 'c) NetTransport \<Rightarrow> ('a, 'd, 'c) NetTransport" where
  "NetTransport_Register hlog t = t\<lparr>t_hlog := hlog\<rparr>"

definition NetTransport_Shutdown :: "('a, 'd, 'c) NetTransport \<Rightarrow> ('a, 'd, 'c) NetTransport" where
  "NetTransport_Shutdown t = t\<lparr>t_pool := pool_shutdown (t_pool t)\<rparr>"

subsection \<open>Transfer of keylogs\<close>

text \<open>
  The client side of a stream: opening it, sending on it, and what is received after the
  request, with the end of the stream.
\<close>

record stream =
  st_open :: "error option"
  st_send :: "ReqResp \<Rightarrow> error option"
  st_recv :: "ReqResp \<Rightarrow> ReqResp list \<times> error option"

text \<open>
  The loop of \<open>PullKeylog\<close>: every message is appended, a failure is logged and forgotten. The
  result is the future of the last message, nil if its append failed.
\<close>

fun pull_loop :: "int \<Rightarrow> ReqResp list \<Rightarrow> nat option \<Rightarrow> (('a, 'd, 'c) Node, nat option) call" where
  "pull_loop now [] f = Ret f"
| "pull_loop now (msg # msgs) f =
     (case rr_Entry msg of
        None \<Rightarrow> Panic
      | Some entry \<Rightarrow> bind (hlog_append now (rr_ID msg) entry) (\<lambda>(f, err). pull_loop now msgs f))"

definition pull_request :: "hash_fn \<Rightarrow> Entry \<Rightarrow> ReqResp" where
  "pull_request H entry =
     (let req = zero_ReqResp\<lparr>rr_Entry := Some entry\<rparr>
      in if Previous entry \<noteq> None then req\<lparr>rr_ID := Entry_Hash H entry\<rparr> else req)"

text \<open>\<open>PullKeylog\<close> from the opening of the stream on.\<close>

definition PullKeylog_stream ::
  "int \<Rightarrow> (error \<Rightarrow> error) \<Rightarrow> stream \<Rightarrow> Entry \<Rightarrow> (('a, 'd, 'c) Node, nat option \<times> error option) call" where
  "PullKeylog_stream now parse st entry n =
     (case st_open st of
        Some err \<Rightarrow> Ret (None, Some err) n
      | None \<Rightarrow>
          (let req = pull_request (hasher n) entry
           in case st_send st req of
                Some err \<Rightarrow> Ret (None, Some (parse err)) n
              | None \<Rightarrow>
                  (case st_recv st req of
                     (msgs, fin) \<Rightarrow>
                       bind (pull_loop now msgs None) (\<lambda>f. Ret (f, map_option parse fin)) n)))"

definition NetTransport_PullKeylog ::
  "int \<Rightarrow> (string \<Rightarrow> error option) \<Rightarrow> (error \<Rightarrow> error) \<Rightarrow> (string \<Rightarrow> stream) \<Rightarrow> string \<Rightarrow> Entry \<Rightarrow>
   (('a, 'd, 'c) NetTransport, nat option \<times> error option) call" where
  "NetTransport_PullKeylog now dial parse PullKeylogRPC_call host entry t =
     (case getConn now dial host (t_pool t) of
        (Inl err, pool) \<Rightarrow> Ret (None, Some err) (t\<lparr>t_pool := pool\<rparr>)
      | (Inr _, pool) \<Rightarrow>
          zoom t_hlog (\<lambda>n t. t\<lparr>t_hlog := n\<rparr>)
            (PullKeylog_stream now parse (PullKeylogRPC_call host) entry) (t\<lparr>t_pool := pool\<rparr>))"

text \<open>
  \<open>PushKeylog\<close>: the preamble and its reply, then the keylog from the last entry of the remote
  host on. \<open>send\<close> works on what was sent until now; the reply to the preamble is received
  after it. The error of closing counts when there was none before.
\<close>

definition NetTransport_PushKeylog ::
  "int \<Rightarrow> (string \<Rightarrow> error option) \<Rightarrow> (error \<Rightarrow> error) \<Rightarrow> error option \<Rightarrow> (ReqResp \<Rightarrow> 'u \<Rightarrow> error option \<times> 'u) \<Rightarrow>
   ('u \<Rightarrow> error + ReqResp) \<Rightarrow> error option \<Rightarrow> string \<Rightarrow> bytes \<Rightarrow> ('a, 'd, 'c) NetTransport \<Rightarrow> 'u \<Rightarrow>
   error option \<times> outPool \<times> 'u" where
  "NetTransport_PushKeylog now dial parse opn send reply close_err host key t u =
     (let n = t_hlog t; L = hlog_log n
      in case LogStore_GetKey L key (h_store n) of
           Inl err \<Rightarrow> (Some err, t_pool t, u)
         | Inr keylog \<Rightarrow>
             (case Keylog_LastEntry L keylog (h_store n) of
                None \<Rightarrow> (None, t_pool t, u)
              | Some lst \<Rightarrow>
                  (case getConn now dial host (t_pool t) of
                     (Inl err, pool) \<Rightarrow> (Some err, pool, u)
                   | (Inr _, pool) \<Rightarrow>
                       (case opn of
                          Some err \<Rightarrow> (Some err, pool, u)
                        | None \<Rightarrow>
                            (case send (zero_ReqResp\<lparr>rr_Entry := Some lst\<rparr>) u of
                               (Some err, u) \<Rightarrow> (Some err, pool, u)
                             | (None, u) \<Rightarrow>
                                 (case reply u of
                                    Inl err \<Rightarrow> (Some (parse err), pool, u)
                                  | Inr preamble \<Rightarrow>
                                      (let seek = (case rr_Entry preamble of
                                                     None \<Rightarrow> None
                                                   | Some e \<Rightarrow> Entry_Hash (hasher n) e)
                                       in case Keylog_Iter L keylog seek
                                                 (\<lambda>eid entry (s, u).
                                                    case send (zero_ReqResp\<lparr>rr_ID := eid, rr_Entry := Some entry\<rparr>) u of
                                                      (err, u) \<Rightarrow> (err, s, u)) (h_store n, u) of
                                            (err, _, u) \<Rightarrow>
                                              (if close_err \<noteq> None \<and> err = None then close_err else err, pool, u))))))))"

end
