(* ===== verification/Log_Transfer.thy ===== *)
theory Log_Transfer
  imports Net
begin

section \<open>Transfer of keylogs between nodes\<close>

text \<open>
  What a keylog stream carries, and what pulling or pushing a keylog does to the log of the
  node that receives it.
\<close>

subsection \<open>What is streamed\<close>

text \<open>The entries of a log from the one with the id \<open>seek\<close> on; all of them when it is nil.\<close>

definition from_seek :: "hash_fn \<Rightarrow> bytes \<Rightarrow> Entry list \<Rightarrow> Entry list option" where
  "from_seek H seek es =
     (if seek = None then Some es
      else if els seek \<in> (\<lambda>e. els (Entry_Hash H e)) ` set es
      then Some (dropWhile (\<lambda>e. els (Entry_Hash H e) \<noteq> els seek) es) else None)"

lemma mem_log_index:
  assumes "mem_good H U s" and "good_hash H U" and "mem_logs s (els key) = Some es"
  obtains h where "LogStore_GetKey (mem_log H) key s = Inr h"
    "mem_lookup (ls_index s) (els key) = Some h"
    "map (Entry_Hash H) es = idx_Entries (is_heap (ls_index s) h)"
    "\<And>e. e \<in> set es \<Longrightarrow> mem_contents (ls_entries s) (els (Entry_Hash H e)) = Some e \<and> els (Key e) = els key"
    "distinct (map (Entry_Hash H) es)" "set es \<subseteq> U"
    "es \<noteq> [] \<Longrightarrow> links None (hd es)"
proof -
  let ?C = "mem_contents (ls_entries s)"
  obtain h where h: "mem_lookup (ls_index s) (els key) = Some h"
    "es = map (\<lambda>i. the (?C (els i))) (idx_Entries (is_heap (ls_index s) h))"
    using assms(3) by (auto simp: mem_logs_def abs_logs_def index_view_def)
  let ?ids = "idx_Entries (is_heap (ls_index s) h)"
  have V: "mem_view (ls_index s) (els key) = Some (is_heap (ls_index s) h)" using h by simp
  have lo: "log_ok H U ?C (mem_view (ls_index s))" using assms(1) by (simp add: mem_good_def)
  note D = log_okD [OF lo V]
  have at: "\<exists>e. ?C (els i) = Some e \<and> Entry_Hash H e = i \<and> els (Key e) = els key" if "i \<in> set ?ids" for i
    using chained_memD [OF D(4) that] by auto
  have ids: "map (Entry_Hash H) es = ?ids"
  proof -
    have "map (Entry_Hash H) es = map (\<lambda>i. i) ?ids"
      unfolding h(2) map_map by (rule map_cong [OF refl]) (use at in fastforce)
    then show ?thesis by simp
  qed
  have C: "?C (els (Entry_Hash H e)) = Some e \<and> els (Key e) = els key" if e: "e \<in> set es" for e
  proof -
    obtain i where i: "i \<in> set ?ids" "e = the (?C (els i))" using e unfolding h(2) by auto
    with at [OF i(1)] show ?thesis by auto
  qed
  have "?C x = Some e \<Longrightarrow> e \<in> U" for x e using D(1) by (auto simp: ran_def)
  then have "set es \<subseteq> U" using C by blast
  moreover have "distinct (map (Entry_Hash H) es)"
    unfolding ids by (rule chained_distinct [OF good_hash_ok [OF assms(2)] _ D(4)])
      (use D(1) assms(2) in \<open>auto simp: good_hash_def\<close>)
  moreover have "links None (hd es)" if ne: "es \<noteq> []"
  proof -
    obtain i js where js: "?ids = i # js" using ne h(2) by (cases ?ids) auto
    then show ?thesis using D(4) h(2) by (auto split: option.splits)
  qed
  moreover have "LogStore_GetKey (mem_log H) key s = Inr h"
    using h(1) by (simp add: LogStore_GetKey_def mem_index_ops InMemIndexStore_GetKey_def)
  ultimately show thesis using that h(1) ids C by blast
qed

lemma mem_log_facts:
  assumes "mem_good H U s" and "good_hash H U" and "mem_logs s k = Some es"
  shows "distinct (map (Entry_Hash H) es)" and "set es \<subseteq> U" and "e \<in> set es \<Longrightarrow> els (Key e) = k"
proof -
  have k: "mem_logs s (els (Some k)) = Some es" using assms(3) by simp
  obtain h where "distinct (map (Entry_Hash H) es)" "set es \<subseteq> U"
    "\<And>e. e \<in> set es \<Longrightarrow> mem_contents (ls_entries s) (els (Entry_Hash H e)) = Some e \<and> els (Key e) = els (Some k)"
    by (rule mem_log_index [OF assms(1,2) k]) blast
  then show "distinct (map (Entry_Hash H) es)" and "set es \<subseteq> U" and "e \<in> set es \<Longrightarrow> els (Key e) = k"
    by simp_all
qed

lemma seek_from_map:
  "seek_from seek (map f es) = map_option (map f)
    (if els seek \<in> (\<lambda>e. els (f e)) ` set es then Some (dropWhile (\<lambda>e. els (f e) \<noteq> els seek) es) else None)"
  by (induction es) auto

lemma for_each_entries:
  assumes "\<And>e. e \<in> set es \<Longrightarrow> mem_contents (ls_entries s) (els (Entry_Hash H e)) = Some e"
  shows "for_each (\<lambda>eid su. case ES_Get mem_entries eid (ls_entries (fst su)) of
            Inl er \<Rightarrow> (Some er, su)
          | Inr entry \<Rightarrow> (case su of (s, u) \<Rightarrow> case send (mk eid entry) u of (r, u) \<Rightarrow> (r, s, u)))
      (map (Entry_Hash H) es) (s, u) =
    (case for_each (\<lambda>e u. send (mk (Entry_Hash H e) e) u) es u of (r, u) \<Rightarrow> (r, s, u))"
  using assms
proof (induction es arbitrary: u)
  case (Cons e es)
  have g: "ES_Get mem_entries (Entry_Hash H e) (ls_entries s) = Inr e"
    using Cons.prems [of e] by (simp add: mem_entries_def InMemEntryStore_Get_def)
  have "for_each (\<lambda>eid su. case ES_Get mem_entries eid (ls_entries (fst su)) of
            Inl er \<Rightarrow> (Some er, su)
          | Inr entry \<Rightarrow> (case su of (s, u) \<Rightarrow> case send (mk eid entry) u of (r, u) \<Rightarrow> (r, s, u)))
      (map (Entry_Hash H) es) (s, u') =
    (case for_each (\<lambda>e u. send (mk (Entry_Hash H e) e) u) es u' of (r, u) \<Rightarrow> (r, s, u))" for u'
    using Cons by simp
  then show ?case by (simp add: g split: prod.splits option.splits)
qed simp

lemma Keylog_Iter_entries:
  assumes "mem_good H U s" and "good_hash H U" and "mem_logs s (els key) = Some es"
    and "LogStore_GetKey (mem_log H) key s = Inr kl"
  shows "Keylog_Iter (mem_log H) kl seek
      (\<lambda>eid entry (s, u). case send (mk eid entry) u of (r, u) \<Rightarrow> (r, s, u)) (s, u) =
    (case from_seek H seek es of
       None \<Rightarrow> (Some ErrEntryNotFound, s, u)
     | Some xs \<Rightarrow> (case for_each (\<lambda>e u. send (mk (Entry_Hash H e) e) u) xs u of (r, u) \<Rightarrow> (r, s, u)))"
proof -
  obtain h where h: "LogStore_GetKey (mem_log H) key s = Inr h"
    "map (Entry_Hash H) es = idx_Entries (is_heap (ls_index s) h)"
    "\<And>e. e \<in> set es \<Longrightarrow> mem_contents (ls_entries s) (els (Entry_Hash H e)) = Some e \<and> els (Key e) = els key"
    using mem_log_index [OF assms(1-3)] by metis
  have kl: "kl = h" using h(1) assms(4) by simp
  have vis: "KI_visits mem_keylog_index h seek (ls_index s) =
      (case from_seek H seek es of None \<Rightarrow> Inl ErrEntryNotFound | Some xs \<Rightarrow> Inr (map (Entry_Hash H) xs))"
    using seek_from_map [of seek "Entry_Hash H" es]
    by (simp add: mem_keylog_index_def idx_visits_def from_seek_def h(2) [symmetric])
  show ?thesis
  proof (cases "from_seek H seek es")
    case None
    then show ?thesis by (simp add: Keylog_Iter_def kl vis)
  next
    case (Some xs)
    then have "set xs \<subseteq> set es" by (auto simp: from_seek_def dest: set_dropWhileD split: if_splits)
    then have C: "mem_contents (ls_entries s) (els (Entry_Hash H e)) = Some e" if "e \<in> set xs" for e
      using that h(3) by blast
    from for_each_entries [where mk = mk and send = send, OF C] Some show ?thesis
      by (simp add: Keylog_Iter_def kl vis)
  qed
qed

text \<open>The messages of a stream, when sending them succeeds.\<close>

definition entry_msg :: "hash_fn \<Rightarrow> Entry \<Rightarrow> ReqResp" where
  "entry_msg H e = zero_ReqResp\<lparr>rr_ID := Entry_Hash H e, rr_Entry := Some e\<rparr>"

lemma for_each_collect: "for_each (\<lambda>e u. (None, u @ [f e])) xs u = (None, u @ map f xs)"
  by (induction xs arbitrary: u) auto

lemma PullKeylogRPC_stream:
  assumes "mem_good (hasher m) U (h_store m)" and "good_hash (hasher m) U"
    and "mem_logs (h_store m) (els (Key ent)) = Some es" and "els (Key ent) \<noteq> []"
    and "rr_Entry req = Some ent"
  shows "PullKeylogRPC (\<lambda>msg u. (None, u @ [msg])) (Inr req) m u =
    (case from_seek (hasher m) (rr_ID req) es of
       None \<Rightarrow> (Some ErrEntryNotFound, u)
     | Some xs \<Rightarrow> (None, u @ map (entry_msg (hasher m)) xs))"
proof -
  obtain h where h: "LogStore_GetKey (hlog_log m) (Key ent) (h_store m) = Inr h"
    using mem_log_index [OF assms(1-3)] by metis
  have key: "\<not> no_key (rr_Entry req)" using assms(4,5) by (cases "Key ent") (auto simp: no_key_def)
  have mk: "(\<lambda>eid entry. zero_ReqResp\<lparr>rr_Entry := Some entry, rr_ID := eid\<rparr>) (Entry_Hash (hasher m) e) e = entry_msg (hasher m) e" for e
    by (simp add: entry_msg_def zero_ReqResp_def)
  note it = Keylog_Iter_entries [where mk = "\<lambda>eid entry. zero_ReqResp\<lparr>rr_Entry := Some entry, rr_ID := eid\<rparr>"
      and send = "\<lambda>msg u. (None, u @ [msg])", OF assms(1-3) h]
  show ?thesis
    using key assms(5) h it [of "rr_ID req" u] mk
    by (simp add: PullKeylogRPC_def for_each_collect split: option.splits)
qed

subsection \<open>Appending what was streamed\<close>

lemma hlog_append_as_replay:
  "hlog_append now eid e n =
    (case LogStore_AppendEntry (hlog_log n) e (h_store n) of
       (Some err, s) \<Rightarrow> Ret (None, Some err) (n\<lparr>h_store := s\<rparr>)
     | (None, s) \<Rightarrow> bind (fsm_replay now (eid, e)) (\<lambda>_. Ret (Some (h_nfutures n), None)) (n\<lparr>h_store := s\<rparr>))"
  by (simp add: hlog_append_def fsm_replay_def new_future_def bind_def split: prod.split option.split)

lemma hlog_append_effect:
  assumes I: "base_inv S n" and e: "e \<in> su_entries S"
    and es: "mem_logs (h_store n) (els (Key e)) = Some es"
  shows "\<not> accepts (su_hash S) es e \<Longrightarrow>
      \<exists>n'. hlog_append now eid e n = Ret (None, Some ErrPreviousHash) n' \<and> base_inv S n' \<and>
        mem_logs (h_store n') = mem_logs (h_store n) \<and> queued n' = queued n \<and> applyCh n' = applyCh n \<and>
        h_nfutures n' = h_nfutures n"
    and "accepts (su_hash S) es e \<Longrightarrow> length (buf (applyCh n)) < cap (applyCh n) \<Longrightarrow>
      \<exists>n'. hlog_append now eid e n = Ret (Some (h_nfutures n), None) n' \<and> base_inv S n' \<and>
        mem_logs (h_store n') = (mem_logs (h_store n))(els (Key e) \<mapsto> es @ [e]) \<and>
        queued n' = queued n @ [(eid, e)] \<and> cap (applyCh n') = cap (applyCh n) \<and>
        fe_Entry (h_futures n' (h_nfutures n)) = e"
proof -
  have I': "hasher n = su_hash S" "good_hash (su_hash S) (su_entries S)"
    "mem_good (su_hash S) (su_entries S) (h_store n)" "fsm_ok n"
    using I by (simp_all add: base_inv_def)
  obtain r s where a: "LogStore_AppendEntry (mem_log (su_hash S)) e (h_store n) = (r, s)" by (metis prod.collapse)
  note ap = mem_AppendEntry [OF I'(2,3) e, unfolded a fst_conv snd_conv]
  show "\<exists>n'. hlog_append now eid e n = Ret (None, Some ErrPreviousHash) n' \<and> base_inv S n' \<and>
        mem_logs (h_store n') = mem_logs (h_store n) \<and> queued n' = queued n \<and> applyCh n' = applyCh n \<and>
        h_nfutures n' = h_nfutures n"
    if "\<not> accepts (su_hash S) es e"
  proof -
    have "r = Some ErrPreviousHash" "mem_logs s = mem_logs (h_store n)"
      using ap(2) es that by (simp_all add: spec_AppendEntry_def)
    then show ?thesis
      using a I' ap(1) by (simp add: hlog_append_def base_inv_def queued_def fsm_ok_def)
  qed
  assume acc: "accepts (su_hash S) es e" and room: "length (buf (applyCh n)) < cap (applyCh n)"
  let ?n1 = "n\<lparr>h_store := s\<rparr>"
  have r: "r = None" "mem_logs s = (mem_logs (h_store n))(els (Key e) \<mapsto> es @ [e])"
    using ap(2) es acc by (simp_all add: spec_AppendEntry_def)
  have n1: "fsm_ok ?n1" "\<forall>r\<in>set (buf (applyCh ?n1)). r < h_nfutures ?n1"
    using I'(4) by (simp_all add: fsm_ok_def)
  obtain n' where n': "fsm_replay now (eid, e) ?n1 = Ret () n'" "h_store n' = s" "hasher n' = hasher n"
    "fe_Entry (h_futures n' (h_nfutures n)) = e"
    using room n1(1) by (simp add: fsm_replay_def new_future_def fsm_apply_def Let_def on_defs zoom_def
        chan_send_def fsm_ok_def)
  note eff = fsm_replay_effect [OF n1 n'(1)]
  have "hlog_append now eid e n = Ret (Some (h_nfutures n), None) n'"
    unfolding hlog_append_as_replay using a r(1) I'(1) n'(1) by (simp add: bind_def)
  moreover have "base_inv S n'"
    using I' n' eff(1) ap(1) by (simp add: base_inv_def)
  ultimately show "\<exists>n'. hlog_append now eid e n = Ret (Some (h_nfutures n), None) n' \<and> base_inv S n' \<and>
        mem_logs (h_store n') = (mem_logs (h_store n))(els (Key e) \<mapsto> es @ [e]) \<and>
        queued n' = queued n @ [(eid, e)] \<and> cap (applyCh n') = cap (applyCh n) \<and>
        fe_Entry (h_futures n' (h_nfutures n)) = e"
    using n' r(2) eff(2,4) by (auto simp: queued_def)
qed

text \<open>The entries of a log follow each other.\<close>

lemma log_accepts:
  assumes "mem_good H U s" and "good_hash H U" and "mem_logs s k = Some es" and "i < length es"
  shows "accepts H (take i es) (es ! i)" and "els (Key (es ! i)) = k"
proof -
  note c = mem_good_chain [OF assms(2,1,3,4)]
  then show "els (Key (es ! i)) = k" by blast
  show "accepts H (take i es) (es ! i)"
  proof (cases i)
    case 0
    with c show ?thesis by (simp add: accepts_def)
  next
    case (Suc j)
    then have "last (take i es) = es ! j" using assms(4) by (simp add: take_Suc_conv_app_nth)
    with c Suc assms(4) show ?thesis by (auto simp: accepts_def)
  qed
qed

lemma last_refused:
  assumes "mem_good H U s" and "good_hash H U" and "mem_logs s k = Some es" and "es \<noteq> []"
  shows "\<not> accepts H es (last es)"
proof
  assume a: "accepts H es (last es)"
  let ?j = "length es - 1"
  have j: "?j < length es" "es ! ?j = last es" using assms(4) by (simp_all add: last_conv_nth)
  note h = mem_log_facts(1,2) [OF assms(1-3)]
  note c = mem_good_chain [OF assms(2,1,3) j(1)]
  have self: "els (Entry_Hash H (last es)) = els (Previous (last es))" using a assms(4) by (simp add: accepts_def)
  show False
  proof (cases ?j)
    case 0
    then have "isZeroBytes (Previous (last es))" using c j by simp
    then have "isZeroBytes (Entry_Hash H (last es))" using isZeroBytes_cong [OF self] by simp
    moreover have "last es \<in> U" using h(2) assms(4) by auto
    ultimately show False using good_hash_nonzero [OF assms(2)] by blast
  next
    case (Suc i)
    then have "els (Entry_Hash H (es ! ?j)) = els (Entry_Hash H (es ! i))" using c j self by simp
    then have "Entry_Hash H (es ! ?j) = Entry_Hash H (es ! i)"
      using Entry_Hash_eq_iff_els [OF good_hash_ok [OF assms(2)]] by blast
    then have "map (Entry_Hash H) es ! ?j = map (Entry_Hash H) es ! i" using j(1) Suc by simp
    with h(1) j(1) Suc show False by (simp add: nth_eq_iff_index_eq del: nth_map)
  qed
qed

lemma from_seek_last:
  assumes "mem_good H U s" and "good_hash H U" and "mem_logs s k = Some (pre @ e # rest)"
  shows "from_seek H (Entry_Hash H e) (pre @ e # rest) = Some (e # rest)"
proof -
  note h = mem_log_facts(1) [OF assms]
  have "els (Entry_Hash H x) \<noteq> els (Entry_Hash H e)" if "x \<in> set pre" for x
  proof
    assume "els (Entry_Hash H x) = els (Entry_Hash H e)"
    then have "Entry_Hash H x = Entry_Hash H e"
      using Entry_Hash_eq_iff_els [OF good_hash_ok [OF assms(2)]] by blast
    with h that show False by (auto simp: image_iff)
  qed
  moreover have "Entry_Hash H e \<noteq> None" using Entry_Hash_not_nil [OF good_hash_ok [OF assms(2)]] by blast
  ultimately show ?thesis by (auto simp: from_seek_def)
qed

lemma pull_loop_appends:
  assumes "base_inv S n" and "mem_logs (h_store n) k = Some pre" and "set rest \<subseteq> su_entries S"
    and "\<And>i. i < length rest \<Longrightarrow> accepts (su_hash S) (pre @ take i rest) (rest ! i) \<and> els (Key (rest ! i)) = k"
    and "length (buf (applyCh n)) + length rest \<le> cap (applyCh n)"
  shows "\<exists>f' n'. pull_loop now (map (entry_msg (su_hash S)) rest) f n = Ret f' n' \<and> base_inv S n' \<and>
    mem_logs (h_store n') = (mem_logs (h_store n))(k \<mapsto> pre @ rest) \<and>
    queued n' = queued n @ map (\<lambda>e. (Entry_Hash (su_hash S) e, e)) rest \<and> cap (applyCh n') = cap (applyCh n) \<and>
    (if rest = [] then f' = f else \<exists>g. f' = Some g \<and> fe_Entry (h_futures n' g) = last rest)"
  using assms
proof (induction rest arbitrary: n pre f)
  case Nil
  then show ?case by (auto simp: fun_upd_idem)
next
  case (Cons e rest)
  have e: "e \<in> su_entries S" "accepts (su_hash S) pre e" "els (Key e) = k"
    using Cons.prems(3) Cons.prems(4) [of 0] by simp_all
  have room: "length (buf (applyCh n)) < cap (applyCh n)" using Cons.prems(5) by simp
  obtain n1 where n1: "hlog_append now (Entry_Hash (su_hash S) e) e n = Ret (Some (h_nfutures n), None) n1" "base_inv S n1"
    "mem_logs (h_store n1) = (mem_logs (h_store n))(k \<mapsto> pre @ [e])"
    "queued n1 = queued n @ [(Entry_Hash (su_hash S) e, e)]" "cap (applyCh n1) = cap (applyCh n)"
    "fe_Entry (h_futures n1 (h_nfutures n)) = e"
    using hlog_append_effect(2) [where now = now and es = pre and eid = "Entry_Hash (su_hash S) e",
        OF Cons.prems(1) e(1) _ e(2) room] Cons.prems(2) e(3)
    by auto
  have q: "length (queued n1) = Suc (length (queued n))" using n1(4) by simp
  then have len: "length (buf (applyCh n1)) = Suc (length (buf (applyCh n)))" by (simp add: queued_def)
  have rest: "accepts (su_hash S) ((pre @ [e]) @ take i rest) (rest ! i) \<and> els (Key (rest ! i)) = k" if "i < length rest" for i
    using Cons.prems(4) [of "Suc i"] that by simp
  have n1k: "mem_logs (h_store n1) k = Some (pre @ [e])" using n1(3) by simp
  have sub: "set rest \<subseteq> su_entries S" using Cons.prems(3) by simp
  have len1: "length (buf (applyCh n1)) + length rest \<le> cap (applyCh n1)" using len n1(5) Cons.prems(5) by simp
  obtain f' n' where n': "pull_loop now (map (entry_msg (su_hash S)) rest) (Some (h_nfutures n)) n1 = Ret f' n'" "base_inv S n'"
    "mem_logs (h_store n') = (mem_logs (h_store n1))(k \<mapsto> (pre @ [e]) @ rest)"
    "queued n' = queued n1 @ map (\<lambda>e. (Entry_Hash (su_hash S) e, e)) rest" "cap (applyCh n') = cap (applyCh n1)"
    "if rest = [] then f' = Some (h_nfutures n) else \<exists>g. f' = Some g \<and> fe_Entry (h_futures n' g) = last rest"
    using Cons.IH [OF n1(2) n1k sub rest len1, of "Some (h_nfutures n)"] by blast
  have "pull_loop now (map (entry_msg (su_hash S)) (e # rest)) f n = Ret f' n'"
    using n1(1) n'(1) by (simp add: entry_msg_def)
  moreover have "\<exists>g. f' = Some g \<and> fe_Entry (h_futures n' g) = last (e # rest)"
  proof (cases "rest = []")
    case True
    then have "n' = n1" using n'(1) by simp
    with True n'(6) n1(6) show ?thesis by simp
  qed (use n'(6) in simp)
  ultimately show ?case using n' n1(3,4,5) by auto
qed

text \<open>What a healthy stream to a node carries.\<close>

definition serve_pull :: "('a, 'd, 'c) Node \<Rightarrow> stream" where
  "serve_pull m =
     \<lparr>st_open = None, st_send = (\<lambda>_. None),
      st_recv = (\<lambda>req. case PullKeylogRPC (\<lambda>msg u. (None, u @ [msg])) (Inr req) m [] of (err, msgs) \<Rightarrow> (msgs, err))\<rparr>"

text \<open>What \<open>PullKeylog\<close> is asked to start at: the last entry, or only the key.\<close>

definition pull_from :: "bytes \<Rightarrow> Entry list \<Rightarrow> Entry" where
  "pull_from key log = (if log = [] then zero_Entry\<lparr>Key := key\<rparr> else last log)"

lemma hlog_append_conf: "h_conf (after (hlog_append now eid e n)) = h_conf n"
  by (auto simp: hlog_append_def fsm_apply_def new_future_def Let_def on_defs zoom_def chan_send_def bind_def
      split: prod.split option.split)

lemma pull_loop_conf: "h_conf (after (pull_loop now msgs f n)) = h_conf n"
proof -
  have app: "keeps (\<lambda>n. h_conf n = c) (hlog_append now eid e)" for c eid e
    by (rule keepsI) (simp add: hlog_append_conf)
  have "keeps (\<lambda>n. h_conf n = c) (pull_loop now msgs f)" for c
    by (induction msgs arbitrary: f) (auto intro!: keeps_bind app split: option.split)
  then show ?thesis by (rule keepsD) simp
qed

lemma PullKeylog_conf: "h_conf (after (PullKeylog_stream now parse st e n)) = h_conf n"
proof -
  have "h_conf (after (bind (pull_loop now msgs None) (\<lambda>f. Ret (g f)) n)) = h_conf n" for msgs and g :: "nat option \<Rightarrow> 'r"
    using pull_loop_conf [of now msgs None n] by (cases "pull_loop now msgs None n") (simp_all add: bind_def)
  then show ?thesis by (simp add: PullKeylog_stream_def Let_def split: option.split prod.split)
qed

lemma PullKeylog_converges:
  fixes n :: "('a, 'd, 'c) Node" and m :: "('b, 'e, 'f) Node"
  assumes "base_inv S n" and "hasher m = su_hash S" and "mem_good (su_hash S) (su_entries S) (h_store m)"
    and "els key \<noteq> []" and "mem_logs (h_store n) (els key) = Some pre"
    and "mem_logs (h_store m) (els key) = Some (pre @ rest)"
    and "length (buf (applyCh n)) + length rest \<le> cap (applyCh n)"
  shows "\<exists>f n'. PullKeylog_stream now parse (serve_pull m) (pull_from key pre) n = Ret (f, None) n' \<and> base_inv S n' \<and>
    mem_logs (h_store n') = (mem_logs (h_store n))(els key \<mapsto> pre @ rest) \<and>
    queued n' = queued n @ map (\<lambda>e. (Entry_Hash (su_hash S) e, e)) rest \<and>
    cap (applyCh n') = cap (applyCh n) \<and> h_conf n' = h_conf n \<and>
    (rest \<noteq> [] \<longrightarrow> (\<exists>g. f = Some g \<and> fe_Entry (h_futures n' g) = last rest))"
proof -
  let ?H = "su_hash S"
  have I: "hasher n = ?H" "good_hash ?H (su_entries S)" "mem_good ?H (su_entries S) (h_store n)"
    using assms(1) by (simp_all add: base_inv_def)
  have U: "set (pre @ rest) \<subseteq> su_entries S" using mem_log_facts(2) [OF assms(3) I(2) assms(6)] .
  have acc: "accepts ?H (pre @ take i rest) (rest ! i) \<and> els (Key (rest ! i)) = els key" if "i < length rest" for i
    using log_accepts [OF assms(3) I(2) assms(6), of "length pre + i"] that by (simp add: nth_append)
  have loop: "\<exists>f' n'. pull_loop now (map (entry_msg ?H) rest) f n1 = Ret f' n' \<and> base_inv S n' \<and>
    mem_logs (h_store n') = (mem_logs (h_store n))(els key \<mapsto> pre @ rest) \<and>
    queued n' = queued n @ map (\<lambda>e. (Entry_Hash ?H e, e)) rest \<and> cap (applyCh n') = cap (applyCh n) \<and>
    (if rest = [] then f' = f else \<exists>g. f' = Some g \<and> fe_Entry (h_futures n' g) = last rest)"
    if "base_inv S n1" "mem_logs (h_store n1) = mem_logs (h_store n)" "queued n1 = queued n" "applyCh n1 = applyCh n"
    for n1 :: "('a, 'd, 'c) Node" and f
  proof -
    have a: "mem_logs (h_store n1) (els key) = Some pre" "set rest \<subseteq> su_entries S"
      "length (buf (applyCh n1)) + length rest \<le> cap (applyCh n1)"
      using that(2-4) assms(5,7) U by simp_all
    from pull_loop_appends [where now = now and f = f, OF that(1) a(1,2) acc a(3)] show ?thesis
      unfolding that(2-4) by blast
  qed
  let ?req = "pull_request ?H (pull_from key pre)"
  have ent: "rr_Entry ?req = Some (pull_from key pre)" by (simp add: pull_request_def Let_def)
  have k: "els (Key (pull_from key pre)) = els key"
  proof (cases "pre = []")
    case False
    then show ?thesis using mem_log_facts(3) [OF I(3,2) assms(5)] by (simp add: pull_from_def)
  qed (simp add: pull_from_def)
  have serve: "st_recv (serve_pull m) ?req = (case from_seek ?H (rr_ID ?req) (pre @ rest) of
      None \<Rightarrow> ([], Some ErrEntryNotFound) | Some xs \<Rightarrow> (map (entry_msg ?H) xs, None))"
    using PullKeylogRPC_stream [of m "su_entries S" "pull_from key pre" "pre @ rest" ?req "[]"] assms(2-4,6) I(2) k ent
    by (simp add: serve_pull_def split: option.split)
  have pull: "PullKeylog_stream now parse (serve_pull m) (pull_from key pre) n =
      (case st_recv (serve_pull m) ?req of (msgs, fin) \<Rightarrow> bind (pull_loop now msgs None) (\<lambda>f. Ret (f, map_option parse fin)) n)"
    by (simp add: PullKeylog_stream_def I(1) serve_pull_def Let_def)
  have conf: "h_conf n' = h_conf n" if "PullKeylog_stream now parse (serve_pull m) (pull_from key pre) n = Ret x n'" for x n'
    using PullKeylog_conf [of now parse "serve_pull m" "pull_from key pre" n] that by simp
  show ?thesis
  proof (cases "from_seek ?H (rr_ID ?req) (pre @ rest) = Some rest \<and> pre = []")
    case True
    obtain f' n' where n': "pull_loop now (map (entry_msg ?H) rest) None n = Ret f' n'" "base_inv S n'"
      "mem_logs (h_store n') = (mem_logs (h_store n))(els key \<mapsto> pre @ rest)"
      "queued n' = queued n @ map (\<lambda>e. (Entry_Hash ?H e, e)) rest" "cap (applyCh n') = cap (applyCh n)"
      "if rest = [] then f' = None else \<exists>g. f' = Some g \<and> fe_Entry (h_futures n' g) = last rest"
      using loop [OF assms(1) refl refl refl, of None] by blast
    have "PullKeylog_stream now parse (serve_pull m) (pull_from key pre) n = Ret (f', None) n'"
      unfolding pull serve conjunct1 [OF True] using n'(1) by (simp add: bind_def)
    with n' conf show ?thesis by (auto split: if_splits)
  next
    case False
    have ne: "pre \<noteq> []"
    proof
      assume "pre = []"
      with False show False by (simp add: pull_request_def pull_from_def zero_Entry_def zero_ReqResp_def from_seek_def)
    qed
    then have pre: "pre = butlast pre @ [last pre]" by simp
    have id: "rr_ID ?req = (if Previous (last pre) = None then None else Entry_Hash ?H (last pre))"
      using ne by (simp add: pull_request_def pull_from_def zero_ReqResp_def Let_def)
    have one: "butlast pre = []" if nil: "Previous (last pre) = None"
    proof (rule ccontr)
      assume "butlast pre \<noteq> []"
      then have j: "length pre - 1 \<noteq> 0" "length pre - 1 < length pre" using ne by (cases pre; auto)+
      from mem_good_chain [OF I(2,3) assms(5) j(2)] j(1) ne nil
      have "els (Entry_Hash ?H (pre ! (length pre - 1 - 1))) = []" by (simp add: last_conv_nth)
      then show False
        using length_Entry_Hash [OF good_hash_ok [OF I(2)]] good_hash_ok [OF I(2)]
        by (metis hash_fn_ok_def length_0_conv not_less_zero)
    qed
    have seek: "from_seek ?H (rr_ID ?req) (pre @ rest) = Some (last pre # rest)"
    proof (cases "Previous (last pre) = None")
      case True
      then have "pre = [last pre]" using pre one by simp
      then show ?thesis using True id by (metis from_seek_def append_Cons append_Nil)
    next
      case False
      have "mem_logs (h_store m) (els key) = Some (butlast pre @ last pre # rest)"
        using assms(6) pre by (metis append.assoc append_Cons append_Nil)
      from from_seek_last [OF assms(3) I(2) this] pre False id show ?thesis
        by (metis append.assoc append_Cons append_Nil)
    qed
    have l: "last pre \<in> su_entries S" "els (Key (last pre)) = els key"
      using U ne mem_log_facts(3) [OF I(3,2) assms(5)] by auto
    obtain n1 where n1: "hlog_append now (Entry_Hash ?H (last pre)) (last pre) n = Ret (None, Some ErrPreviousHash) n1"
      "base_inv S n1" "mem_logs (h_store n1) = mem_logs (h_store n)" "queued n1 = queued n" "applyCh n1 = applyCh n"
      using hlog_append_effect(1) [OF assms(1) l(1) _ last_refused [OF I(3,2) assms(5) ne]] assms(5) l(2) by force
    obtain f' n' where n': "pull_loop now (map (entry_msg ?H) rest) None n1 = Ret f' n'" "base_inv S n'"
      "mem_logs (h_store n') = (mem_logs (h_store n))(els key \<mapsto> pre @ rest)"
      "queued n' = queued n @ map (\<lambda>e. (Entry_Hash ?H e, e)) rest" "cap (applyCh n') = cap (applyCh n)"
      "if rest = [] then f' = None else \<exists>g. f' = Some g \<and> fe_Entry (h_futures n' g) = last rest"
      using loop [OF n1(2-5), of None] by blast
    have "pull_loop now (map (entry_msg ?H) (last pre # rest)) None n = Ret f' n'"
      using n1(1) n'(1) by (simp add: entry_msg_def)
    then have "PullKeylog_stream now parse (serve_pull m) (pull_from key pre) n = Ret (f', None) n'"
      unfolding pull serve seek by (simp add: bind_def)
    with n' conf show ?thesis by (auto split: if_splits)
  qed
qed


text \<open>
  C14: Pulling a keylog catches up. When the log of the local node is a prefix of the log of a
  healthy remote node, also the empty one, and the queue has room for the rest, \<open>PullKeylog\<close>
  from the local last entry returns without an error; the local log is then the remote one,
  what was missing is queued for the application in order, and the future returned, if
  anything was missing, is the one of the last entry.
\<close>

theorem pull_catches_up:
  fixes t :: "('a, 'd, 'c) NetTransport" and m :: "('b, 'e, 'f) Node"
  assumes "base_inv S (t_hlog t)" and "hasher m = su_hash S"
    and "mem_good (su_hash S) (su_entries S) (h_store m)" and "els key \<noteq> []"
    and "mem_logs (h_store (t_hlog t)) (els key) = Some pre"
    and "mem_logs (h_store m) (els key) = Some (pre @ rest)"
    and "length (buf (applyCh (t_hlog t))) + length rest \<le> cap (applyCh (t_hlog t))"
    and "getConn now dial host (t_pool t) = (Inr c, pool)" and "conns host = serve_pull m"
  shows "\<exists>f t'. NetTransport_PullKeylog now dial parse conns host (pull_from key pre) t = Ret (f, None) t' \<and>
    mem_logs (h_store (t_hlog t')) = (mem_logs (h_store (t_hlog t)))(els key \<mapsto> pre @ rest) \<and>
    queued (t_hlog t') = queued (t_hlog t) @ map (\<lambda>e. (Entry_Hash (su_hash S) e, e)) rest \<and>
    (rest \<noteq> [] \<longrightarrow> (\<exists>g. f = Some g \<and> fe_Entry (h_futures (t_hlog t') g) = last rest))"
proof -
  obtain f n' where "PullKeylog_stream now parse (serve_pull m) (pull_from key pre) (t_hlog t) = Ret (f, None) n'"
    "mem_logs (h_store n') = (mem_logs (h_store (t_hlog t)))(els key \<mapsto> pre @ rest)"
    "queued n' = queued (t_hlog t) @ map (\<lambda>e. (Entry_Hash (su_hash S) e, e)) rest"
    "rest \<noteq> [] \<longrightarrow> (\<exists>g. f = Some g \<and> fe_Entry (h_futures n' g) = last rest)"
    using PullKeylog_converges [OF assms(1-7), of now parse] by blast
  with assms(8,9) show ?thesis
    by (simp add: NetTransport_PullKeylog_def zoom_def)
qed

text \<open>
  C15: A diverged keylog is not healed by pulling. When the last entry of the local log is not
  in the log of the remote node, the remote answers \<open>ErrEntryNotFound\<close> before it sends
  anything; \<open>PullKeylog\<close> returns that error and no future, and the local node is unchanged.
\<close>

theorem pull_of_diverged_log_fails:
  fixes t :: "('a, 'd, 'c) NetTransport" and m :: "('b, 'e, 'f) Node"
  assumes "mem_good (hasher m) U (h_store m)" and "good_hash (hasher m) U" and "hasher (t_hlog t) = hasher m"
    and "els (Key entry) \<noteq> []" and "Previous entry \<noteq> None"
    and "mem_logs (h_store m) (els (Key entry)) = Some es"
    and "els (Entry_Hash (hasher m) entry) \<notin> (\<lambda>e. els (Entry_Hash (hasher m) e)) ` set es"
    and "getConn now dial host (t_pool t) = (Inr c, pool)" and "conns host = serve_pull m"
  shows "NetTransport_PullKeylog now dial parse conns host entry t =
    Ret (None, Some (parse ErrEntryNotFound)) (t\<lparr>t_pool := pool\<rparr>)"
proof -
  let ?req = "pull_request (hasher m) entry"
  have req: "rr_Entry ?req = Some entry" "rr_ID ?req = Entry_Hash (hasher m) entry"
    using assms(5) by (simp_all add: pull_request_def Let_def)
  have "Entry_Hash (hasher m) entry \<noteq> None" using Entry_Hash_not_nil [OF good_hash_ok [OF assms(2)]] by blast
  then have "from_seek (hasher m) (rr_ID ?req) es = None" using req(2) assms(7) by (simp add: from_seek_def)
  with PullKeylogRPC_stream [OF assms(1,2,6,4) req(1), of "[]"]
  have "st_recv (serve_pull m) ?req = ([], Some ErrEntryNotFound)" by (simp add: serve_pull_def)
  then show ?thesis
    using assms(3,8,9)
    by (cases t) (simp add: NetTransport_PullKeylog_def PullKeylog_stream_def zoom_def bind_def serve_pull_def)
qed

text \<open>
  C16: Pushing a keylog transfers nothing. The receiving node skips every message whose entry it
  does not have yet, which is just what is to be transferred: after a stream of entries
  unknown to it, \<open>PushKeylogRPC\<close> ends without an error and the node is exactly as before.
\<close>

theorem push_transfers_nothing:
  fixes n :: "('a, 'd, 'c) Node"
  assumes "\<forall>msg\<in>set msgs. InMemEntryStore_Get (rr_ID msg) (ls_entries (h_store n)) = Inl ErrEntryNotFound"
    and "rr_Entry req = Some ent" and "els (Key ent) \<noteq> []"
    and "LogStore_GetKey (hlog_log n) (Key ent) (h_store n) = Inr kl"
    and "send (zero_ReqResp\<lparr>rr_Entry := Keylog_LastEntry (hlog_log n) kl (h_store n)\<rparr>) = None"
  shows "PushKeylogRPC now (Inr req) send (msgs, None) n =
    Ret (Some (zero_ReqResp\<lparr>rr_Entry := Keylog_LastEntry (hlog_log n) kl (h_store n)\<rparr>), None) n"
proof -
  have "each (PushKeylogRPC_msg now kl) msgs n = Ret () n"
    using assms(1)
  proof (induction msgs)
    case (Cons msg msgs)
    then show ?case
      by (simp add: PushKeylogRPC_msg_def Keylog_GetEntry_def mem_entries_def bind_def)
  qed simp
  moreover have "\<not> no_key (Some ent)" using assms(3) by (cases "Key ent") (auto simp: no_key_def)
  ultimately show ?thesis
    using assms(2-5) by (simp add: PushKeylogRPC_def bind_def Let_def)
qed

text \<open>Concrete transfers: of the log of the run above to a fresh node with the key, and a push to it.\<close>

definition blank_node :: "(bytes list, unit, 64 word) Node" where
  "blank_node = demo_node\<lparr>h_store := snd (LogStore_NewKey (hlog_log demo_node) (Some [7]) (h_store demo_node))\<rparr>"

definition blank_transport :: "(bytes list, unit, 64 word) NetTransport" where
  "blank_transport = \<lparr>t_hlog = blank_node, t_pool = newOutPool 10 10\<rparr>"

lemma blank_facts:
  "mem_logs (h_store blank_node) = [[7] \<mapsto> []]" "buf (applyCh blank_node) = []" "cap (applyCh blank_node) = 16"
  "base_inv (run_setup last_byte {entry1, entry2} (\<lambda>_. 3) []) blank_node"
proof -
  have H: "Hasher demo_conf = last_byte" by (simp add: demo_conf_def DefaultConfig_def)
  have n: "h_store demo_node = mem_empty" "hasher demo_node = last_byte" "applyCh demo_node = make_chan 16"
    "h_ss demo_node = \<lparr>ss_m = Some []\<rparr>"
    by (simp_all add: demo_node_def H)
  note k = mem_NewKey [where H = last_byte and U = "{entry1, entry2}" and key = "Some [7]", OF mem_good_empty]
  show "mem_logs (h_store blank_node) = [[7] \<mapsto> []]"
    using k(2) by (simp add: blank_node_def n spec_NewKey_def)
  show "buf (applyCh blank_node) = []" "cap (applyCh blank_node) = 16" by (simp_all add: blank_node_def n)
  show "base_inv (run_setup last_byte {entry1, entry2} (\<lambda>_. 3) []) blank_node"
    using k(1) by (simp add: base_inv_def blank_node_def n fsm_ok_def mem_ss_ok_def)
qed

lemma demo_end_logs: "mem_logs (h_store demo_end) [7] = Some [entry1]"
  using demo_log by (simp add: log_of_def split: option.splits)

theorem pull_catches_up_witness:
  "\<exists>f t'. NetTransport_PullKeylog 0 (\<lambda>_. None) (\<lambda>e. e) (\<lambda>_. serve_pull demo_end) ''b'' (pull_from (Some [7]) [])
      blank_transport = Ret (f, None) t' \<and> mem_logs (h_store (t_hlog t')) [7] = Some [entry1]"
proof -
  let ?S = "run_setup last_byte {entry1, entry2} (\<lambda>_. 3) []"
  have a: "base_inv ?S (t_hlog blank_transport)" "hasher demo_end = su_hash ?S"
    "mem_good (su_hash ?S) (su_entries ?S) (h_store demo_end)" "els (Some [7 :: byte]) \<noteq> []"
    "mem_logs (h_store (t_hlog blank_transport)) (els (Some [7])) = Some []"
    "mem_logs (h_store demo_end) (els (Some [7])) = Some ([] @ [entry1])"
    "length (buf (applyCh (t_hlog blank_transport))) + length [entry1] \<le> cap (applyCh (t_hlog blank_transport))"
    by (simp_all add: blank_transport_def blank_facts demo_end_good demo_end_logs)
  have c: "getConn 0 (\<lambda>_. None) ''b'' (t_pool blank_transport) =
      (Inr 0, snd (getConn 0 (\<lambda>_. None) ''b'' (newOutPool 10 10)))"
    by (simp add: blank_transport_def getConn_def newOutPool_def)
  from pull_catches_up [where conns = "\<lambda>_. serve_pull demo_end" and parse = "\<lambda>e. e", OF a c] show ?thesis by auto
qed

theorem pull_of_diverged_log_fails_witness:
  "returned (NetTransport_PullKeylog 0 (\<lambda>_. None) (\<lambda>e. e) (\<lambda>_. serve_pull demo_end) ''b'' entry2 blank_transport)
    = Some (None, Some ErrEntryNotFound)"
proof -
  have c: "getConn 0 (\<lambda>_. None) ''b'' (t_pool blank_transport) =
      (Inr 0, snd (getConn 0 (\<lambda>_. None) ''b'' (newOutPool 10 10)))"
    by (simp add: blank_transport_def getConn_def newOutPool_def)
  have a: "mem_good (hasher demo_end) {entry1, entry2} (h_store demo_end)" "good_hash (hasher demo_end) {entry1, entry2}"
    "hasher (t_hlog blank_transport) = hasher demo_end" "els (Key entry2) \<noteq> []" "Previous entry2 \<noteq> None"
    "mem_logs (h_store demo_end) (els (Key entry2)) = Some [entry1]"
    "els (Entry_Hash (hasher demo_end) entry2) \<notin> (\<lambda>e. els (Entry_Hash (hasher demo_end) e)) ` set [entry1]"
    using blank_facts(4) by (simp_all add: demo_end_good demo_end_logs blank_transport_def base_inv_def)
  from pull_of_diverged_log_fails [where conns = "\<lambda>_. serve_pull demo_end" and parse = "\<lambda>e. e", OF a c] show ?thesis by simp
qed

theorem push_transfers_nothing_witness:
  "after (PushKeylogRPC 0 (Inr (zero_ReqResp\<lparr>rr_Entry := Some entry1\<rparr>)) (\<lambda>_. None) ([entry_msg last_byte entry1], None)
    blank_node) = blank_node"
proof -
  have e: "InMemEntryStore_Get (Some [1]) (ls_entries (h_store blank_node)) = Inl ErrEntryNotFound" by code_simp
  obtain kl where kl: "LogStore_GetKey (hlog_log blank_node) (Key entry1) (h_store blank_node) = Inr kl"
    using mem_log_index [of last_byte "{entry1, entry2}" "h_store blank_node" "Some [7]" "[]"] blank_facts(1,4)
    by (auto simp: base_inv_def)
  have m: "\<forall>msg\<in>set [entry_msg last_byte entry1]. InMemEntryStore_Get (rr_ID msg) (ls_entries (h_store blank_node)) = Inl ErrEntryNotFound"
    using e by (simp add: entry_msg_def)
  have r: "rr_Entry (zero_ReqResp\<lparr>rr_Entry := Some entry1\<rparr>) = Some entry1" "els (Key entry1) \<noteq> []" by simp_all
  from push_transfers_nothing [where send = "\<lambda>_. None" and now = 0, OF m r kl] show ?thesis by simp
qed

end
