(* ===== verification/Heal.thy ===== *)
theory Heal
  imports Log_Transfer "HOL-Library.Sublist" "HOL-Library.Multiset"
begin

section \<open>Healing and seeding (heal.go, checkLastEntryOrPull, Seed)\<close>

text \<open>
  A node that is behind takes what it misses from another host. The transport is used through
  two of its methods: \<open>remote\<close> is \<open>LastEntry\<close> and \<open>pull\<close> is \<open>PullKeylog\<close> as it acts on the
  node. Closing a keylog has no effect over the in-memory stores and is left out.
\<close>

definition checkLastEntryOrPull ::
  "(string \<Rightarrow> Entry \<Rightarrow> (('a, 'd, 'c) Node, nat option \<times> error option) call) \<Rightarrow>
   string \<Rightarrow> bytes \<Rightarrow> bytes \<Rightarrow> (('a, 'd, 'c) Node, error option) call" where
  "checkLastEntryOrPull pull host key otherLast n =
     (let fetch = (\<lambda>lst lid.
            if bytes_Compare lid otherLast \<noteq> 0
            then bind (pull host lst) (\<lambda>(_, er). Ret (mergeErrors None er))
            else Ret None);
          nothing = (zero_Entry\<lparr>Key := key\<rparr>, make_bytes (Size (hasher n)))
      in case LogStore_GetKey (hlog_log n) key (h_store n) of
           Inl err \<Rightarrow>
             if err = ErrKeyNotFound then
               (case LogStore_NewKey (hlog_log n) key (h_store n) of
                  (Inl err, s) \<Rightarrow> Ret (Some err) (n\<lparr>h_store := s\<rparr>)
                | (Inr _, s) \<Rightarrow> fetch (fst nothing) (snd nothing) (n\<lparr>h_store := s\<rparr>))
             else Ret (Some err) n
         | Inr keylog \<Rightarrow>
             (case Keylog_LastEntry (hlog_log n) keylog (h_store n) of
                None \<Rightarrow> fetch (fst nothing) (snd nothing) n
              | Some lst \<Rightarrow> fetch lst (Entry_Hash (hasher n) lst) n))"

text \<open>
  \<open>heal\<close>. The leader is asked for twice, at two moments; the second time only for a message in
  the log, which still panics when nobody has an entry then.
\<close>

definition heal ::
  "(string \<Rightarrow> bytes \<Rightarrow> error + Entry option) \<Rightarrow> (string \<Rightarrow> bytes \<Rightarrow> error + Entry option) \<Rightarrow>
   (string \<Rightarrow> Entry \<Rightarrow> (('a, 'd, 'c) Node, nat option \<times> error option) call) \<Rightarrow>
   bytes \<Rightarrow> Participant list \<Rightarrow> (('a, 'd, 'c) Node, error option) call" where
  "heal remote remote' pull key locs n =
     (case hlog_Leader remote key locs n of
        Inl err \<Rightarrow> Ret (Some err) n
      | Inr leader \<Rightarrow>
          (case KeyLeader_LastEntry leader of
             None \<Rightarrow> Panic n
           | Some None \<Rightarrow> Ret None n
           | Some (Some lle) \<Rightarrow>
               (case KeyLeader_Location leader of
                  None \<Rightarrow> Panic n
                | Some lloc \<Rightarrow>
                    if Host lloc = AdvertiseHost (h_conf n) then Ret None n
                    else bind (checkLastEntryOrPull pull (Host lloc) key (Entry_Hash (hasher n) lle))
                           (\<lambda>err. if err \<noteq> None then Ret err
                              else (\<lambda>n. case hlog_Leader remote' key locs n of
                                     Inl _ \<Rightarrow> Ret None n
                                   | Inr leader \<Rightarrow>
                                       if KeyLeader_IsConsistent leader = None then Panic n else Ret None n)) n)))"

text \<open>One turn of \<open>healKeys\<close>; errors are only logged, and false is the end of the loop.\<close>

definition healKeys_turn ::
  "(string \<Rightarrow> bytes \<Rightarrow> error + Entry option) \<Rightarrow> (string \<Rightarrow> bytes \<Rightarrow> error + Entry option) \<Rightarrow>
   (string \<Rightarrow> Entry \<Rightarrow> (('a, 'd, 'c) Node, nat option \<times> error option) call) \<Rightarrow> (('a, 'd, 'c) Node, bool) call" where
  "healKeys_turn remote remote' pull =
     bind (on_hch chan_recv) (\<lambda>msg.
       case msg of
         None \<Rightarrow> bind (zoom shutdownCh (\<lambda>c n. n\<lparr>shutdownCh := c\<rparr>) (chan_send ())) (\<lambda>_. Ret False)
       | Some req \<Rightarrow>
           (case (rr_Options req, rr_Entry req) of
              (Some opts, Some e) \<Rightarrow>
                bind (heal remote remote' pull (Key e) (peers opts)) (\<lambda>_. Ret True)
            | _ \<Rightarrow> Panic))"

text \<open>
  \<open>Seed\<close>. The workers take the seeds from a channel, in an order the scheduler picks; what a
  worker does for one seed is a step, and its errors are only logged. The stream of seeds ends
  with \<open>io.EOF\<close> (None) or an error, with which \<open>Seed\<close> returns, then without waiting for
  the workers.
\<close>

definition seed_one ::
  "(string \<Rightarrow> Entry \<Rightarrow> (('a, 'd, 'c) Node, nat option \<times> error option) call) \<Rightarrow> string \<Rightarrow> KeySeed \<Rightarrow>
   (('a, 'd, 'c) Node, unit) call" where
  "seed_one pull host seed = bind (checkLastEntryOrPull pull host (seed_Key seed) (seed_Marker seed)) (\<lambda>_. Ret ())"

definition Seed ::
  "(string \<Rightarrow> Entry \<Rightarrow> (('a, 'd, 'c) Node, nat option \<times> error option) call) \<Rightarrow>
   (KeySeed list \<Rightarrow> KeySeed list) \<Rightarrow> string \<Rightarrow> int \<Rightarrow> error + (KeySeed list \<times> error option) \<Rightarrow>
   (('a, 'd, 'c) Node, error option) call" where
  "Seed pull order existing bufsize stream =
     (case stream of
        Inl err \<Rightarrow> Ret (Some err)
      | Inr (seeds, fin) \<Rightarrow>
          if bufsize < 0 then Panic
          else bind (each (seed_one pull existing) (order seeds)) (\<lambda>_. Ret fin))"

subsection \<open>What healing relies on\<close>

text \<open>The entries of the key of a seed that a node does not have.\<close>

definition missing :: "('a, 'd, 'c) Node \<Rightarrow> logs \<Rightarrow> KeySeed \<Rightarrow> nat" where
  "missing n logs sd = length (the (logs (els (seed_Key sd)))) - length (log_of n (els (seed_Key sd)))"

text \<open>
  The interface of the transport as healing uses it. \<open>rlogs host\<close> are the logs a remote host
  promises to serve: \<open>remote\<close> gives their last entries, and a pull from the end of a
  local log that is a prefix of the remote one makes it the remote one.
\<close>

locale log_transport =
  fixes S :: Setup
    and remote :: "string \<Rightarrow> bytes \<Rightarrow> error + Entry option"
    and pull :: "string \<Rightarrow> Entry \<Rightarrow> (('a, 'd, 'c) Node, nat option \<times> error option) call"
    and rlogs :: "string \<Rightarrow> logs"
  assumes remote_last: "rlogs host (els key) = Some es \<Longrightarrow>
      remote host key = Inr (if es = [] then None else Some (last es))"
    and rlogs_ids: "rlogs host k = Some es \<Longrightarrow> distinct (map (Entry_Hash (su_hash S)) es) \<and> set es \<subseteq> su_entries S"
    and pull_prefix: "base_inv S n \<Longrightarrow> els key \<noteq> [] \<Longrightarrow> mem_logs (h_store n) (els key) = Some pre \<Longrightarrow>
      rlogs host (els key) = Some (pre @ rest) \<Longrightarrow>
      length (buf (applyCh n)) + length rest \<le> cap (applyCh n) \<Longrightarrow>
      \<exists>f n'. pull host (pull_from key pre) n = Ret (f, None) n' \<and> base_inv S n' \<and> h_conf n' = h_conf n \<and>
        mem_logs (h_store n') = (mem_logs (h_store n))(els key \<mapsto> pre @ rest) \<and>
        queued n' = queued n @ map (\<lambda>e. (Entry_Hash (su_hash S) e, e)) rest \<and>
        cap (applyCh n') = cap (applyCh n)"
begin

text \<open>The local log with the end of the remote one, if there is a log at all.\<close>

lemma checkLastEntryOrPull_catches_up:
  assumes I: "base_inv S n" and key: "els key \<noteq> []"
    and pre: "log_of n (els key) = pre"
    and rem: "rlogs host (els key) = Some (pre @ rest)"
    and other: "pre @ rest \<noteq> [] \<Longrightarrow> els other = els (Entry_Hash (su_hash S) (last (pre @ rest)))"
    and room: "length (buf (applyCh n)) + length rest \<le> cap (applyCh n)"
  shows "\<exists>n'. checkLastEntryOrPull pull host key other n = Ret None n' \<and> base_inv S n' \<and> h_conf n' = h_conf n \<and>
    mem_logs (h_store n') = (mem_logs (h_store n))(els key \<mapsto> pre @ rest) \<and>
    queued n' = queued n @ map (\<lambda>e. (Entry_Hash (su_hash S) e, e)) rest \<and> cap (applyCh n') = cap (applyCh n)"
proof -
  let ?H = "su_hash S"
  have J: "hasher n = ?H" "good_hash ?H (su_entries S)" "mem_good ?H (su_entries S) (h_store n)"
    using I by (simp_all add: base_inv_def)
  let ?lid = "if pre = [] then make_bytes (Size ?H) else Entry_Hash ?H (last pre)"
  define fetch where "fetch = (if bytes_Compare ?lid other \<noteq> 0
      then bind (pull host (pull_from key pre)) (\<lambda>(_, er). Ret (mergeErrors None er)) else Ret None)"
  have pulled: "\<exists>n'. fetch m = Ret None n' \<and> base_inv S n' \<and> h_conf n' = h_conf m \<and>
      mem_logs (h_store n') = (mem_logs (h_store m))(els key \<mapsto> pre @ rest) \<and>
      queued n' = queued m @ map (\<lambda>e. (Entry_Hash ?H e, e)) rest \<and> cap (applyCh n') = cap (applyCh m)"
    if m: "base_inv S m" "mem_logs (h_store m) (els key) = Some pre" "applyCh m = applyCh n" for m
  proof (cases "bytes_Compare ?lid other \<noteq> 0")
    case True
    with pull_prefix [OF m(1) key m(2) rem] room m(3) show ?thesis
      by (auto simp: fetch_def bind_def)
  next
    case False
    then have eq: "els ?lid = els other" by simp
    have "rest = []"
    proof (rule ccontr)
      assume r: "rest \<noteq> []"
      then have o1: "els other = els (Entry_Hash ?H (last rest))" using other by simp
      have U: "set (pre @ rest) \<subseteq> su_entries S" "distinct (map (Entry_Hash ?H) (pre @ rest))"
        using rlogs_ids [OF rem] by blast+
      have l: "last rest \<in> set rest" using r by simp
      show False
      proof (cases "pre = []")
        case True
        then have "isZeroBytes (Entry_Hash ?H (last rest))"
          using eq o1 isZeroBytes_cong [of "Entry_Hash ?H (last rest)" "make_bytes (Size ?H)"] by simp
        moreover have "last rest \<in> su_entries S" using U(1) l by auto
        ultimately show False using good_hash_nonzero [OF J(2)] by blast
      next
        case False
        then have "els (Entry_Hash ?H (last pre)) = els (Entry_Hash ?H (last rest))" using eq o1 by simp
        then have same: "Entry_Hash ?H (last pre) = Entry_Hash ?H (last rest)"
          using Entry_Hash_eq_iff_els [OF good_hash_ok [OF J(2)]] by blast
        have "last pre \<in> set pre" using False by simp
        then have "Entry_Hash ?H (last pre) \<in> Entry_Hash ?H ` set pre" "Entry_Hash ?H (last pre) \<in> Entry_Hash ?H ` set rest"
          using l same by (blast intro: imageI, metis imageI)
        with U(2) show False by auto
      qed
    qed
    with False m show ?thesis by (auto simp: fetch_def fun_upd_idem)
  qed
  show ?thesis
  proof (cases "mem_logs (h_store n) (els key)")
    case (Some es)
    then have p: "mem_logs (h_store n) (els key) = Some pre" using pre by (simp add: log_of_def)
    obtain h where h: "LogStore_GetKey (mem_log ?H) key (h_store n) = Inr h"
      "mem_lookup (ls_index (h_store n)) (els key) = Some h"
      using mem_log_index [OF J(3,2) p] by metis
    have last: "Keylog_LastEntry (mem_log ?H) h (h_store n) = (if pre = [] then None else Some (last pre))"
    proof -
      have "LogStore_LastEntry (mem_log ?H) key (h_store n) = Keylog_LastEntry (mem_log ?H) h (h_store n)"
        using h by (simp add: LogStore_LastEntry_def Keylog_LastEntry_def LogStore_GetKey_def)
      then show ?thesis using mem_LastEntry [OF J(3) good_hash_ok [OF J(2)], of key] p by simp
    qed
    have "checkLastEntryOrPull pull host key other n = fetch n"
      using h(1) last by (simp add: checkLastEntryOrPull_def J(1) fetch_def pull_from_def Let_def)
    with pulled [OF I p refl] show ?thesis by simp
  next
    case None
    then have p: "mem_logs (h_store n) (els key) = None" "pre = []" using pre by (simp_all add: log_of_def)
    obtain r s where nk: "LogStore_NewKey (mem_log ?H) key (h_store n) = (r, s)" by (metis prod.collapse)
    note k = mem_NewKey [OF J(3), of key, unfolded nk fst_conv snd_conv]
    have s: "mem_logs s = (mem_logs (h_store n))(els key \<mapsto> [])" "\<exists>h. r = Inr h"
      using k(2) p(1) by (auto simp: spec_NewKey_def split: sum.splits)
    have g: "LogStore_GetKey (mem_log ?H) key (h_store n) = Inl ErrKeyNotFound"
      using p(1) by (auto simp: LogStore_GetKey_def mem_index_ops InMemIndexStore_GetKey_def mem_logs_def
          index_view_def split: option.splits)
    have m: "base_inv S (n\<lparr>h_store := s\<rparr>)" using I k(1) by (simp add: base_inv_def fsm_ok_def)
    have "checkLastEntryOrPull pull host key other n = fetch (n\<lparr>h_store := s\<rparr>)"
      using g nk s(2) p(2) by (auto simp: checkLastEntryOrPull_def J(1) fetch_def pull_from_def Let_def)
    with pulled [OF m] s(1) p(2) show ?thesis by (simp add: queued_def)
  qed
qed

text \<open>
  Healing. The second call of \<open>Leader\<close> finds the local entry, whatever the other hosts answer
  then, so that asking for consistency does not panic.
\<close>

lemma heal_catches_up_from:
  assumes I: "base_inv S n" and key: "els key \<noteq> []" and pre: "log_of n (els key) = pre"
    and l: "hlog_Leader remote key locs n = Inr l" "KeyLeader_Location l = Some loc"
    and away: "Host loc \<noteq> AdvertiseHost (h_conf n)"
    and rem: "rlogs (Host loc) (els key) = Some (pre @ rest)" "pre @ rest \<noteq> []"
    and self: "p \<in> set locs" "Host p = AdvertiseHost (h_conf n)"
    and room: "length (buf (applyCh n)) + length rest \<le> cap (applyCh n)"
  shows "\<exists>n'. heal remote remote' pull key locs n = Ret None n' \<and> base_inv S n' \<and>
    mem_logs (h_store n') = (mem_logs (h_store n))(els key \<mapsto> pre @ rest) \<and>
    queued n' = queued n @ map (\<lambda>e. (Entry_Hash (su_hash S) e, e)) rest"
proof -
  let ?e = "last (pre @ rest)"
  have H: "hasher n = su_hash S" using I by (simp add: base_inv_def)
  have kl: "kl_lasts l = last_entries remote key locs n" "kl_locs l = locs"
    using hlog_Leader_cases [OF l(1) refl] by simp_all
  have loc: "0 \<le> kl_idx l" "kl_idx l < int (length locs)" "locs ! nat (kl_idx l) = loc"
    using l(2) kl by (auto simp: KeyLeader_Location_def at_def split: if_splits)
  have lst: "KeyLeader_LastEntry l = Some (Some ?e)"
    using loc kl(1) away remote_last [OF rem(1)] rem(2)
    by (simp add: KeyLeader_LastEntry_def at_def last_entries_def nat_less_iff)
  obtain n' where n': "checkLastEntryOrPull pull (Host loc) key (Entry_Hash (su_hash S) ?e) n = Ret None n'"
    "base_inv S n'" "h_conf n' = h_conf n" "mem_logs (h_store n') = (mem_logs (h_store n))(els key \<mapsto> pre @ rest)"
    "queued n' = queued n @ map (\<lambda>e. (Entry_Hash (su_hash S) e, e)) rest"
    using checkLastEntryOrPull_catches_up [OF I key pre rem(1) refl room] by blast
  have J: "hasher n' = su_hash S" "hash_fn_ok (su_hash S)" "mem_good (su_hash S) (su_entries S) (h_store n')"
    using n'(2) by (auto simp: base_inv_def good_hash_ok)
  have "LogStore_LastEntry (hlog_log n') key (h_store n') = Some ?e"
    using mem_LastEntry [OF J(3,2), of key] n'(4) rem(2) J(1) by simp
  then have "Some ?e \<in> set (last_entries remote' key locs n')"
    using self n'(3) by (force simp: last_entries_def)
  then have "KeyLeader_IsConsistent l' \<noteq> None" if "hlog_Leader remote' key locs n' = Inr l'" for l'
    using IsConsistent_None_iff [OF that] by auto
  then have "heal remote remote' pull key locs n = Ret None n'"
    using l lst away n'(1) H
    by (cases "hlog_Leader remote' key locs n'") (simp_all add: heal_def)
  with n' show ?thesis by blast
qed

text \<open>
  Seeding, one seed after the other: each key of the seeds ends with the log the host has. The
  queue needs room for all that is missing.
\<close>

lemma seeds_catch_up:
  assumes "base_inv S n" and "distinct (map (els \<circ> seed_Key) seeds)"
    and "\<And>sd. sd \<in> set seeds \<Longrightarrow> els (seed_Key sd) \<noteq> [] \<and>
      (\<exists>es. rlogs host (els (seed_Key sd)) = Some es \<and> prefix (log_of n (els (seed_Key sd))) es \<and>
        (es \<noteq> [] \<longrightarrow> els (seed_Marker sd) = els (Entry_Hash (su_hash S) (last es))))"
    and "length (buf (applyCh n)) + sum_list (map (missing n (rlogs host)) seeds) \<le> cap (applyCh n)"
  shows "\<exists>n'. each (seed_one pull host) seeds n = Ret () n' \<and> base_inv S n' \<and>
    mem_logs (h_store n') = mem_logs (h_store n) ++ (rlogs host |` ((els \<circ> seed_Key) ` set seeds))"
  using assms
proof (induction seeds arbitrary: n)
  case (Cons sd seeds)
  let ?k = "els (seed_Key sd)"
  obtain es rest where es: "?k \<noteq> []" "rlogs host ?k = Some es" "es = log_of n ?k @ rest"
    "es \<noteq> [] \<Longrightarrow> els (seed_Marker sd) = els (Entry_Hash (su_hash S) (last es))"
    using Cons.prems(3) [of sd] by (auto elim: prefixE)
  have m: "missing n (rlogs host) sd = length rest" using es(2,3) by (simp add: missing_def)
  have room: "length (buf (applyCh n)) + length rest \<le> cap (applyCh n)" using Cons.prems(4) m by simp
  obtain n1 where n1: "checkLastEntryOrPull pull host (seed_Key sd) (seed_Marker sd) n = Ret None n1" "base_inv S n1"
    "mem_logs (h_store n1) = (mem_logs (h_store n))(?k \<mapsto> es)"
    "queued n1 = queued n @ map (\<lambda>e. (Entry_Hash (su_hash S) e, e)) rest" "cap (applyCh n1) = cap (applyCh n)"
    using checkLastEntryOrPull_catches_up [OF Cons.prems(1) es(1) refl es(2) [unfolded es(3)] es(4) [unfolded es(3)] room]
    unfolding es(3) by blast
  have len: "length (buf (applyCh n1)) = length (buf (applyCh n)) + length rest"
    using arg_cong [OF n1(4), of length] by (simp add: queued_def)
  have "?k \<notin> (els \<circ> seed_Key) ` set seeds" using Cons.prems(2) by simp
  then have other: "els (seed_Key sd') \<noteq> ?k" if "sd' \<in> set seeds" for sd'
    using that by (metis comp_apply imageI)
  then have log: "log_of n1 (els (seed_Key sd')) = log_of n (els (seed_Key sd'))" if "sd' \<in> set seeds" for sd'
    using that n1(3) by (simp add: log_of_def)
  have same: "map (missing n1 (rlogs host)) seeds = map (missing n (rlogs host)) seeds"
    using log by (simp add: missing_def)
  have room1: "length (buf (applyCh n1)) + sum_list (map (missing n1 (rlogs host)) seeds) \<le> cap (applyCh n1)"
    unfolding same len n1(5) using Cons.prems(4) m by simp
  have dist: "distinct (map (els \<circ> seed_Key) seeds)" using Cons.prems(2) by (simp add: comp_def)
  obtain n' where n': "each (seed_one pull host) seeds n1 = Ret () n'" "base_inv S n'"
    "mem_logs (h_store n') = mem_logs (h_store n1) ++ (rlogs host |` ((els \<circ> seed_Key) ` set seeds))"
    using Cons.IH [OF n1(2) dist _ room1] Cons.prems(3) log by auto
  have "each (seed_one pull host) (sd # seeds) n = Ret () n'"
    using n1(1) n'(1) by (simp add: seed_one_def bind_def)
  moreover have "mem_logs (h_store n1) ++ (rlogs host |` ((els \<circ> seed_Key) ` set seeds)) =
      mem_logs (h_store n) ++ (rlogs host |` ((els \<circ> seed_Key) ` set (sd # seeds)))"
    using n1(3) es(2) other by (auto simp: map_add_def restrict_map_def fun_eq_iff split: option.split)
  ultimately show ?case using n' by auto
qed (simp add: map_add_def restrict_map_def fun_eq_iff)

end

subsection \<open>Healing over healthy hosts\<close>

text \<open>
  Remote hosts as nodes that serve their handlers; \<open>gone\<close> is the error of a handler that did
  not answer.
\<close>

definition peer_last :: "(error \<Rightarrow> error) \<Rightarrow> error \<Rightarrow> (string \<Rightarrow> ('a, 'd, 'c) Node) \<Rightarrow> string \<Rightarrow> bytes \<Rightarrow> error + Entry option" where
  "peer_last parse gone m host key =
     entry_reply parse (Inr (case LastRPC (zero_ReqResp\<lparr>rr_Entry := Some (zero_Entry\<lparr>Key := key\<rparr>)\<rparr>) (m host) of
        None \<Rightarrow> Inl gone
      | Some (_, Some err) \<Rightarrow> Inl err
      | Some (resp, None) \<Rightarrow> Inr resp))"

definition peer_pull ::
  "int \<Rightarrow> (error \<Rightarrow> error) \<Rightarrow> (string \<Rightarrow> ('b, 'e, 'f) Node) \<Rightarrow> string \<Rightarrow> Entry \<Rightarrow>
   (('a, 'd, 'c) Node, nat option \<times> error option) call" where
  "peer_pull now parse m host entry = PullKeylog_stream now parse (serve_pull (m host)) entry"

definition peer_logs :: "Setup \<Rightarrow> (string \<Rightarrow> ('a, 'd, 'c) Node) \<Rightarrow> string \<Rightarrow> logs" where
  "peer_logs S m host =
     (if hasher (m host) = su_hash S \<and> good_hash (su_hash S) (su_entries S) \<and>
         mem_good (su_hash S) (su_entries S) (h_store (m host))
      then mem_logs (h_store (m host)) else Map.empty)"

interpretation net: log_transport S "peer_last parse gone m"
    "peer_pull now parse m :: string \<Rightarrow> Entry \<Rightarrow> (('a, 'd, 'c) Node, nat option \<times> error option) call" "peer_logs S m"
  for S :: Setup and parse :: "error \<Rightarrow> error" and gone :: error and m :: "string \<Rightarrow> ('b, 'e, 'f) Node" and now :: int
proof unfold_locales
  show "peer_last parse gone m host key = Inr (if es = [] then None else Some (last es))"
    if "peer_logs S m host (els key) = Some es" for host key es
    using that mem_LastEntry [of "su_hash S" "su_entries S" "h_store (m host)" key]
    by (auto simp: peer_logs_def peer_last_def LastRPC_def entry_reply_def good_hash_ok split: if_splits)
  show "distinct (map (Entry_Hash (su_hash S)) es) \<and> set es \<subseteq> su_entries S"
    if "peer_logs S m host k = Some es" for host k es
    using that mem_log_facts(1,2) by (auto simp: peer_logs_def split: if_splits)
  show "\<exists>f n'. peer_pull now parse m host (pull_from key pre) n = Ret (f, None) n' \<and> base_inv S n' \<and> h_conf n' = h_conf n \<and>
        mem_logs (h_store n') = (mem_logs (h_store n))(els key \<mapsto> pre @ rest) \<and>
        queued n' = queued n @ map (\<lambda>e. (Entry_Hash (su_hash S) e, e)) rest \<and>
        cap (applyCh n') = cap (applyCh n)"
    if "base_inv S n" "els key \<noteq> []" "mem_logs (h_store n) (els key) = Some pre"
      "peer_logs S m host (els key) = Some (pre @ rest)"
      "length (buf (applyCh n)) + length rest \<le> cap (applyCh n)"
    for n :: "('a, 'd, 'c) Node" and key pre host rest
    using PullKeylog_converges [of S n "m host" key pre rest now parse] that
    unfolding peer_pull_def by (auto simp: peer_logs_def split: if_splits)
qed

text \<open>
  C5: Healing catches up. Suppose the other hosts are healthy nodes and \<open>Leader\<close> picks another
  host, whose log of the key extends the local one, also an absent one. If the queue has room
  for what is missing, \<open>heal\<close> returns without an error, the local log is then the log of the
  leader, and what was missing is queued for the application in order. The hosts may answer
  anything when the leader is looked up again at the end.
\<close>

theorem heal_catches_up:
  fixes n :: "('a, 'd, 'c) Node" and m :: "string \<Rightarrow> ('b, 'e, 'f) Node"
  assumes "base_inv S n" and "els key \<noteq> []"
    and "hasher (m (Host loc)) = su_hash S" and "mem_good (su_hash S) (su_entries S) (h_store (m (Host loc)))"
    and "hlog_Leader (peer_last parse gone m) key locs n = Inr l"
    and "KeyLeader_Location l = Some loc" and "Host loc \<noteq> AdvertiseHost (h_conf n)"
    and "mem_logs (h_store (m (Host loc))) (els key) = Some (log_of n (els key) @ rest)"
    and "log_of n (els key) @ rest \<noteq> []"
    and "p \<in> set locs" and "Host p = AdvertiseHost (h_conf n)"
    and "length (buf (applyCh n)) + length rest \<le> cap (applyCh n)"
  shows "\<exists>n'. heal (peer_last parse gone m) remote' (peer_pull now parse m) key locs n = Ret None n' \<and>
    mem_logs (h_store n') = (mem_logs (h_store n))(els key \<mapsto> log_of n (els key) @ rest) \<and>
    queued n' = queued n @ map (\<lambda>e. (Entry_Hash (su_hash S) e, e)) rest"
proof -
  have "peer_logs S m (Host loc) (els key) = Some (log_of n (els key) @ rest)"
    using assms(1,3,4,8) by (simp add: peer_logs_def base_inv_def)
  from net.heal_catches_up_from [OF assms(1,2) refl assms(5-7) this assms(9-12)] show ?thesis by blast
qed

text \<open>What a healthy host sends as seeds: one for each key, with the last id of its log.\<close>

definition serve_seeds :: "('a, 'd, 'c) Node \<Rightarrow> KeySeed list \<times> error option" where
  "serve_seeds m = (case SeedKeysRPC (\<lambda>seed u. (None, u @ [seed])) m [] of (err, seeds) \<Rightarrow> (seeds, err))"

lemma serve_seeds_eq:
  "serve_seeds m = (map (KeySeed_of (hlog_log m) (h_store m)) (InMemIndexStore_visits (ls_index (h_store m))), None)"
  by (simp add: serve_seeds_def SeedKeysRPC_def LogStore_IterKeySeed_def for_each_collect mem_index_ops)

lemma serve_seeds_keys:
  assumes "mem_good (hasher m) U (h_store m)" and "good_hash (hasher m) U"
  shows "distinct (map (els \<circ> seed_Key) (fst (serve_seeds m)))"
    and "(els \<circ> seed_Key) ` set (fst (serve_seeds m)) = dom (mem_logs (h_store m))"
    and "sd \<in> set (fst (serve_seeds m)) \<Longrightarrow>
      \<forall>k idx. mem_view (ls_index (h_store m)) k = Some idx \<longrightarrow> idx_Marker idx = None \<Longrightarrow>
      \<exists>es. mem_logs (h_store m) (els (seed_Key sd)) = Some es \<and>
        (es \<noteq> [] \<longrightarrow> els (seed_Marker sd) = els (Entry_Hash (hasher m) (last es)))"
proof -
  let ?i = "ls_index (h_store m)"
  have "mem_is_ok ?i" using assms(1) by (simp add: mem_good_def)
  note v = mem_visits [OF this]
  have keys: "map (els \<circ> seed_Key) (fst (serve_seeds m)) = map (els \<circ> fst) (InMemIndexStore_visits ?i)"
    by (simp add: serve_seeds_eq KeySeed_of_def Let_def split: prod.split)
  then show "distinct (map (els \<circ> seed_Key) (fst (serve_seeds m)))" using v by simp
  have "(els \<circ> seed_Key) ` set (fst (serve_seeds m)) = (els \<circ> fst) ` set (InMemIndexStore_visits ?i)"
    using arg_cong [OF keys, of set] by simp
  also have "\<dots> = {k. \<exists>h. mem_lookup ?i k = Some h}"
    using v by (force simp: image_iff)
  also have "\<dots> = dom (mem_logs (h_store m))"
    by (auto simp: mem_logs_def abs_logs_def index_view_def dom_def split: option.splits)
  finally show "(els \<circ> seed_Key) ` set (fst (serve_seeds m)) = dom (mem_logs (h_store m))" .
  assume sd: "sd \<in> set (fst (serve_seeds m))"
    and mk: "\<forall>k idx. mem_view ?i k = Some idx \<longrightarrow> idx_Marker idx = None"
  obtain key h where kh: "(key, h) \<in> set (InMemIndexStore_visits ?i)" "sd = KeySeed_of (hlog_log m) (h_store m) (key, h)"
    using sd by (auto simp: serve_seeds_eq)
  then have h: "mem_lookup ?i (els key) = Some h" using v by blast
  obtain es where es: "mem_logs (h_store m) (els key) = Some es"
    using h by (simp add: mem_logs_def abs_logs_def)
  obtain h' where h': "mem_lookup ?i (els key) = Some h'" "map (Entry_Hash (hasher m)) es = idx_Entries (is_heap ?i h')"
    using mem_log_index [OF assms es] by metis
  have ids: "idx_Entries (is_heap ?i h) = map (Entry_Hash (hasher m)) es" using h h' by simp
  have "idx_Marker (is_heap ?i h) = None" using mk [rule_format, of "els key" "is_heap ?i h"] h by simp
  moreover have "es \<noteq> [] \<Longrightarrow> idx_Last (is_heap ?i h) = Entry_Hash (hasher m) (last es)"
    using ids by (simp add: idx_Last_def last_conv_nth Let_def)
  ultimately show "\<exists>es. mem_logs (h_store m) (els (seed_Key sd)) = Some es \<and>
        (es \<noteq> [] \<longrightarrow> els (seed_Marker sd) = els (Entry_Hash (hasher m) (last es)))"
    using es by (simp add: kh(2) KeySeed_of_def mem_keylog_index_def Let_def)
qed

text \<open>
  C6: Seeding copies the logs. When a node whose logs are prefixes of those of a healthy host,
  also a node with no logs at all, seeds from that host and its queue has room for what is
  missing, \<open>Seed\<close> returns without an error and every log of the host is then on the node, in
  whatever order the workers take the seeds. No marker may be set on the host, and the host
  may not have a log of the empty key, which it refuses to send.
\<close>

theorem seed_copies_logs:
  fixes n :: "('a, 'd, 'c) Node" and m :: "('b, 'e, 'f) Node"
  assumes "base_inv S n" and "hasher m = su_hash S" and "mem_good (su_hash S) (su_entries S) (h_store m)"
    and "\<forall>k idx. mem_view (ls_index (h_store m)) k = Some idx \<longrightarrow> idx_Marker idx = None"
    and "mem_logs (h_store m) [] = None"
    and "\<forall>k es. mem_logs (h_store m) k = Some es \<longrightarrow> prefix (log_of n k) es"
    and "length (buf (applyCh n)) + sum_list (map (missing n (mem_logs (h_store m))) (fst (serve_seeds m)))
      \<le> cap (applyCh n)"
    and "mset (order (fst (serve_seeds m))) = mset (fst (serve_seeds m))" and "0 \<le> bufsize"
  shows "\<exists>n'. Seed (peer_pull now parse (\<lambda>_. m)) order host bufsize (Inr (serve_seeds m)) n = Ret None n' \<and>
    mem_logs (h_store n') = mem_logs (h_store n) ++ mem_logs (h_store m)"
proof -
  let ?seeds = "fst (serve_seeds m)" and ?m = "\<lambda>_ :: string. m"
  have g: "good_hash (su_hash S) (su_entries S)" using assms(1) by (simp add: base_inv_def)
  have pl: "peer_logs S ?m host = mem_logs (h_store m)" using assms(2,3) g by (simp add: peer_logs_def)
  have g': "mem_good (hasher m) (su_entries S) (h_store m)" "good_hash (hasher m) (su_entries S)"
    using assms(2,3) g by simp_all
  note k = serve_seeds_keys [OF g']
  have set: "set (order ?seeds) = set ?seeds" using assms(8) by (rule mset_eq_setD)
  have dist: "distinct (map (els \<circ> seed_Key) (order ?seeds))"
    using k(1) assms(8) by (metis mset_map mset_eq_imp_distinct_iff)
  have sum: "sum_list (map (missing n (mem_logs (h_store m))) (order ?seeds))
      = sum_list (map (missing n (mem_logs (h_store m))) ?seeds)"
    by (metis assms(8) mset_map sum_mset_sum_list)
  have each: "els (seed_Key sd) \<noteq> [] \<and> (\<exists>es. peer_logs S ?m host (els (seed_Key sd)) = Some es \<and>
      prefix (log_of n (els (seed_Key sd))) es \<and>
      (es \<noteq> [] \<longrightarrow> els (seed_Marker sd) = els (Entry_Hash (su_hash S) (last es))))"
    if "sd \<in> set (order ?seeds)" for sd
    using k(3) [of sd] that set assms(2,4-6) pl by force
  have room: "length (buf (applyCh n)) + sum_list (map (missing n (peer_logs S ?m host)) (order ?seeds)) \<le> cap (applyCh n)"
    using assms(7) sum pl by simp
  obtain n' where n': "each (seed_one (peer_pull now parse ?m) host) (order ?seeds) n = Ret () n'"
    "mem_logs (h_store n') = mem_logs (h_store n) ++ (mem_logs (h_store m) |` ((els \<circ> seed_Key) ` set (order ?seeds)))"
    using net.seeds_catch_up [OF assms(1) dist each room] pl by metis
  have "mem_logs (h_store m) |` ((els \<circ> seed_Key) ` set (order ?seeds)) = mem_logs (h_store m)"
    unfolding set k(2) by (simp add: restrict_map_def fun_eq_iff domIff)
  with n' assms(9) show ?thesis by (simp add: Seed_def serve_seeds_eq)
qed

text \<open>Concrete: a fresh node heals and seeds from the node of the run above.\<close>

lemma demo_node_facts:
  "base_inv (run_setup last_byte {entry1, entry2} (\<lambda>_. 3) []) demo_node" "mem_logs (h_store demo_node) = Map.empty"
  "buf (applyCh demo_node) = []" "cap (applyCh demo_node) = 16" "AdvertiseHost (h_conf demo_node) = ''a''"
proof -
  have H: "Hasher demo_conf = last_byte" by (simp add: demo_conf_def DefaultConfig_def)
  have n: "h_store demo_node = mem_empty" "hasher demo_node = last_byte" "applyCh demo_node = make_chan 16"
    "h_ss demo_node = \<lparr>ss_m = Some []\<rparr>"
    by (simp_all add: demo_node_def H)
  show "base_inv (run_setup last_byte {entry1, entry2} (\<lambda>_. 3) []) demo_node"
    by (simp add: base_inv_def n H fsm_ok_def mem_ss_ok_def)
  show "mem_logs (h_store demo_node) = Map.empty" "buf (applyCh demo_node) = []" "cap (applyCh demo_node) = 16"
    by (simp_all add: n)
  show "AdvertiseHost (h_conf demo_node) = ''a''" 
    by (simp add: demo_node_def fresh_node_eq Increment_def bare_node_def demo_conf_def DefaultConfig_def)
qed

lemma demo_heal_leader:
  "hlog_Leader (peer_last (\<lambda>e. e) errTimedOut (\<lambda>_. demo_end)) (Some [7]) demo_locs demo_node =
    Inr \<lparr>kl_key = None, kl_idx = 1, kl_locs = demo_locs, kl_lasts = [None, Some entry1], kl_hasher = last_byte\<rparr>"
proof -
  have s: "LogStore_LastEntry (hlog_log demo_end) (Some [7]) (h_store demo_end) = Some entry1" by code_simp
  have s': "LogStore_LastEntry (hlog_log demo_node) (Some [7]) (h_store demo_node) = None" by code_simp
  have H: "hasher demo_node = last_byte" using demo_node_facts(1) by (simp add: base_inv_def)
  show ?thesis
    using s s' by (simp add: hlog_Leader_def last_entries_def demo_locs_def peer_last_def LastRPC_def entry_reply_def
        demo_node_facts(5) demo_end_good(1) H Let_def peer_def)
qed

theorem heal_catches_up_witness:
  "\<exists>n'. heal (peer_last (\<lambda>e. e) errTimedOut (\<lambda>_. demo_end)) (\<lambda>_ _. Inl errTimedOut)
      (peer_pull 0 (\<lambda>e. e) (\<lambda>_. demo_end)) (Some [7]) demo_locs demo_node = Ret None n' \<and>
    mem_logs (h_store n') = [[7] \<mapsto> [entry1]]"
proof -
  let ?S = "run_setup last_byte {entry1, entry2} (\<lambda>_. 3) []"
  have a: "els (Some [7 :: byte]) \<noteq> []" "hasher demo_end = su_hash ?S"
    "mem_good (su_hash ?S) (su_entries ?S) (h_store demo_end)"
    "KeyLeader_Location \<lparr>kl_key = None, kl_idx = 1, kl_locs = demo_locs, kl_lasts = [None, Some entry1],
      kl_hasher = last_byte\<rparr> = Some (peer ''b'')" "Host (peer ''b'') \<noteq> AdvertiseHost (h_conf demo_node)"
    "mem_logs (h_store demo_end) (els (Some [7])) = Some (log_of demo_node (els (Some [7])) @ [entry1])"
    "log_of demo_node (els (Some [7])) @ [entry1] \<noteq> []" "peer ''a'' \<in> set demo_locs"
    "Host (peer ''a'') = AdvertiseHost (h_conf demo_node)"
    "length (buf (applyCh demo_node)) + length [entry1] \<le> cap (applyCh demo_node)"
    by (simp_all add: demo_end_good demo_end_logs demo_node_facts log_of_def KeyLeader_Location_def at_def
        demo_locs_def peer_def)
  from heal_catches_up [where m = "\<lambda>_. demo_end" and now = 0 and remote' = "\<lambda>_ _. Inl errTimedOut",
      OF demo_node_facts(1) a(1-3) demo_heal_leader a(4-)]
  show ?thesis by (auto simp: demo_node_facts log_of_def)
qed

theorem seed_copies_logs_witness:
  "\<exists>n'. Seed (peer_pull 0 (\<lambda>e. e) (\<lambda>_. demo_end)) rev ''b'' 4 (Inr (serve_seeds demo_end)) demo_node = Ret None n' \<and>
    mem_logs (h_store n') [7] = Some [entry1]"
proof -
  let ?S = "run_setup last_byte {entry1, entry2} (\<lambda>_. 3) []"
  let ?i = "ls_index (h_store demo_end)"
  have "map idx_Marker (map (is_heap ?i \<circ> snd) (is_m ?i)) = [None]" by code_simp
  then have "\<forall>x\<in>set (is_m ?i). idx_Marker (is_heap ?i (snd x)) = None"
    by (metis (no_types, lifting) comp_apply image_eqI list.set_map map_map set_ConsD empty_iff list.set(1))
  then have mk: "\<forall>k idx. mem_view ?i k = Some idx \<longrightarrow> idx_Marker idx = None"
    by (auto simp: index_view_def dest!: map_of_SomeD)
  have s: "map seed_Key (fst (serve_seeds demo_end)) = [Some [7]]" by code_simp
  then obtain sd where sd: "fst (serve_seeds demo_end) = [sd]" "seed_Key sd = Some [7]" by auto
  have a: "hasher demo_end = su_hash ?S" "mem_good (su_hash ?S) (su_entries ?S) (h_store demo_end)"
    by (simp_all add: demo_end_good)
  have g: "mem_good (hasher demo_end) {entry1, entry2} (h_store demo_end)" "good_hash (hasher demo_end) {entry1, entry2}"
    by (simp_all add: demo_end_good)
  have "dom (mem_logs (h_store demo_end)) = {[7]}" using serve_seeds_keys(2) [OF g] sd by simp
  then have e: "mem_logs (h_store demo_end) [] = None" by (auto simp: dom_def)
  have p: "\<forall>k es. mem_logs (h_store demo_end) k = Some es \<longrightarrow> prefix (log_of demo_node k) es"
    by (simp add: log_of_def demo_node_facts)
  have r: "length (buf (applyCh demo_node)) + sum_list (map (missing demo_node (mem_logs (h_store demo_end)))
      (fst (serve_seeds demo_end))) \<le> cap (applyCh demo_node)"
    by (simp add: sd missing_def demo_node_facts demo_end_logs log_of_def)
  have o: "mset (rev (fst (serve_seeds demo_end))) = mset (fst (serve_seeds demo_end))" by simp
  from seed_copies_logs [where order = rev and bufsize = 4 and host = "''b''" and now = 0 and parse = "\<lambda>e. e",
      OF demo_node_facts(1) a mk e p r o]
  show ?thesis by (auto simp: demo_node_facts demo_end_logs)
qed

end
