(* ===== verification/Broadcast.thy ===== *)
theory Broadcast
  imports Node_Requests "HOL-Library.Multiset"
begin

section \<open>Broadcasting proposals and commits (broadcast.go)\<close>

text \<open>
  Two goroutines take what was voted for locally from the queues of the node and send it to the
  other peers. What a host answers is a parameter: its reply, an error, or nothing ever, as the
  calls have no deadline. The requests run in goroutines of their own, so the order in which
  their results arrive is a parameter too, a permutation; cancelling the context ends requests
  whose result nobody waits for. Of the node only the configuration is read while a broadcast
  runs, so what happens in between can be placed before its end.
\<close>

text \<open>The request to one host, whose answer is the result of the call.\<close>

definition sendProposal ::
  "(string \<Rightarrow> Entry \<Rightarrow> RequestOptions \<Rightarrow> 'r option) \<Rightarrow> Entry \<Rightarrow> Participant \<Rightarrow> nat \<Rightarrow> RequestOptions \<Rightarrow> 'r option" where
  "sendProposal ask entry loc idx opts = ask (Host loc) entry (CloneWithSourceIndex opts (int idx))"

text \<open>The results that arrive, of all peers that do not have the own host.\<close>

definition arrivals ::
  "(Participant \<Rightarrow> 'r option) \<Rightarrow> ('r list \<Rightarrow> 'r list) \<Rightarrow> Participant list \<Rightarrow> ('a, 'd, 'c) Node \<Rightarrow> 'r list" where
  "arrivals request order ps n =
     order (List.map_filter request (filter (\<lambda>p. AdvertiseHost (h_conf n) \<noteq> Host p) ps))"

text \<open>The loop that waits for \<open>l\<close> proposals: it ends at the first error and blocks when no more arrive.\<close>

fun collect :: "nat \<Rightarrow> (error + ReqResp) list \<Rightarrow> ReqResp list \<Rightarrow> ('s, ReqResp list \<times> error option) call" where
  "collect 0 arr out = Ret (out, None)"
| "collect (Suc l) [] out = Block"
| "collect (Suc l) (Inl err # arr) out = Ret (out, Some err)"
| "collect (Suc l) (Inr resp # arr) out = collect l arr (out @ [resp])"

definition broadcastPropose ::
  "(string \<Rightarrow> Entry \<Rightarrow> RequestOptions \<Rightarrow> (error + ReqResp) option) \<Rightarrow> ((error + ReqResp) list \<Rightarrow> (error + ReqResp) list) \<Rightarrow>
   Entry \<Rightarrow> RequestOptions \<Rightarrow> (('a, 'd, 'c) Node, ReqResp list \<times> error option) call" where
  "broadcastPropose ask order entry opts n =
     (case getSelfIndex (peers opts) n of
        None \<Rightarrow> Ret ([], Some (Errorf_not_in_PeerSet (AdvertiseHost (h_conf n)))) n
      | Some idx \<Rightarrow>
          (let l = length (peers opts) - 1;
               arr = arrivals (\<lambda>p. sendProposal ask entry p idx opts) order (peers opts) n
           in collect l arr [] n))"

text \<open>
  One turn of \<open>broadcastProposals\<close>; false is the end of the loop, after the shutdown was
  notified. A message without entry or options panics.
\<close>

definition broadcastProposals_turn ::
  "('a, 'd, 'c) Env \<Rightarrow> int \<Rightarrow> (string \<Rightarrow> Entry \<Rightarrow> RequestOptions \<Rightarrow> (error + ReqResp) option) \<Rightarrow>
   ((error + ReqResp) list \<Rightarrow> (error + ReqResp) list) \<Rightarrow> (('a, 'd, 'c) Node, bool) call" where
  "broadcastProposals_turn E now ask order =
     bind (on_pch chan_recv) (\<lambda>msg.
       case msg of
         None \<Rightarrow> bind (zoom shutdownCh (\<lambda>c n. n\<lparr>shutdownCh := c\<rparr>) (chan_send ())) (\<lambda>_. Ret False)
       | Some req \<Rightarrow>
           (case (rr_Entry req, rr_Options req) of
              (Some entry, Some opts) \<Rightarrow>
                bind (broadcastPropose ask order entry opts) (\<lambda>(_, err) n.
                  let eid = Entry_Hash (hasher n) entry
                  in if err \<noteq> None then bind (ballotGetClose now eid err) (\<lambda>_. Ret True) n
                     else bind (Commit E now entry opts) (\<lambda>(_, err).
                            if err \<noteq> None then bind (ballotGetClose now eid err) (\<lambda>_. Ret True)
                            else Ret True) n)
            | _ \<Rightarrow> Panic))"

text \<open>The loop that waits for the results of \<open>l\<close> commits.\<close>

fun collect_errors :: "nat \<Rightarrow> error option list \<Rightarrow> ('s, error option) call" where
  "collect_errors 0 arr = Ret None"
| "collect_errors (Suc l) [] = Block"
| "collect_errors (Suc l) (Some err # arr) = Ret (Some err)"
| "collect_errors (Suc l) (None # arr) = collect_errors l arr"

definition broadcastCommit ::
  "(string \<Rightarrow> Entry \<Rightarrow> RequestOptions \<Rightarrow> error option option) \<Rightarrow> (error option list \<Rightarrow> error option list) \<Rightarrow>
   Entry \<Rightarrow> RequestOptions \<Rightarrow> (('a, 'd, 'c) Node, error option) call" where
  "broadcastCommit ask order entry opts n =
     (case getSelfIndex (peers opts) n of
        None \<Rightarrow> Ret (Some (Errorf_not_in_PeerSet (AdvertiseHost (h_conf n)))) n
      | Some idx \<Rightarrow>
          (let l = length (peers opts) - 1;
               arr = arrivals (\<lambda>p. ask (Host p) entry (CloneWithSourceIndex opts (int idx))) order (peers opts) n
           in collect_errors l arr n))"

definition broadcastCommits_turn ::
  "int \<Rightarrow> (string \<Rightarrow> Entry \<Rightarrow> RequestOptions \<Rightarrow> error option option) \<Rightarrow>
   (error option list \<Rightarrow> error option list) \<Rightarrow> (('a, 'd, 'c) Node, bool) call" where
  "broadcastCommits_turn now ask order =
     bind (on_cch chan_recv) (\<lambda>msg.
       case msg of
         None \<Rightarrow> bind (zoom shutdownCh (\<lambda>c n. n\<lparr>shutdownCh := c\<rparr>) (chan_send ())) (\<lambda>_. Ret False)
       | Some req \<Rightarrow>
           (case (rr_Entry req, rr_Options req) of
              (Some entry, Some opts) \<Rightarrow>
                bind (broadcastCommit ask order entry opts) (\<lambda>err n.
                  if err = None then Ret True n
                  else bind (ballotGetClose now (Entry_Hash (hasher n) entry) err) (\<lambda>_. Ret True) n)
            | _ \<Rightarrow> Panic))"

subsection \<open>When a broadcast returns\<close>

lemma collect_outcome:
  assumes "length arr \<le> l"
  shows "collect l arr out n =
    (if \<exists>r\<in>set arr. isl r
     then Ret (out @ map projr (takeWhile (\<lambda>r. \<not> isl r) arr), Some (projl (hd (dropWhile (\<lambda>r. \<not> isl r) arr)))) n
     else if length arr < l then Block n else Ret (out @ map projr arr, None) n)"
  using assms by (induction l arr out rule: collect.induct) auto

lemma collect_errors_outcome:
  assumes "length arr \<le> l"
  shows "collect_errors l arr n =
    (if \<exists>r\<in>set arr. r \<noteq> None then Ret (hd (dropWhile (\<lambda>r. r = None) arr)) n
     else if length arr < l then Block n else Ret None n)"
  using assms by (induction l arr rule: collect_errors.induct) auto

lemma self_from_Some: "self_from i host ps = Some j \<Longrightarrow> \<exists>p\<in>set ps. Host p = host"
  by (induction ps arbitrary: i) (auto split: if_splits)

text \<open>How many results can arrive at most, and when as many as are waited for.\<close>

lemma length_filter_all: "length (filter P xs) = length xs \<longleftrightarrow> (\<forall>x\<in>set xs. P x)"
proof
  assume eq: "length (filter P xs) = length xs"
  show "\<forall>x\<in>set xs. P x"
  proof (intro ballI, rule ccontr)
    fix x assume "x \<in> set xs" "\<not> P x"
    then have "length (filter P xs) < length xs" by (rule length_filter_less)
    with eq show False by simp
  qed
qed simp

lemma length_map_filter_le: "length (List.map_filter f xs) \<le> length xs"
  by (simp add: map_filter_def)

lemma length_arrivals:
  assumes "getSelfIndex ps n = Some idx" and "mset (order (List.map_filter request (filter (\<lambda>p. AdvertiseHost (h_conf n) \<noteq> Host p) ps)))
      = mset (List.map_filter request (filter (\<lambda>p. AdvertiseHost (h_conf n) \<noteq> Host p) ps))"
  shows "length (arrivals request order ps n) \<le> length ps - 1"
    and "length (arrivals request order ps n) = length ps - 1 \<longleftrightarrow>
      (\<forall>p\<in>set ps. Host p \<noteq> AdvertiseHost (h_conf n) \<longrightarrow> request p \<noteq> None) \<and>
      length (filter (\<lambda>p. Host p = AdvertiseHost (h_conf n)) ps) = 1"
    and "set (arrivals request order ps n) = {r. \<exists>p\<in>set ps. Host p \<noteq> AdvertiseHost (h_conf n) \<and> request p = Some r}"
proof -
  let ?h = "AdvertiseHost (h_conf n)"
  let ?others = "filter (\<lambda>p. ?h \<noteq> Host p) ps" and ?self = "filter (\<lambda>p. Host p = ?h) ps"
  have eq: "length (arrivals request order ps n) = length (List.map_filter request ?others)"
    unfolding arrivals_def using assms(2) by (rule mset_eq_length)
  have split: "length ?self + length ?others = length ps"
    using sum_length_filter_compl [of "\<lambda>p. Host p = ?h" ps] by (simp add: eq_commute)
  obtain p where "p \<in> set ps" "Host p = ?h" using assms(1) self_from_Some unfolding getSelfIndex_def by metis
  then have "?self \<noteq> []" by (auto simp: filter_empty_conv)
  then have pos: "0 < length ?self" by simp
  have answers: "length (List.map_filter request ?others) = length ?others \<longleftrightarrow> (\<forall>p\<in>set ?others. request p \<noteq> None)"
    unfolding List.map_filter_def length_map by (rule length_filter_all)
  show "length (arrivals request order ps n) \<le> length ps - 1"
    using eq split pos length_map_filter_le [of request ?others] by linarith
  show "length (arrivals request order ps n) = length ps - 1 \<longleftrightarrow>
      (\<forall>p\<in>set ps. Host p \<noteq> ?h \<longrightarrow> request p \<noteq> None) \<and> length ?self = 1"
  proof -
    have "length (arrivals request order ps n) = length ps - 1 \<longleftrightarrow>
        length (List.map_filter request ?others) = length ?others \<and> length ?self = 1"
      using eq split pos length_map_filter_le [of request ?others] by linarith
    then show ?thesis using answers by auto
  qed
  have "set (arrivals request order ps n) = set (List.map_filter request ?others)"
    unfolding arrivals_def using assms(2) by (rule mset_eq_setD)
  then show "set (arrivals request order ps n) = {r. \<exists>p\<in>set ps. Host p \<noteq> ?h \<and> request p = Some r}"
    by (auto simp: map_filter_def image_iff) (metis option.sel)+
qed

text \<open>The peers that are sent to, and the requests made of them.\<close>

definition away :: "('a, 'd, 'c) Node \<Rightarrow> RequestOptions \<Rightarrow> Participant set" where
  "away n opts = {p \<in> set (peers opts). Host p \<noteq> AdvertiseHost (h_conf n)}"

lemma broadcastPropose_result:
  fixes n :: "('a, 'd, 'c) Node"
  assumes "getSelfIndex (peers opts) n = Some idx" and "\<forall>xs. mset (order xs) = mset xs"
  shows "case broadcastPropose ask order entry opts n of
      Ret (out, None) n' \<Rightarrow> n' = n \<and> length out = length (peers opts) - 1 \<and>
        (\<forall>p\<in>away n opts. \<exists>r\<in>set out. ask (Host p) entry (CloneWithSourceIndex opts (int idx)) = Some (Inr r))
    | Ret (out, Some err) n' \<Rightarrow> n' = n \<and> (\<exists>p\<in>away n opts. ask (Host p) entry (CloneWithSourceIndex opts (int idx)) = Some (Inl err))
    | Block n' \<Rightarrow> n' = n \<and> (\<forall>p\<in>away n opts. \<forall>err. ask (Host p) entry (CloneWithSourceIndex opts (int idx)) \<noteq> Some (Inl err)) \<and>
        ((\<exists>p\<in>away n opts. ask (Host p) entry (CloneWithSourceIndex opts (int idx)) = None) \<or>
         length (filter (\<lambda>p. Host p = AdvertiseHost (h_conf n)) (peers opts)) \<noteq> 1)
    | Panic _ \<Rightarrow> False"
proof -
  let ?request = "\<lambda>p :: Participant. ask (Host p) entry (CloneWithSourceIndex opts (int idx))"
  let ?arr = "arrivals ?request order (peers opts) n" and ?l = "length (peers opts) - 1"
  note arr = length_arrivals [OF assms(1), where request = ?request and order = order, OF assms(2) [rule_format]]
  have set: "r \<in> set ?arr \<longleftrightarrow> (\<exists>p\<in>away n opts. ?request p = Some r)" for r
    using arr(3) by (auto simp: away_def)
  have "broadcastPropose ask order entry opts n = collect ?l ?arr [] n"
    by (simp add: broadcastPropose_def assms(1) sendProposal_def)
  note eq = this [unfolded collect_outcome [OF arr(1)]]
  have alts: "(\<exists>r\<in>set ?arr. isl r) \<or> (\<forall>r\<in>set ?arr. \<not> isl r) \<and> length ?arr < ?l \<or>
      (\<forall>r\<in>set ?arr. \<not> isl r) \<and> length ?arr = ?l"
    using arr(1) by fastforce
  from alts consider (err) "\<exists>r\<in>set ?arr. isl r" | (short) "\<forall>r\<in>set ?arr. \<not> isl r" "length ?arr < ?l"
    | (all) "\<forall>r\<in>set ?arr. \<not> isl r" "length ?arr = ?l"
    by blast
  then show ?thesis
  proof cases
    case err
    then have ne: "dropWhile (\<lambda>r. \<not> isl r) ?arr \<noteq> []" by auto
    then have "isl (hd (dropWhile (\<lambda>r. \<not> isl r) ?arr))" using hd_dropWhile [OF ne] by simp
    moreover have "hd (dropWhile (\<lambda>r. \<not> isl r) ?arr) \<in> set ?arr" using ne by (metis hd_in_set set_dropWhileD)
    ultimately show ?thesis using err set eq by (auto simp: isl_def)
  next
    case short
    have "?request p \<noteq> Some (Inl err)" if "p \<in> away n opts" for p err
    proof
      assume "?request p = Some (Inl err)"
      then have "Inl err \<in> set ?arr" using set that by blast
      with short(1) show False by force
    qed
    moreover have "(\<exists>p\<in>away n opts. ?request p = None) \<or>
         length (filter (\<lambda>p. Host p = AdvertiseHost (h_conf n)) (peers opts)) \<noteq> 1"
      using short(2) arr(2) by (auto simp: away_def)
    moreover have "\<not> (\<exists>r\<in>set ?arr. isl r)" using short(1) by blast
    ultimately show ?thesis using short(2) eq by simp
  next
    case all
    have "\<exists>r\<in>set (map projr ?arr). ?request p = Some (Inr r)" if p: "p \<in> away n opts" for p
    proof -
      have "?request p \<noteq> None" using all(2) arr(2) p by (auto simp: away_def)
      then obtain r where r: "?request p = Some r" by blast
      then have "r \<in> set ?arr" using set p by blast
      with all(1) r show ?thesis by (force simp: isl_def)
    qed
    moreover have "\<not> (\<exists>r\<in>set ?arr. isl r)" using all(1) by blast
    ultimately show ?thesis using all(2) eq by simp
  qed
qed

text \<open>
  C7: When a broadcast of a proposal returns, and when it never does. It returns an error only
  if some other peer answered with that error, and without an error only when every other peer
  accepted. It waits forever exactly when no peer answers with an error and one of two things
  holds: a peer never answers, as there is no deadline, or the peer set has the own host more
  than once, so that fewer requests are sent than answers waited for. The node is unchanged.
\<close>

theorem broadcastPropose_outcome:
  fixes n :: "('a, 'd, 'c) Node"
  assumes "getSelfIndex (peers opts) n = Some idx" and "\<forall>xs. mset (order xs) = mset xs"
  shows "case broadcastPropose ask order entry opts n of
      Ret (out, None) n' \<Rightarrow> n' = n \<and> length out = length (peers opts) - 1 \<and>
        (\<forall>p\<in>away n opts. \<exists>r\<in>set out. ask (Host p) entry (CloneWithSourceIndex opts (int idx)) = Some (Inr r))
    | Ret (out, Some err) n' \<Rightarrow> n' = n \<and> (\<exists>p\<in>away n opts. ask (Host p) entry (CloneWithSourceIndex opts (int idx)) = Some (Inl err))
    | Block n' \<Rightarrow> n' = n \<and> (\<forall>p\<in>away n opts. \<forall>err. ask (Host p) entry (CloneWithSourceIndex opts (int idx)) \<noteq> Some (Inl err)) \<and>
        ((\<exists>p\<in>away n opts. ask (Host p) entry (CloneWithSourceIndex opts (int idx)) = None) \<or>
         length (filter (\<lambda>p. Host p = AdvertiseHost (h_conf n)) (peers opts)) \<noteq> 1)
    | Panic _ \<Rightarrow> False"
  by (rule broadcastPropose_result [OF assms])

subsection \<open>A failed broadcast\<close>

text \<open>A ballot that is open and timed is closed by its id, with the error.\<close>

lemma ballotGetClose_closes:
  assumes "getBallot eid n = Some b" and "ballot_ok k (h_bheap n b)" and "0 < k"
    and "\<not> b_closed (h_bheap n b)" and "b_timer (h_bheap n b) \<noteq> Timer_nil"
  shows "\<exists>n'. ballotGetClose now eid err n = Ret () n' \<and> h_store n' = h_store n \<and>
    b_closed (h_bheap n' b) \<and> Ballot_Error (h_bheap n' b) = err \<and> (\<forall>b'. b' \<noteq> b \<longrightarrow> h_bheap n' b' = h_bheap n b')"
proof -
  let ?B = "h_bheap n b"
  have "buf (errc ?B) = []" "buf (b_done ?B) = []" "cap (errc ?B) = k" "cap (b_done ?B) = k"
    "\<not> is_closed (errc ?B)" "\<not> is_closed (b_done ?B)"
    using assms(2,4) by (auto simp: ballot_ok_def)
  with assms show ?thesis
    by (auto simp: ballotGetClose_def on_ballot_def zoom_def bind_def Ballot_close_eq Let_def chan_send_def
        Ballot_Error_def split: option.split)
qed

text \<open>
  C8: A proposal that a peer refuses is given up. When a peer answers the broadcast with an
  error, the turn of the broadcaster closes the ballot of the entry with the error of one of
  the peers, whatever the order of the answers. No commit is voted and the log of the node is
  as before.
\<close>

theorem refused_proposal_closes_ballot:
  fixes n :: "('a, 'd, 'c) Node"
  assumes "buf (pch n) = zero_ReqResp\<lparr>rr_Entry := Some entry, rr_Options := Some opts\<rparr> # rest"
    and "getSelfIndex (peers opts) n = Some idx" and "\<forall>xs. mset (order xs) = mset xs"
    and "p \<in> away n opts" and "ask (Host p) entry (CloneWithSourceIndex opts (int idx)) = Some (Inl err)"
    and "getBallot (Entry_Hash (hasher n) entry) n = Some b"
    and "ballot_ok k (h_bheap n b)" and "0 < k"
    and "\<not> b_closed (h_bheap n b)" and "b_timer (h_bheap n b) \<noteq> Timer_nil"
  shows "\<exists>n' p' err'. broadcastProposals_turn E now ask order n = Ret True n' \<and>
    p' \<in> away n opts \<and> ask (Host p') entry (CloneWithSourceIndex opts (int idx)) = Some (Inl err') \<and>
    b_closed (h_bheap n' b) \<and> Ballot_Error (h_bheap n' b) = Some err' \<and>
    h_store n' = h_store n"
proof -
  let ?n1 = "n\<lparr>pch := (pch n)\<lparr>buf := rest\<rparr>\<rparr>"
  have recv: "on_pch chan_recv n = Ret (Some (zero_ReqResp\<lparr>rr_Entry := Some entry, rr_Options := Some opts\<rparr>)) ?n1"
    using assms(1) by (simp add: on_pch_def zoom_def chan_recv_def)
  have aw: "away ?n1 opts = away n opts" by (simp add: away_def)
  have idx: "getSelfIndex (peers opts) ?n1 = Some idx" using assms(2) by (simp add: getSelfIndex_def)
  obtain out err' p' where out: "broadcastPropose ask order entry opts ?n1 = Ret (out, Some err') ?n1"
    "p' \<in> away n opts" "ask (Host p') entry (CloneWithSourceIndex opts (int idx)) = Some (Inl err')"
  proof -
    note o = broadcastPropose_result [OF idx assms(3), of ask entry, unfolded aw]
    show thesis
    proof (cases "broadcastPropose ask order entry opts ?n1")
      case (Ret r n')
      obtain out e where r: "r = (out, e)" by (cases r)
      with o Ret assms(4,5) that show thesis by (cases e) auto
    qed (use o assms(4,5) in auto)
  qed
  obtain n' where n': "ballotGetClose now (Entry_Hash (hasher n) entry) (Some err') ?n1 = Ret () n'"
    "h_store n' = h_store n" "b_closed (h_bheap n' b)" "Ballot_Error (h_bheap n' b) = Some err'"
    using ballotGetClose_closes [of "Entry_Hash (hasher n) entry" ?n1 b k now "Some err'"] assms(6-10)
    by (auto simp: getBallot_def)
  have "broadcastProposals_turn E now ask order n = Ret True n'"
    using recv out(1) n'(1) by (simp add: broadcastProposals_turn_def Let_def)
  with out n' show ?thesis by blast
qed

text \<open>The commit broadcast loses its error the same way.\<close>

lemma broadcastCommit_result:
  fixes n :: "('a, 'd, 'c) Node"
  assumes "getSelfIndex (peers opts) n = Some idx" and "\<forall>xs. mset (order xs) = mset xs"
    and "p \<in> away n opts" and "ask (Host p) entry (CloneWithSourceIndex opts (int idx)) = Some (Some err)"
  shows "\<exists>p'\<in>away n opts. \<exists>err'. ask (Host p') entry (CloneWithSourceIndex opts (int idx)) = Some (Some err') \<and>
    broadcastCommit ask order entry opts n = Ret (Some err') n"
proof -
  let ?request = "\<lambda>p :: Participant. ask (Host p) entry (CloneWithSourceIndex opts (int idx))"
  let ?arr = "arrivals ?request order (peers opts) n"
  note arr = length_arrivals [OF assms(1), where request = ?request and order = order, OF assms(2) [rule_format]]
  have set: "r \<in> set ?arr \<longleftrightarrow> (\<exists>p\<in>away n opts. ?request p = Some r)" for r
    using arr(3) by (auto simp: away_def)
  have some: "\<exists>r\<in>set ?arr. r \<noteq> None" using set assms(3,4) by blast
  then have ne: "dropWhile (\<lambda>r. r = None) ?arr \<noteq> []" by auto
  obtain err' where e: "hd (dropWhile (\<lambda>r. r = None) ?arr) = Some err'" using hd_dropWhile [OF ne] by blast
  have "Some err' \<in> set ?arr" using ne e by (metis hd_in_set set_dropWhileD)
  moreover have "broadcastCommit ask order entry opts n = collect_errors (length (peers opts) - 1) ?arr n"
    by (simp add: broadcastCommit_def assms(1))
  then have "broadcastCommit ask order entry opts n = Ret (Some err') n"
    unfolding collect_errors_outcome [OF arr(1)] using some e by simp
  ultimately show ?thesis using set by blast
qed

text \<open>
  C22: A commit that a peer refuses. When a peer answers the commit broadcast with an error, the
  turn of the broadcaster closes the ballot with the error of one of the peers if the ballot is
  still open. If it was closed, for one because all peers voted and the entry is appended by
  now, the error changes nothing: what is in the log stays there.
\<close>

theorem refused_commit_closes_ballot:
  fixes n :: "('a, 'd, 'c) Node"
  assumes "buf (cch n) = zero_ReqResp\<lparr>rr_Entry := Some entry, rr_Options := Some opts\<rparr> # rest"
    and "getSelfIndex (peers opts) n = Some idx" and "\<forall>xs. mset (order xs) = mset xs"
    and "p \<in> away n opts" and "ask (Host p) entry (CloneWithSourceIndex opts (int idx)) = Some (Some err)"
    and "getBallot (Entry_Hash (hasher n) entry) n = Some b"
    and "ballot_ok k (h_bheap n b)" and "0 < k" and "b_timer (h_bheap n b) \<noteq> Timer_nil"
  shows "\<exists>n' p' err'. broadcastCommits_turn now ask order n = Ret True n' \<and>
    p' \<in> away n opts \<and> ask (Host p') entry (CloneWithSourceIndex opts (int idx)) = Some (Some err') \<and>
    h_store n' = h_store n \<and> b_closed (h_bheap n' b) \<and>
    (if b_closed (h_bheap n b) then h_bheap n' = h_bheap n else Ballot_Error (h_bheap n' b) = Some err')"
proof -
  let ?n1 = "n\<lparr>cch := (cch n)\<lparr>buf := rest\<rparr>\<rparr>"
  have recv: "on_cch chan_recv n = Ret (Some (zero_ReqResp\<lparr>rr_Entry := Some entry, rr_Options := Some opts\<rparr>)) ?n1"
    using assms(1) by (simp add: on_cch_def zoom_def chan_recv_def)
  have aw: "away ?n1 opts = away n opts" by (simp add: away_def)
  have idx: "getSelfIndex (peers opts) ?n1 = Some idx" using assms(2) by (simp add: getSelfIndex_def)
  obtain err' p' where out: "broadcastCommit ask order entry opts ?n1 = Ret (Some err') ?n1"
    "p' \<in> away n opts" "ask (Host p') entry (CloneWithSourceIndex opts (int idx)) = Some (Some err')"
    using broadcastCommit_result [where ask = ask and entry = entry, OF idx assms(3), unfolded aw, OF assms(4,5)] by blast
  have "\<exists>n'. ballotGetClose now (Entry_Hash (hasher n) entry) (Some err') ?n1 = Ret () n' \<and> h_store n' = h_store n \<and>
    b_closed (h_bheap n' b) \<and>
    (if b_closed (h_bheap n b) then h_bheap n' = h_bheap n else Ballot_Error (h_bheap n' b) = Some err')"
  proof (cases "b_closed (h_bheap n b)")
    case True
    with assms(6) show ?thesis
      by (simp add: ballotGetClose_def getBallot_def on_ballot_def zoom_def bind_def Ballot_close_eq)
  next
    case False
    with ballotGetClose_closes [of "Entry_Hash (hasher n) entry" ?n1 b k now "Some err'"] assms(6-9)
    show ?thesis by (auto simp: getBallot_def)
  qed
  then obtain n' where n': "ballotGetClose now (Entry_Hash (hasher n) entry) (Some err') ?n1 = Ret () n'"
    "h_store n' = h_store n" "b_closed (h_bheap n' b)"
    "if b_closed (h_bheap n b) then h_bheap n' = h_bheap n else Ballot_Error (h_bheap n' b) = Some err'"
    by blast
  have "broadcastCommits_turn now ask order n = Ret True n'"
    using recv out(1) n'(1) by (simp add: broadcastCommits_turn_def Let_def)
  with out n' show ?thesis by blast
qed

text \<open>Concrete broadcasts: of the first proposal of the run above, and of its first commit.\<close>

definition demo_proposed :: "(bytes list, unit, 64 word) Node" where
  "demo_proposed = after (Propose demo_env 1 entry1 (from_peer 0) demo_node)"

lemma demo_proposed_state:
  "buf (pch demo_proposed) = [zero_ReqResp\<lparr>rr_Entry := Some entry1, rr_Options := Some (from_peer 0)\<rparr>]" "getSelfIndex (peers (from_peer 0)) demo_proposed = Some 0"
  "getBallot (Some [1]) demo_proposed = Some 0" "ballot_ok 3 (h_bheap demo_proposed 0)"
  "\<not> b_closed (h_bheap demo_proposed 0)" "b_timer (h_bheap demo_proposed 0) \<noteq> Timer_nil"
  "AdvertiseHost (h_conf demo_proposed) = ''a''" "Entry_Hash (hasher demo_proposed) entry1 = Some [1]"
  by code_simp+

lemma demo_committing_state:
  "buf (cch demo_almost) = [zero_ReqResp\<lparr>rr_Entry := Some entry1, rr_Options := Some (from_peer 0)\<rparr>]"
  "ballot_ok 3 (h_bheap demo_almost 0)" "b_timer (h_bheap demo_almost 0) \<noteq> Timer_nil"
  "AdvertiseHost (h_conf demo_almost) = ''a''" "Entry_Hash (hasher demo_almost) entry1 = Some [1]"
  by code_simp+

theorem broadcastPropose_outcome_witness:
  "blocks (broadcastPropose (\<lambda>h e opts. if h = ''b'' then Some (Inr zero_ReqResp) else None) rev entry1 (from_peer 0)
      demo_proposed) \<and>
   (\<exists>p\<in>away demo_proposed (from_peer 0). Host p \<noteq> ''b'')"
proof -
  let ?ask = "\<lambda>(h :: string) (e :: Entry) (opts :: RequestOptions). if h = ''b'' then Some (Inr zero_ReqResp :: error + ReqResp) else None"
  let ?r = "broadcastPropose ?ask rev entry1 (from_peer 0) demo_proposed"
  have b: "blocks ?r" by code_simp
  then obtain n' where n': "?r = Block n'" by (cases ?r) auto
  have c: "length (filter (\<lambda>p. Host p = AdvertiseHost (h_conf demo_proposed)) (peers (from_peer 0))) = 1" by code_simp
  have "\<forall>xs :: (error + ReqResp) list. mset (rev xs) = mset xs" by simp
  from broadcastPropose_outcome [OF demo_proposed_state(2) this, of ?ask entry1] n' c
  have "\<exists>p\<in>away demo_proposed (from_peer 0). ?ask (Host p) entry1 (CloneWithSourceIndex (from_peer 0) (int 0)) = None"
    by simp
  with b show ?thesis by (auto split: if_splits)
qed

theorem refused_proposal_closes_ballot_witness:
  "\<exists>n'. broadcastProposals_turn demo_env 2 (\<lambda>h e opts. if h = ''c'' then Some (Inl ErrPreviousHash) else Some (Inr zero_ReqResp))
      rev demo_proposed = Ret True n' \<and> b_closed (h_bheap n' 0)"
proof -
  let ?ask = "\<lambda>(h :: string) (e :: Entry) (opts :: RequestOptions).
    if h = ''c'' then Some (Inl ErrPreviousHash :: error + ReqResp) else Some (Inr zero_ReqResp)"
  have m: "\<forall>xs :: (error + ReqResp) list. mset (rev xs) = mset xs" by simp
  have p: "peer ''c'' \<in> away demo_proposed (from_peer 0)"
    by (simp add: away_def demo_proposed_state) (simp add: from_peer_def zero_RequestOptions_def peer_def)
  have a: "?ask (Host (peer ''c'')) entry1 (CloneWithSourceIndex (from_peer 0) (int 0)) = Some (Inl ErrPreviousHash)"
    by (simp add: peer_def)
  have b: "getBallot (Entry_Hash (hasher demo_proposed) entry1) demo_proposed = Some 0"
    using demo_proposed_state by simp
  from refused_proposal_closes_ballot [where ask = ?ask and E = demo_env and now = 2 and order = rev,
      OF demo_proposed_state(1,2) m p a b demo_proposed_state(4) _ demo_proposed_state(5,6)]
  show ?thesis by auto
qed

theorem refused_commit_closes_ballot_witness:
  "\<exists>n'. broadcastCommits_turn 2 (\<lambda>h e opts. Some (if h = ''c'' then Some errBallotNotFound else None)) rev demo_almost
    = Ret True n' \<and> Ballot_Error (h_bheap n' 0) = Some errBallotNotFound"
proof -
  let ?ask = "\<lambda>(h :: string) (e :: Entry) (opts :: RequestOptions). Some (if h = ''c'' then Some errBallotNotFound else None)"
  have m: "\<forall>xs :: error option list. mset (rev xs) = mset xs" by simp
  have p: "peer ''c'' \<in> away demo_almost (from_peer 0)"
    by (simp add: away_def demo_committing_state) (simp add: from_peer_def zero_RequestOptions_def peer_def)
  have a: "?ask (Host (peer ''c'')) entry1 (CloneWithSourceIndex (from_peer 0) (int 0)) = Some (Some errBallotNotFound)"
    by (simp add: peer_def)
  have s: "getSelfIndex (peers (from_peer 0)) demo_almost = Some 0" by code_simp
  have b: "getBallot (Entry_Hash (hasher demo_almost) entry1) demo_almost = Some 0"
    using demo_committing_state demo_almost_state by simp
  have o: "\<not> b_closed (h_bheap demo_almost 0)" using demo_almost_state(4) by (simp add: Ballot_Closed_def)
  from refused_commit_closes_ballot [where ask = ?ask and now = 2 and order = rev,
      OF demo_committing_state(1) s m p a b demo_committing_state(2) _ demo_committing_state(3)] o
  show ?thesis by (auto split: if_splits)
qed

end
