(* ===== verification/Ballot_Race.thy ===== *)
theory Ballot_Race
  imports Ballot "HOL-Library.Multiset"
begin

section \<open>Goroutines that race on one ballot (ballot.go)\<close>

text \<open>
  The atomic parts of the methods of a ballot, run by any number of goroutines in any order.
  A goroutine that has read the flag as open goes on whatever happens to the flag after that.
  The goroutines in flight are a multiset of what each does next; the function of the timer is
  one of them once the timer has fired. Reads of the clock are given to the step.
\<close>

datatype goroutine =
    Close_stop "error option" | Close_set "error option" | Close_record "error option" | Close_send "error option"
  | Fire_set | Fire_send
  | Propose_slot string int | Commit_slot string int

record race =
  r_ballot :: Ballot
  r_running :: "goroutine multiset"

abbreviation on_race :: "(Ballot, 'r) call \<Rightarrow> (race, 'r) call" where
  "on_race \<equiv> zoom r_ballot (\<lambda>b s. s\<lparr>r_ballot := b\<rparr>)"

text \<open>The next part of a goroutine, and what it does after that.\<close>

fun go_step :: "int \<Rightarrow> goroutine \<Rightarrow> (Ballot, goroutine multiset) call" where
  "go_step now (Close_stop err) = bind stop_timer (\<lambda>_. Ret {#Close_set err#})"
| "go_step now (Close_set err) = bind set_closed (\<lambda>_. Ret {#Close_record err#})"
| "go_step now (Close_record err) = bind (record_close now err) (\<lambda>_. Ret {#Close_send err#})"
| "go_step now (Close_send err) = bind (send_decision err) (\<lambda>_. Ret {#})"
| "go_step now Fire_set = bind set_closed (\<lambda>_. Ret {#Fire_send#})"
| "go_step now Fire_send = bind (send_decision (Some errBallotTimedOut)) (\<lambda>_. Ret {#})"
| "go_step now (Propose_slot voter i) = bind (propose_slot now voter i) (\<lambda>_. Ret {#})"
| "go_step now (Commit_slot voter i) = bind (commit_slot voter i) (\<lambda>_. Ret {#})"

text \<open>
  The steps: a call of \<open>close\<close> or of a vote reads the flag, the timer fires, a goroutine in
  flight goes on, and a waiter receives. A vote with the id of another entry returns before it
  reads the flag and is not a step. The result says who came past the flag with which decision,
  and what a waiter got.
\<close>

datatype race_op =
    Call_close "error option"
  | Call_propose string int
  | Call_commit string int
  | Timer_fires
  | Go int goroutine
  | Call_wait wait_arm

datatype race_result = Decided "error option" | Waited "error option" | Other

definition start :: "goroutine \<Rightarrow> race_result \<Rightarrow> (race, race_result) call" where
  "start g r s = Ret r (s\<lparr>r_running := add_mset g (r_running s)\<rparr>)"

fun race_call :: "race_op \<Rightarrow> (race, race_result) call" where
  "race_call (Call_close err) s = (if b_closed (r_ballot s) then Ret Other s else start (Close_stop err) (Decided err) s)"
| "race_call (Call_propose voter i) s =
     (if b_closed (r_ballot s) then Ret Other s else start (Propose_slot voter i) Other s)"
| "race_call (Call_commit voter i) s =
     (if b_closed (r_ballot s) then Ret Other s else start (Commit_slot voter i) Other s)"
| "race_call Timer_fires s =
     (case b_timer (r_ballot s) of
        Timer_armed _ \<Rightarrow> start Fire_set (Decided (Some errBallotTimedOut))
          (s\<lparr>r_ballot := (r_ballot s)\<lparr>b_timer := Timer_fired\<rparr>\<rparr>)
      | _ \<Rightarrow> Block s)"
| "race_call (Go now g) s =
     (if g \<in># r_running s then
        bind (on_race (go_step now g))
          (\<lambda>gs s. Ret Other (s\<lparr>r_running := r_running s - {#g#} + gs\<rparr>)) s
      else Block s)"
| "race_call (Call_wait arm) s = bind (on_race (Ballot_Wait arm)) (\<lambda>r. Ret (Waited r)) s"

text \<open>
  Between its check of the flag and its store to it, a goroutine is undecided: the flag does
  not show yet that it will close the ballot.
\<close>

fun is_undecided :: "goroutine \<Rightarrow> bool" where
  "is_undecided (Close_stop _) = True"
| "is_undecided (Close_set _) = True"
| "is_undecided Fire_set = True"
| "is_undecided _ = False"

definition undecided :: "race \<Rightarrow> bool" where
  "undecided s \<longleftrightarrow> (\<exists>g. g \<in># r_running s \<and> is_undecided g)"

text \<open>
  Traces, with whether all closers were apart: none came past the flag, and the timer did not
  fire, while another goroutine was undecided.
\<close>

inductive race_trace :: "race \<Rightarrow> (race_op \<times> race_result) list \<Rightarrow> bool \<Rightarrow> race \<Rightarrow> bool"
  for s0 :: race where
  start: "race_trace s0 [] True s0"
| step: "race_trace s0 tr apart s \<Longrightarrow> race_call x s = Ret r s' \<Longrightarrow>
     race_trace s0 (tr @ [(x, r)]) (apart \<and> \<not> (undecided s \<and> (\<exists>d. r = Decided d))) s'"

definition new_race :: "nat \<Rightarrow> nat \<Rightarrow> int \<Rightarrow> race" where
  "new_race fe n ttl = \<lparr>r_ballot = newBallot fe n ttl, r_running = {#}\<rparr>"

text \<open>The decisions taken and the decisions received, in order.\<close>

fun decided :: "race_op \<times> race_result \<Rightarrow> error option list" where
  "decided (_, Decided d) = [d]"
| "decided _ = []"

fun waited :: "race_op \<times> race_result \<Rightarrow> error option list" where
  "waited (_, Waited d) = [d]"
| "waited _ = []"

definition decisions :: "(race_op \<times> race_result) list \<Rightarrow> error option list" where
  "decisions tr = concat (map decided tr)"

definition waits :: "(race_op \<times> race_result) list \<Rightarrow> error option list" where
  "waits tr = concat (map waited tr)"

text \<open>The decisions in the channels, and those of goroutines that have not sent yet.\<close>

definition tokens :: "Ballot \<Rightarrow> error option list" where
  "tokens b = map Some (buf (errc b)) @ map (\<lambda>_. None) (buf (b_done b))"

fun unsent :: "goroutine \<Rightarrow> error option multiset" where
  "unsent (Close_stop d) = {#d#}"
| "unsent (Close_set d) = {#d#}"
| "unsent (Close_record d) = {#d#}"
| "unsent (Close_send d) = {#d#}"
| "unsent Fire_set = {#Some errBallotTimedOut#}"
| "unsent Fire_send = {#Some errBallotTimedOut#}"
| "unsent _ = {#}"

definition in_flight :: "race \<Rightarrow> error option multiset" where
  "in_flight s = (\<Sum>g\<in>#r_running s. unsent g)"

lemma trace_snoc [simp]:
  "decisions (tr @ [x]) = decisions tr @ decided x" "waits (tr @ [x]) = waits tr @ waited x"
  by (simp_all add: decisions_def waits_def)

lemma in_flight_step:
  assumes "g \<in># M"
  shows "(\<Sum>x\<in>#M - {#g#} + gs. unsent x) + unsent g = (\<Sum>x\<in>#M. unsent x) + (\<Sum>x\<in>#gs. unsent x)"
proof -
  obtain T where "M = add_mset g T" using assms by (rule mset_add)
  then show ?thesis by (simp add: ac_simps)
qed

subsection \<open>Every decision is sent once\<close>

definition channels_ok :: "nat \<Rightarrow> Ballot \<Rightarrow> bool" where
  "channels_ok n b \<longleftrightarrow> \<not> is_closed (errc b) \<and> \<not> is_closed (b_done b) \<and> cap (errc b) = n \<and> cap (b_done b) = n"

text \<open>
  What holds whatever races: the flag is set by those who come past it, and the sum of what
  waiters received, what is in the channels and what is not sent yet is what was decided.
\<close>

definition sent_inv :: "nat \<Rightarrow> (race_op \<times> race_result) list \<Rightarrow> race \<Rightarrow> bool" where
  "sent_inv n tr s \<longleftrightarrow> channels_ok n (r_ballot s) \<and>
     mset (decisions tr) = mset (waits tr) + mset (tokens (r_ballot s)) + in_flight s \<and>
     (b_closed (r_ballot s) \<longrightarrow> decisions tr \<noteq> []) \<and>
     (decisions tr \<noteq> [] \<longrightarrow> b_closed (r_ballot s) \<or> undecided s)"

lemma go_step_effect:
  assumes "go_step now g b = Ret gs b'" and "channels_ok n b"
  shows "channels_ok n b' \<and> mset (tokens b') + (\<Sum>x\<in>#gs. unsent x) = mset (tokens b) + unsent g \<and>
    (b_closed b' \<longleftrightarrow> b_closed b \<or> g = Fire_set \<or> (\<exists>d. g = Close_set d)) \<and>
    (is_undecided g \<and> b_closed b' = b_closed b \<longrightarrow> b_closed b \<or> (\<exists>h. h \<in># gs \<and> is_undecided h))"
  using assms
  by (cases g)
    (auto simp: bind_eq_Ret_iff stop_timer_def set_closed_def record_close_def send_decision_def zoom_eq_Ret_iff
      chan_send_eq_Ret_iff tokens_def channels_ok_def propose_slot_def commit_slot_def setTTL_def Let_def
      split: if_splits option.splits)

lemma Wait_effect:
  assumes "Ballot_Wait arm b = Ret r b'" and "channels_ok n b"
  shows "channels_ok n b' \<and> mset (tokens b) = mset (tokens b') + {#r#} \<and> b_closed b' = b_closed b \<and>
    b_timer b' = b_timer b \<and> proposed b' = proposed b"
  using assms
  by (cases arm)
    (auto simp: bind_eq_Ret_iff zoom_eq_Ret_iff chan_recv_def tokens_def channels_ok_def split: list.splits if_splits)

lemma sent_call:
  assumes I: "sent_inv n tr s" and c: "race_call x s = Ret r s'"
  shows "sent_inv n (tr @ [(x, r)]) s'"
proof (cases x)
  case (Call_close err)
  with assms show ?thesis
    by (auto simp: sent_inv_def start_def undecided_def in_flight_def split: if_splits)
next
  case (Call_propose v i)
  with assms show ?thesis
    by (auto simp: sent_inv_def start_def undecided_def in_flight_def split: if_splits)
next
  case (Call_commit v i)
  with assms show ?thesis
    by (auto simp: sent_inv_def start_def undecided_def in_flight_def split: if_splits)
next
  case Timer_fires
  with assms show ?thesis
    by (auto simp: sent_inv_def start_def undecided_def in_flight_def channels_ok_def tokens_def split: timer.splits)
next
  case (Go now g)
  then obtain gs b' where g: "g \<in># r_running s" "go_step now g (r_ballot s) = Ret gs b'" "r = Other"
    "s' = \<lparr>r_ballot = b', r_running = r_running s - {#g#} + gs\<rparr>"
    using c by (cases s) (auto simp: bind_eq_Ret_iff zoom_eq_Ret_iff split: if_splits)
  have ok: "channels_ok n (r_ballot s)" using I by (simp add: sent_inv_def)
  note e = go_step_effect [OF g(2) ok]
  have sum: "mset (tokens (r_ballot s)) + in_flight s = mset (tokens b') + in_flight s'"
  proof -
    let ?G = "\<Sum>x\<in>#gs. unsent x"
    have f: "in_flight s' + unsent g = in_flight s + ?G"
      using in_flight_step [OF g(1), of gs] by (simp add: g(4) in_flight_def)
    have "mset (tokens (r_ballot s)) + in_flight s + ?G = mset (tokens (r_ballot s)) + (in_flight s' + unsent g)"
      unfolding f by (simp only: add.assoc)
    also have "\<dots> = (mset (tokens (r_ballot s)) + unsent g) + in_flight s'" by (simp only: ac_simps)
    also have "mset (tokens (r_ballot s)) + unsent g = mset (tokens b') + ?G" using e by simp
    also have "mset (tokens b') + ?G + in_flight s' = mset (tokens b') + in_flight s' + ?G" by (simp only: ac_simps)
    finally show ?thesis by (simp only: add_right_cancel)
  qed
  have "b_closed b' \<longrightarrow> decisions tr \<noteq> []"
  proof
    assume "b_closed b'"
    then consider "b_closed (r_ballot s)" | "unsent g \<noteq> {#}" using e by auto
    then show "decisions tr \<noteq> []"
    proof cases
      case 2
      obtain T where "r_running s = add_mset g T" using g(1) by (rule mset_add)
      with 2 have "in_flight s \<noteq> {#}" by (simp add: in_flight_def)
      then have "mset (decisions tr) \<noteq> {#}" using I by (simp add: sent_inv_def)
      then show ?thesis by auto
    qed (use I in \<open>simp add: sent_inv_def\<close>)
  qed
  moreover have "decisions tr \<noteq> [] \<longrightarrow> b_closed b' \<or> undecided s'"
  proof
    assume "decisions tr \<noteq> []"
    with I consider "b_closed (r_ballot s)" | h where "h \<in># r_running s" "is_undecided h"
      by (auto simp: sent_inv_def undecided_def)
    then show "b_closed b' \<or> undecided s'"
    proof cases
      case 2
      show ?thesis
      proof (cases "h = g")
        case True
        with 2 e consider "b_closed b'" | k where "k \<in># gs" "is_undecided k" by blast
        then show ?thesis
        proof cases
          case 2
          then have "k \<in># r_running s'" unfolding g(4) by (simp only: race.simps union_iff simp_thms)
          with 2 show ?thesis by (auto simp: undecided_def)
        qed simp
      next
        case False
        with 2 show ?thesis by (auto simp: undecided_def g(4) in_diff_count intro!: exI [of _ h])
      qed
    qed (use e in simp)
  qed
  ultimately show ?thesis using I e g(3) sum by (simp add: sent_inv_def g(4) Go add.assoc)
next
  case (Call_wait arm)
  with c obtain w b' where w: "Ballot_Wait arm (r_ballot s) = Ret w b'" "r = Waited w" "s' = s\<lparr>r_ballot := b'\<rparr>"
    by (auto simp: bind_eq_Ret_iff zoom_eq_Ret_iff)
  with I Wait_effect [OF w(1)] show ?thesis
    by (auto simp: sent_inv_def Call_wait undecided_def in_flight_def)
qed

lemma sent_trace: "race_trace (new_race fe n ttl) tr apart s \<Longrightarrow> sent_inv n tr s"
proof (induction rule: race_trace.induct)
  case start
  show ?case
    by (simp add: sent_inv_def new_race_def channels_ok_def tokens_def in_flight_def newBallot_def decisions_def waits_def)
next
  case (step tr apart s x r s')
  show ?case by (rule sent_call [OF step.IH step.hyps(2)])
qed

subsection \<open>Closers that stay apart\<close>

text \<open>Voters are hosts, never the empty name.\<close>

definition named_race :: "(race_op \<times> race_result) list \<Rightarrow> bool" where
  "named_race tr \<longleftrightarrow> (\<forall>(x, r)\<in>set tr. case x of Call_propose v _ \<Rightarrow> v \<noteq> [] | _ \<Rightarrow> True)"

definition closers :: "race \<Rightarrow> goroutine multiset" where
  "closers s = filter_mset (\<lambda>g. unsent g \<noteq> {#}) (r_running s)"

definition spent :: "Ballot \<Rightarrow> bool" where
  "spent b \<longleftrightarrow> b_timer b = Timer_stopped \<or> b_timer b = Timer_fired"

text \<open>How far the only closer has come, and what that means for the flag and the timer.\<close>

definition phase :: "error option \<Rightarrow> race \<Rightarrow> bool" where
  "phase d s \<longleftrightarrow> (let b = r_ballot s; C = closers s in
     C = {#Close_stop d#} \<and> \<not> b_closed b \<or>
     (C = {#Close_set d#} \<or> C = {#Fire_set#}) \<and> \<not> b_closed b \<and> spent b \<or>
     (C = {#Close_record d#} \<or> C = {#Close_send d#} \<or> C = {#Fire_send#} \<or> C = {#}) \<and> b_closed b \<and> spent b)"

definition apart_inv :: "(race_op \<times> race_result) list \<Rightarrow> race \<Rightarrow> bool" where
  "apart_inv tr s \<longleftrightarrow>
     (b_timer (r_ballot s) = Timer_nil \<longleftrightarrow> countVotes (proposed (r_ballot s)) = 0) \<and>
     (\<forall>i. Propose_slot [] i \<notin># r_running s) \<and>
     (decisions tr = [] \<and> \<not> b_closed (r_ballot s) \<and> closers s = {#} \<or> (\<exists>d. decisions tr = [d] \<and> phase d s))"

lemma closers_go:
  assumes "g \<in># r_running s"
  shows "closers (s\<lparr>r_ballot := b, r_running := r_running s - {#g#} + gs\<rparr>) =
      (if unsent g \<noteq> {#} then closers s - {#g#} else closers s) + filter_mset (\<lambda>g. unsent g \<noteq> {#}) gs"
    and "unsent g \<noteq> {#} \<Longrightarrow> g \<in># closers s"
  using assms by (auto simp: closers_def)

lemma phase_undecided:
  assumes "phase d s" and "\<not> b_closed (r_ballot s)"
  shows "undecided s"
proof -
  obtain c where "closers s = {#c#}" "is_undecided c" using assms by (auto simp: phase_def Let_def)
  moreover have "c \<in># closers s" using calculation by simp
  then have "c \<in># r_running s" by (simp add: closers_def)
  ultimately show ?thesis by (auto simp: undecided_def)
qed

lemma slot_effect:
  assumes "propose_slot now v i b = Ret r b'" and "v \<noteq> []"
    and "b_timer b = Timer_nil \<longleftrightarrow> countVotes (proposed b) = 0"
  shows "(b_timer b' = Timer_nil \<longleftrightarrow> countVotes (proposed b') = 0) \<and> b_closed b' = b_closed b \<and>
    (spent b \<longrightarrow> spent b')"
  using assms
  by (auto simp: propose_slot_def countVotes_update setTTL_def spent_def Let_def split: if_splits)

lemma apart_call:
  assumes I: "apart_inv tr s" and c: "race_call x s = Ret r s'"
    and n: "named_race (tr @ [(x, r)])" and ap: "\<not> (undecided s \<and> (\<exists>d. r = Decided d))"
  shows "apart_inv (tr @ [(x, r)]) s'"
proof (cases x)
  case (Call_close err)
  show ?thesis
  proof (cases "b_closed (r_ballot s)")
    case True
    with I c Call_close show ?thesis by (simp add: apart_inv_def)
  next
    case False
    with c ap Call_close have "\<not> undecided s" by (auto simp: start_def)
    with False I phase_undecided have d: "decisions tr = []" "closers s = {#}" by (auto simp: apart_inv_def)
    with False I c Call_close show ?thesis
      by (auto simp: apart_inv_def start_def phase_def closers_def)
  qed
next
  case (Call_propose v i)
  with I c n show ?thesis
    by (auto simp: apart_inv_def start_def phase_def closers_def named_race_def Let_def split: if_splits)
next
  case (Call_commit v i)
  with I c show ?thesis
    by (auto simp: apart_inv_def start_def phase_def closers_def Let_def split: if_splits)
next
  case Timer_fires
  then obtain t where t: "b_timer (r_ballot s) = Timer_armed t" "r = Decided (Some errBallotTimedOut)"
    "s' = s\<lparr>r_ballot := (r_ballot s)\<lparr>b_timer := Timer_fired\<rparr>, r_running := add_mset Fire_set (r_running s)\<rparr>"
    using c by (auto simp: start_def split: timer.splits)
  with ap have u: "\<not> undecided s" by simp
  have "\<not> phase d s" for d
  proof
    assume ph: "phase d s"
    show False
    proof (cases "b_closed (r_ballot s)")
      case True
      with ph t(1) show False by (auto simp: phase_def spent_def Let_def)
    qed (use ph u phase_undecided in blast)
  qed
  with I have d: "decisions tr = []" "closers s = {#}" "\<not> b_closed (r_ballot s)" by (auto simp: apart_inv_def)
  with I t show ?thesis
    by (auto simp: apart_inv_def Timer_fires phase_def closers_def spent_def)
next
  case (Call_wait arm)
  with c obtain w b' where w: "Ballot_Wait arm (r_ballot s) = Ret w b'" "r = Waited w" "s' = s\<lparr>r_ballot := b'\<rparr>"
    by (auto simp: bind_eq_Ret_iff zoom_eq_Ret_iff)
  have "b_closed b' = b_closed (r_ballot s) \<and> b_timer b' = b_timer (r_ballot s) \<and> proposed b' = proposed (r_ballot s)"
    using w(1) by (cases arm) (auto simp: bind_eq_Ret_iff zoom_eq_Ret_iff)
  with I w show ?thesis
    by (auto simp: apart_inv_def Call_wait phase_def closers_def spent_def Let_def)
next
  case (Go now g)
  then obtain gs b' where g: "g \<in># r_running s" "go_step now g (r_ballot s) = Ret gs b'" "r = Other"
    "s' = \<lparr>r_ballot = b', r_running = r_running s - {#g#} + gs\<rparr>"
    using c by (cases s) (auto simp: bind_eq_Ret_iff zoom_eq_Ret_iff split: if_splits)
  have C: "closers s' = (if unsent g \<noteq> {#} then closers s - {#g#} else closers s) + filter_mset (\<lambda>g. unsent g \<noteq> {#}) gs"
    using closers_go(1) [OF g(1), where b = b' and gs = gs] by (cases s) (simp add: g(4))
  have mem: "unsent g \<noteq> {#} \<Longrightarrow> g \<in># closers s" by (rule closers_go(2) [OF g(1)])
  have names: "\<forall>i. Propose_slot [] i \<notin># r_running s'"
  proof
    fix i
    have "Propose_slot [] i \<notin># r_running s" using I by (simp add: apart_inv_def)
    moreover have "Propose_slot [] i \<notin># gs" using g(2) by (cases g) (auto simp: bind_eq_Ret_iff)
    ultimately have "Propose_slot [] i \<notin># r_running s - {#g#} + gs" by (auto dest: in_diffD)
    then show "Propose_slot [] i \<notin># r_running s'" unfolding g(4) by (simp only: race.simps simp_thms)
  qed
  show ?thesis
  proof (cases "\<exists>v i. g = Propose_slot v i")
    case True
    then obtain v i where vi: "g = Propose_slot v i" by blast
    with g(1) I have "v \<noteq> []" by (auto simp: apart_inv_def)
    moreover obtain r' where "propose_slot now v i (r_ballot s) = Ret r' b'" "gs = {#}"
      using g(2) vi by (auto simp: bind_eq_Ret_iff)
    ultimately have "(b_timer b' = Timer_nil \<longleftrightarrow> countVotes (proposed b') = 0) \<and> b_closed b' = b_closed (r_ballot s) \<and>
        (spent (r_ballot s) \<longrightarrow> spent b')" "closers s' = closers s"
      using slot_effect I C vi by (auto simp: apart_inv_def)
    with I names g(3,4) show ?thesis by (auto simp: apart_inv_def Go phase_def Let_def)
  next
    case False
    have eff: "proposed b' = proposed (r_ballot s)" "b_timer b' = Timer_nil \<longleftrightarrow> b_timer (r_ballot s) = Timer_nil"
      using g(2) False
      by (cases g; auto simp: bind_eq_Ret_iff stop_timer_def set_closed_def record_close_def send_decision_def
        zoom_eq_Ret_iff commit_slot_def Let_def split: if_splits option.splits)+
    have "decisions tr = [] \<and> \<not> b_closed b' \<and> closers s' = {#} \<or> (\<exists>d. decisions tr = [d] \<and> phase d s')"
    proof (cases "unsent g = {#}")
      case True
      with False g(2) obtain v i where "g = Commit_slot v i" by (cases g) auto
      with g(2) C I show ?thesis
        by (auto simp: apart_inv_def phase_def spent_def g(4) bind_eq_Ret_iff commit_slot_def Let_def split: if_splits)
    next
      case u: False
      with mem have "g \<in># closers s" by simp
      with I obtain d where d: "decisions tr = [d]" "phase d s" by (auto simp: apart_inv_def)
      with \<open>g \<in># closers s\<close> have one: "closers s = {#g#}" by (auto simp: phase_def Let_def)
      with d(2) g(2) C u have "phase d s'"
        by (cases g) (auto simp: phase_def spent_def g(4) bind_eq_Ret_iff stop_timer_def set_closed_def
          record_close_def send_decision_def zoom_eq_Ret_iff Let_def split: if_splits option.splits)
      with d(1) show ?thesis by blast
    qed
    with I eff names g(3,4) show ?thesis by (auto simp: apart_inv_def Go)
  qed
qed

lemma apart_trace:
  assumes "race_trace (new_race fe n ttl) tr apart s" and "named_race tr" and "apart"
  shows "apart_inv tr s"
  using assms
proof (induction rule: race_trace.induct)
  case start
  show ?case by (simp add: apart_inv_def new_race_def newBallot_def decisions_def closers_def)
next
  case (step tr apart s x r s')
  then have "apart_inv tr s" by (simp add: named_race_def)
  with step show ?case by (intro apart_call) auto
qed

text \<open>A goroutine that has yet to send finds room in the channels, when it is the only one.\<close>

lemma go_step_goes_on:
  assumes ch: "channels_ok n b" and "0 < n" and "unsent g \<noteq> {#} \<Longrightarrow> tokens b = []"
  shows "go_step now g b \<noteq> Block b'"
  using assms
  by (cases g)
    (auto simp: bind_def zoom_def chan_send_def channels_ok_def tokens_def stop_timer_def set_closed_def record_close_def
      send_decision_def propose_slot_def commit_slot_def Let_def split: outcome.splits option.splits if_splits)

lemma apart_go:
  assumes I: "sent_inv n tr s" and n: "0 < n" and one: "length (decisions tr) \<le> 1" and g: "g \<in># r_running s"
  shows "race_call (Go now g) s \<noteq> Block s'"
proof -
  have "tokens (r_ballot s) = []" if u: "unsent g \<noteq> {#}"
  proof -
    obtain T where "r_running s = add_mset g T" using g by (rule mset_add)
    then have "in_flight s = unsent g + (\<Sum>x\<in>#T. unsent x)" by (simp add: in_flight_def)
    with I have "mset (decisions tr) = mset (waits tr) + mset (tokens (r_ballot s)) + (unsent g + (\<Sum>x\<in>#T. unsent x))"
      by (simp add: sent_inv_def)
    then have "length (decisions tr) = length (waits tr) + length (tokens (r_ballot s)) + (size (unsent g) + size (\<Sum>x\<in>#T. unsent x))"
      by (metis size_mset size_union)
    moreover have "size (unsent g) \<ge> 1" using u by (simp add: Suc_le_eq nonempty_has_size)
    ultimately have "length (tokens (r_ballot s)) = 0" using one by linarith
    then show ?thesis by simp
  qed
  moreover have "channels_ok n (r_ballot s)" using I by (simp add: sent_inv_def)
  ultimately have "go_step now g (r_ballot s) \<noteq> Block b'" for b' using go_step_goes_on n by blast
  then show ?thesis using g by (auto simp: bind_def zoom_def split: outcome.splits)
qed

lemma Wait_returns_iff:
  assumes "channels_ok n b"
  shows "(\<exists>arm r b'. Ballot_Wait arm b = Ret r b') \<longleftrightarrow> tokens b \<noteq> []"
proof
  assume "\<exists>arm r b'. Ballot_Wait arm b = Ret r b'"
  then obtain arm r b' where "Ballot_Wait arm b = Ret r b'" by blast
  with Wait_effect [OF this assms] show "tokens b \<noteq> []" by auto
next
  assume "tokens b \<noteq> []"
  then consider "buf (b_done b) \<noteq> []" | "buf (errc b) \<noteq> []" by (auto simp: tokens_def)
  then show "\<exists>arm r b'. Ballot_Wait arm b = Ret r b'"
  proof cases
    case 1
    then have "\<exists>r b'. Ballot_Wait Arm_done b = Ret r b'"
      by (auto simp: bind_def zoom_def chan_recv_def neq_Nil_conv split: list.splits)
    then show ?thesis by blast
  next
    case 2
    then have "\<exists>r b'. Ballot_Wait Arm_err b = Ret r b'"
      by (auto simp: bind_def zoom_def chan_recv_def neq_Nil_conv split: list.splits)
    then show ?thesis by blast
  qed
qed

subsection \<open>Two runs\<close>

text \<open>Running a list of steps that all return.\<close>

fun run_race :: "race \<Rightarrow> race_op list \<Rightarrow> ((race_op \<times> race_result) list \<times> bool \<times> race) option" where
  "run_race s [] = Some ([], True, s)"
| "run_race s (x # xs) =
     (case race_call x s of
        Ret r s' \<Rightarrow>
          (case run_race s' xs of
             Some (tr, apart, s'') \<Rightarrow>
               Some ((x, r) # tr, apart \<and> \<not> (undecided s \<and> (\<exists>d. r = Decided d)), s'')
           | None \<Rightarrow> None)
      | _ \<Rightarrow> None)"

lemma run_race_trace_from:
  assumes "run_race s xs = Some (tr, apart, s')" and "race_trace s0 tr0 apart0 s"
  shows "race_trace s0 (tr0 @ tr) (apart0 \<and> apart) s'"
  using assms
proof (induction xs arbitrary: s tr apart tr0 apart0)
  case (Cons x xs)
  from Cons.prems(1) obtain r s1 tr1 apart1 where c: "race_call x s = Ret r s1"
    "run_race s1 xs = Some (tr1, apart1, s')" "tr = (x, r) # tr1"
    "apart = (apart1 \<and> \<not> (undecided s \<and> (\<exists>d. r = Decided d)))"
    by (auto split: outcome.splits option.splits)
  have "race_trace s0 (tr0 @ [(x, r)]) (apart0 \<and> \<not> (undecided s \<and> (\<exists>d. r = Decided d))) s1"
    by (rule race_trace.step [OF Cons.prems(2) c(1)])
  from Cons.IH [OF c(2) this] show ?case unfolding c(3,4) by (simp add: conj_ac)
qed simp

lemma run_race_trace: "run_race s xs = Some (tr, apart, s') \<Longrightarrow> race_trace s tr apart s'"
  using run_race_trace_from [OF _ race_trace.start] by simp

text \<open>Both begin with a proposal of a ballot for one vote; then its commit closes it.\<close>

definition first_steps :: "race_op list" where
  "first_steps = [Call_propose ''a'' 0, Go 5 (Propose_slot ''a'' 0), Call_close None]"

text \<open>The close runs to its end, and its waiter returns.\<close>

definition alone_steps :: "race_op list" where
  "alone_steps = first_steps @ [Go 6 (Close_stop None), Go 6 (Close_set None), Go 6 (Close_record None),
     Go 6 (Close_send None), Call_wait Arm_done]"

text \<open>The timer fires after the close read the flag: both set it, both send.\<close>

definition racing_steps :: "race_op list" where
  "racing_steps = first_steps @ [Timer_fires, Go 6 (Close_stop None), Go 6 (Close_set None), Go 6 (Close_record None),
     Go 7 Fire_set, Go 7 Fire_send, Go 7 (Close_send None), Call_wait Arm_err, Call_wait Arm_done]"

lemmas run_simps = first_steps_def new_race_def newBallot_def start_def bind_def zoom_def propose_slot_def setTTL_def
  stop_timer_def set_closed_def record_close_def send_decision_def chan_send_def chan_recv_def undecided_def Let_def
  numeral_2_eq_2

lemma single_run:
  "\<exists>tr s. run_race (new_race 0 2 3) alone_steps = Some (tr, True, s) \<and> named_race tr \<and>
     decisions tr = [None] \<and> waits tr = [None]"
  by (simp add: alone_steps_def run_simps named_race_def decisions_def waits_def)

lemma racing_run:
  "\<exists>tr s. run_race (new_race 0 2 3) racing_steps = Some (tr, False, s) \<and> named_race tr \<and>
     decisions tr = [None, Some errBallotTimedOut] \<and> waits tr = [Some errBallotTimedOut, None]"
  by (simp add: racing_steps_def run_simps named_race_def decisions_def waits_def)

text \<open>
  C17: Whatever goroutines race on a ballot, every decision taken (a close that read the flag as
  open, or the timer that fired) is received by one waiter, is in a channel, or is about to be
  sent: none is lost or made up. The ballot is closed only by a decision, and is closed once
  one was taken and no goroutine stands between its check of the flag and its store to it. A
  waiter returns when a decision is in a channel. Where those who close were apart, one
  decision is taken at most, it is what waiters receive, and no goroutine in flight blocks.
  The code does not keep them apart: in the second run of the witness the timer fires after a
  close read the flag, both decide, and the waiter gets errBallotTimedOut for an entry that
  was committed.
\<close>

theorem ballot_decisions:
  assumes run: "race_trace (new_race fe n ttl) tr apart s" and named: "named_race tr" and n: "0 < n"
  shows "mset (decisions tr) = mset (waits tr) + mset (tokens (r_ballot s)) + in_flight s \<and>
    (Ballot_Closed (r_ballot s) \<longrightarrow> decisions tr \<noteq> []) \<and>
    (decisions tr \<noteq> [] \<and> \<not> undecided s \<longrightarrow> Ballot_Closed (r_ballot s)) \<and>
    ((\<exists>arm r b'. Ballot_Wait arm (r_ballot s) = Ret r b') \<longleftrightarrow> tokens (r_ballot s) \<noteq> []) \<and>
    (apart \<longrightarrow>
       (decisions tr = [] \<and> waits tr = [] \<or> (\<exists>d. decisions tr = [d] \<and> (waits tr = [] \<or> waits tr = [d]))) \<and>
       (\<forall>now g s'. g \<in># r_running s \<longrightarrow> race_call (Go now g) s \<noteq> Block s'))"
proof -
  note sent = sent_trace [OF run]
  have ch: "channels_ok n (r_ballot s)" using sent by (simp add: sent_inv_def)
  have "(decisions tr = [] \<and> waits tr = [] \<or> (\<exists>d. decisions tr = [d] \<and> (waits tr = [] \<or> waits tr = [d]))) \<and>
      (\<forall>now g s'. g \<in># r_running s \<longrightarrow> race_call (Go now g) s \<noteq> Block s')" if "apart"
  proof -
    have "decisions tr = [] \<or> (\<exists>d. decisions tr = [d])"
      using apart_trace [OF run named that] by (auto simp: apart_inv_def)
    moreover have "mset (waits tr) \<subseteq># mset (decisions tr)" using sent by (simp add: sent_inv_def)
    moreover have "race_call (Go now g) s \<noteq> Block s'" if "g \<in># r_running s" for now g s'
      using calculation(1) by (intro apart_go [OF sent n _ that]) auto
    ultimately show ?thesis by (cases "waits tr") auto
  qed
  then show ?thesis
    using sent Wait_returns_iff [OF ch] by (auto simp: sent_inv_def Ballot_Closed_def)
qed

lemma ballot_decisions_witness:
  "(\<exists>tr s. race_trace (new_race 0 2 3) tr True s \<and> decisions tr = [None] \<and> waits tr = [None] \<and>
      in_flight s = {#} \<and> tokens (r_ballot s) = []) \<and>
   (\<exists>tr s. race_trace (new_race 0 2 3) tr False s \<and> decisions tr = [None, Some errBallotTimedOut] \<and>
      waits tr = [Some errBallotTimedOut, None] \<and> in_flight s = {#} \<and> tokens (r_ballot s) = [])"
proof -
  obtain tr s where a: "run_race (new_race 0 2 3) alone_steps = Some (tr, True, s)" "named_race tr"
    "decisions tr = [None]" "waits tr = [None]" using single_run by blast
  obtain tr' s' where r: "run_race (new_race 0 2 3) racing_steps = Some (tr', False, s')" "named_race tr'"
    "decisions tr' = [None, Some errBallotTimedOut]" "waits tr' = [Some errBallotTimedOut, None]"
    using racing_run by blast
  note traces = run_race_trace [OF a(1)] run_race_trace [OF r(1)]
  have "mset (tokens (r_ballot s)) = {#} \<and> in_flight s = {#}"
    using ballot_decisions [OF traces(1) a(2), THEN conjunct1] unfolding a(3,4) by simp
  moreover have "mset (tokens (r_ballot s')) = {#} \<and> in_flight s' = {#}"
    using ballot_decisions [OF traces(2) r(2), THEN conjunct1] unfolding r(3,4) by simp
  ultimately show ?thesis using traces a(3,4) r(3,4) by auto
qed

end
