(* ===== verification/Spec2Isabelle.thy ===== *)
theory Spec2Isabelle
  imports Heal Broadcast Ballot_Race
begin

text \<open>
  Hexalog, a log of entries per key replicated by votes of a peer set.

  \<^bold>\<open>The program.\<close> An entry carries its key, data, height, times and the hash of the entry
  before it. The entries of a key form a keylog: an index of entry ids (keylogindex.go,
  ukeylogindex.go) over an entry store (store_entry.go); the log store (logstore.go, keylog.go)
  appends, rolls back and looks up. A node (hexalog.go, hexalog_utils.go) takes proposals and
  commits for an entry from its peers and counts them in a ballot (ballot.go). The first
  proposal of a node is broadcast to the other peers (broadcast.go); when all peers have
  proposed, commits are voted and broadcast; the last commit vote appends the entry and hands
  it to the application through a queue (fsm.go, future.go). A node that is behind asks for the
  leader of a key (leader.go), the location with the greatest height, and pulls what it misses
  (heal.go, net.go); a new node seeds all keys of a host (\<open>Seed\<close>). Calls between hosts go
  through a pool of connections (pool.go).

  \<^bold>\<open>Theories.\<close> Definitions have the names of the source, prefixed by their type where needed.
  \<^item> \<open>Go_Prelude\<close>, \<open>Go_Calls\<close>: bytes (nil is \<open>None\<close>), maps as association lists, and calls on a
    state that return, panic or block, with buffered channels. A blocked call keeps what it did
    before it blocked.
  \<^item> \<open>Hexa_Types\<close>, \<open>Entry_Hash\<close>: messages, options, configuration, errors; the bytes an entry
    hashes and when they are ambiguous. The hash function is a parameter, free of collisions on
    the entries of a run where a theorem needs it.
  \<^item> \<open>Keylog_Index\<close>, \<open>Store_Interfaces\<close>, \<open>In_Memory_Stores\<close>: the index operations; the laws of
    the store interfaces as locales; the in-memory stores and the interpretations.
  \<^item> \<open>Hash_Chain\<close>, \<open>Keylog\<close>, \<open>Log_Store\<close>, \<open>Log_Runs\<close>: chains of entries linked by hashes, the
    log store over any stores with those laws, its specification as a map from keys to lists of
    entries, and sequences of calls over the in-memory stores.
  \<^item> \<open>Future\<close>, \<open>Ballot\<close>, \<open>Ballot_Race\<close>: futures and ballots with their channels and timer, traces
    of whole calls on a ballot, and the atomic parts of those calls (reading the flag, stopping
    the timer, setting the flag, recording, sending) run by several goroutines in any order.
  \<^item> \<open>Node\<close>, \<open>Fsm\<close>, \<open>Hexalog\<close>: the state of a node with heaps of futures and ballots, the loop
    of the application and the replay at start, and all calls of a node.
  \<^item> \<open>Node_Invariant\<close>, \<open>Node_Runs\<close>, \<open>Node_Properties\<close>, \<open>Node_Commits\<close>, \<open>Node_Requests\<close>: the
    invariant of a node, that every call keeps it, also when it blocks half way, and what
    follows for sequences of calls; single calls, their errors and panics.
  \<^item> \<open>Leader\<close>, \<open>Pool\<close>, \<open>Net\<close>, \<open>Log_Transfer\<close>, \<open>Heal\<close>, \<open>Broadcast\<close>: the leader of a key, the
    pool, the handlers and remote calls, what streams of keylogs do to the receiving node,
    healing and seeding over the interface \<open>log_transport\<close>, which is interpreted on nodes that
    serve their handlers, and the two broadcasters.

  \<^bold>\<open>What is shown.\<close> The log store refines the map of lists and keeps every log a hash chain;
  ballots count votes once per index; every decision on a ballot is sent once, and there is one
  only as long as no two of those who close it (commits, refusals, the timer) overlap, which
  the code does not ensure. Along every run of a node whose requests about one entry all name
  the same number of peers, each appended entry has the votes of all peers or was appended by
  healing; without that condition an entry commits with fewer. The application gets the log of
  each key in order, and the last vote leads to the application. A leader that is consistent means equal logs; pulling,
  healing and seeding make logs equal when the local ones are prefixes; a diverged log is not
  healed. A broadcast returns unless a peer never answers or the own host is listed twice. The
  theorems about errors give the cases in which the code panics, blocks or loses something.

  \<^bold>\<open>Bounds.\<close> The queue of the application holds 16 entries as in the code; theorems of appends
  assume room in it, since the loop that empties it is a step of its own; the replay at start takes turns of the loop when the
  queue is full, as the loop already runs then. Heights are 32 bit and
  wrap, Lamport times 64 bit. Loops over lists are structural recursions, so no fuel is used.

  \<^bold>\<open>Atomicity.\<close> In runs of a node a call is one step; interleavings are sequences of calls, and
  a call that blocks is not resumed. The code is less atomic than that: it holds no lock over a
  vote or close and what follows from it, nor over the append, the queueing and the close of
  \<open>checkVotesAndCommit\<close>. Two such places are also modelled in their unlocked parts: \<open>MarkKey\<close>, as
  its read and its write, and the votes, the timeout and the close of a ballot in \<open>Ballot_Race\<close>.
  What is shown of runs of a node holds where its calls do not overlap. Results of
  concurrent requests arrive in an order that is a parameter.

  \<^bold>\<open>Parameters.\<close> The application, the clock, the hash function, the texts of gRPC errors, what a
  remote host answers to a call and what can be received on a stream; a stream is its messages
  and its end. Messages arrive as they were sent: a field that is nil or empty is not
  distinguished on the wire, which the model does not show.

  \<^bold>\<open>Not modelled.\<close> The generated rpc.pb.go but for its structs, gRPC itself, logging, the
  \<open>EchoFSM\<close>, which only logs, and the contents of errors of other packages. Sending a message and
  waiting on it are not steps of their own between several nodes yet: a cluster of nodes whose
  broadcasts reach each other is what remains to be composed.
\<close>

end
